(* ===== verification/Prelude.thy ===== *)
theory Prelude
  imports Main "HOL-Library.Word" "HOL-Library.Monad_Syntax"
begin

text \<open>
  Shared vocabulary of the development.

  \<^item> Scheme values: every value the runtime passes around is a tagged word, either an
    immediate (a fixnum or one of the constant objects) or the address of an allocated
    object; \<open>SAME_OBJ\<close> is equality of these words.
  \<^item> Memory safety: a C array is a list, and a read or write outside of it has no
    result. The functions \<open>rd\<close>, \<open>wr\<close> and \<open>blit\<close> return \<open>None\<close> there, so a
    model built from them returns \<open>None\<close> exactly where the C code would have
    undefined behaviour; a theorem that the result is \<open>Some\<close> is a safety theorem.
  \<^item> Generic facts on lists, on the option monad and on machine words.
\<close>

unbundle bit_operations_syntax

named_theorems mem_simps \<open>rewriting of reads and writes within bounds\<close>

section \<open>Scheme values\<close>

text \<open>
  \<open>Fixnum\<close> is an immediate integer (\<open>SCHEME_INTP\<close>); \<open>scheme_true\<close>, \<open>scheme_false\<close>,
  \<open>scheme_null\<close> and \<open>scheme_void\<close> are the preallocated constants; \<open>Ptr a\<close> is the
  object allocated at address \<open>a\<close>.
\<close>

datatype obj = Fixnum int | scheme_true | scheme_false | scheme_null | scheme_void | Ptr nat

type_synonym uintptr = "64 word"

section \<open>Arrays\<close>

definition rd :: "'a list \<Rightarrow> nat \<Rightarrow> 'a option" where
  "rd xs i = (if i < length xs then Some (xs ! i) else None)"

definition wr :: "'a list \<Rightarrow> nat \<Rightarrow> 'a \<Rightarrow> 'a list option" where
  "wr xs i v = (if i < length xs then Some (xs[i := v]) else None)"

text \<open>\<open>memcpy (dst + d, src + s, n)\<close> between two distinct arrays.\<close>

definition blit :: "'a list \<Rightarrow> nat \<Rightarrow> 'a list \<Rightarrow> nat \<Rightarrow> nat \<Rightarrow> 'a list option" where
  "blit dst d src s n =
     (if d + n \<le> length dst \<and> s + n \<le> length src
      then Some (take d dst @ take n (drop s src) @ drop (d + n) dst) else None)"

lemma rd_Some [mem_simps]: "i < length xs \<Longrightarrow> rd xs i = Some (xs ! i)"
  by (simp add: rd_def)

lemma rd_eq_Some_iff: "rd xs i = Some x \<longleftrightarrow> i < length xs \<and> xs ! i = x"
  by (auto simp: rd_def)

lemma wr_Some [mem_simps]: "i < length xs \<Longrightarrow> wr xs i v = Some (xs[i := v])"
  by (simp add: wr_def)

lemma length_blit: "blit dst d src s n = Some r \<Longrightarrow> length r = length dst"
  by (auto simp: blit_def split: if_splits)

lemma blit_Some [mem_simps]:
  "d + n \<le> length dst \<Longrightarrow> s + n \<le> length src \<Longrightarrow>
   blit dst d src s n = Some (take d dst @ take n (drop s src) @ drop (d + n) dst)"
  by (simp add: blit_def)

text \<open>
  Inserting and removing at a position: what two \<open>memcpy\<close> calls around a hole compute.
\<close>

definition insert_at :: "nat \<Rightarrow> 'a \<Rightarrow> 'a list \<Rightarrow> 'a list" where
  "insert_at i x xs = take i xs @ x # drop i xs"

definition remove_at :: "nat \<Rightarrow> 'a list \<Rightarrow> 'a list" where
  "remove_at i xs = take i xs @ drop (Suc i) xs"

lemma length_insert_at [simp]: "i \<le> length xs \<Longrightarrow> length (insert_at i x xs) = Suc (length xs)"
  by (simp add: insert_at_def)

lemma length_remove_at [simp]: "i < length xs \<Longrightarrow> length (remove_at i xs) = length xs - 1"
  by (simp add: remove_at_def)

lemma nth_insert_at:
  "i \<le> length xs \<Longrightarrow> j \<le> length xs \<Longrightarrow>
   insert_at i x xs ! j = (if j < i then xs ! j else if j = i then x else xs ! (j - 1))"
  by (auto simp: insert_at_def nth_append min_def nth_Cons' Suc_diff_Suc)

lemma nth_remove_at:
  "i < length xs \<Longrightarrow> j < length xs - 1 \<Longrightarrow>
   remove_at i xs ! j = (if j < i then xs ! j else xs ! Suc j)"
  by (auto simp: remove_at_def nth_append min_def)

lemma remove_at_insert_at [simp]: "i \<le> length xs \<Longrightarrow> remove_at i (insert_at i x xs) = xs"
  by (simp add: remove_at_def insert_at_def min_def)


lemma sum_list_update_int:
  "i < length xs \<Longrightarrow> sum_list (map f (xs[i := x])) = sum_list (map f xs) + f x - (f (xs ! i) :: int)"
  by (induction xs arbitrary: i) (auto split: nat.splits)

lemma sum_list_insert_at: "sum_list (map f (insert_at i x xs)) = sum_list (map f xs) + (f x :: int)"
proof -
  have "sum_list (map f (insert_at i x xs)) = sum_list (map f (take i xs @ drop i xs)) + f x"
    by (simp only: insert_at_def map_append sum_list_append list.map sum_list.Cons)
  then show ?thesis by simp
qed

lemma sum_list_remove_at:
  assumes "i < length xs"
  shows "sum_list (map f (remove_at i xs)) = sum_list (map f xs) - (f (xs ! i) :: int)"
proof -
  have "sum_list (map f xs) = sum_list (map f (take i xs @ xs ! i # drop (Suc i) xs))"
    using assms by (simp add: id_take_nth_drop [symmetric])
  then show ?thesis by (simp add: remove_at_def)
qed

end
