(* ===== verification/HamtBits.thy ===== *)
theory HamtBits
  imports Prelude
begin

text \<open>
  The bit-level layer of the immutable hash tables of \<open>hash.c\<close>: the slot index of a hash
  code at a level of the tree, the bit counting by which a slot index becomes an array
  position, and the reordering of hash codes. The bit counting is the portable
  multiply-and-shift routine; it is shown to count bits, and positions computed with it
  are shown to behave as ranks in the bitmap.
\<close>

section \<open>Definitions\<close>

type_synonym code = "64 word"
type_synonym bitmap = "32 word"

definition mzHAMT_LOG_WORD_SIZE :: nat where
  "mzHAMT_LOG_WORD_SIZE = 5"

definition mzHAMT_WORD_SIZE :: nat where
  "mzHAMT_WORD_SIZE = 2 ^ mzHAMT_LOG_WORD_SIZE"

definition HIGH_PART :: code where
  "HIGH_PART = NOT 0 - 0xFFFFFFFF"

definition LOW_LOW_PARTS :: code where
  "LOW_LOW_PARTS = 0x3333"

definition HIGH_LOW_PARTS :: code where
  "HIGH_LOW_PARTS = 0xCCCC"

definition PART_BIT_COUNT :: nat where
  "PART_BIT_COUNT = 16"

definition HAMT_REORDER :: "code \<Rightarrow> code" where
  "HAMT_REORDER h =
     (h AND (HIGH_PART OR LOW_LOW_PARTS OR push_bit PART_BIT_COUNT LOW_LOW_PARTS))
     OR push_bit PART_BIT_COUNT (h AND HIGH_LOW_PARTS)
     OR drop_bit PART_BIT_COUNT (h AND push_bit PART_BIT_COUNT HIGH_LOW_PARTS)"

text \<open>A shift by the width of the word or more has no defined result.\<close>

definition hamt_index :: "code \<Rightarrow> nat \<Rightarrow> nat option" where
  "hamt_index c shift =
     (if shift < 64
      then Some (unat (drop_bit shift c AND (push_bit mzHAMT_LOG_WORD_SIZE 1 - 1)))
      else None)"

definition hamt_popcount :: "bitmap \<Rightarrow> nat" where
  "hamt_popcount x0 =
     (let x = x0 - (drop_bit 1 x0 AND 0x55555555);
          x = (x AND 0x33333333) + (drop_bit 2 x AND 0x33333333);
          x = x + drop_bit 4 x;
          x = x AND 0xF0F0F0F
      in unat (drop_bit 24 (x * 0x01010101)))"

definition hamt_popcount_below :: "bitmap \<Rightarrow> nat \<Rightarrow> nat" where
  "hamt_popcount_below bm i = hamt_popcount (bm AND (push_bit i 1 - 1))"

definition hamt_bit :: "nat \<Rightarrow> bitmap" where
  "hamt_bit i = push_bit i 1"

section \<open>The population count\<close>

text \<open>
  The routine adds adjacent bit fields in parallel. A 32-bit word is read as eight
  four-bit fields, on which every step of the routine acts separately.
\<close>

definition nibbles :: "nat list \<Rightarrow> nat" where "nibbles ds = horner_sum id 16 ds"

lemma nibbles_simps [simp]: "nibbles [] = 0" "nibbles (d # ds) = d + 16 * nibbles ds"
  by (simp_all add: nibbles_def)

lemma nat_and_split:
  fixes d m :: nat
  assumes "d < 2 ^ n" "m < 2 ^ n"
  shows "(d + 2 ^ n * h) AND (m + 2 ^ n * M) = (d AND m) + 2 ^ n * (h AND M)"
proof -
  let ?P = "(d + 2 ^ n * h) AND (m + 2 ^ n * M)"
  have t: "take_bit n (x + 2 ^ n * y) = x" "drop_bit n (x + 2 ^ n * y) = y" if "x < 2 ^ n" for x y :: nat
    using that by (simp_all add: take_bit_eq_mod drop_bit_eq_div)
  have "?P = push_bit n (drop_bit n ?P) + take_bit n ?P" by (rule bits_ident [symmetric])
  also have "\<dots> = (d AND m) + 2 ^ n * (h AND M)"
    using assms by (simp only: take_bit_and drop_bit_and t) (simp add: push_bit_eq_mult)
  finally show ?thesis .
qed

lemma drop_bit_split:
  fixes d h :: nat
  assumes "k \<le> n" "d < 2 ^ n"
  shows "drop_bit k (d + 2 ^ n * h) = drop_bit k d + 2 ^ (n - k) * h"
proof -
  have "2 ^ n * h = (2 ^ (n - k) * h) * 2 ^ k" using assms by (simp flip: power_add)
  then show ?thesis by (simp only: drop_bit_eq_div div_mult_self1) simp
qed

lemma nibbles_and: "length ds = length ms \<Longrightarrow> \<forall>d\<in>set ds. d < 16 \<Longrightarrow> \<forall>m\<in>set ms. m < 16 \<Longrightarrow>
   nibbles ds AND nibbles ms = nibbles (map2 (AND) ds ms)"
proof (induction ds ms rule: list_induct2)
  case (Cons d ds m ms) then show ?case using nat_and_split [of d 4 m] by simp
qed simp

lemma nibbles_drop_and:
  assumes "k \<le> 4" "m < 2 ^ (4 - k)" 
  shows "\<forall>d\<in>set ds. d < 16 \<Longrightarrow> 
   drop_bit k (nibbles ds) AND nibbles (replicate (length ds) m) = nibbles (map (\<lambda>d. drop_bit k d AND m) ds)"
proof (induction ds)
  case (Cons d ds)
  have e: "2 ^ (4 - k) * 2 ^ k = (16::nat)" using assms by (simp flip: power_add)
  let ?H = "nibbles ds" let ?M = "nibbles (replicate (length ds) m)"
  have dd: "drop_bit k d < 2 ^ (4 - k)" using Cons.prems e by (simp add: drop_bit_eq_div less_mult_imp_div_less)
  define H where "H = drop_bit k ?H"
  define L where "L = take_bit k ?H"
  have H: "?H = L + 2 ^ k * H" by (simp add: H_def L_def take_bit_eq_mod drop_bit_eq_div)
  have L: "L < 2 ^ k" by (simp add: L_def)
  have "drop_bit k d + 2 ^ (4 - k) * ?H = (drop_bit k d + 2 ^ (4 - k) * L) + 16 * H"
    by (simp add: H algebra_simps flip: e)
  moreover have "drop_bit k d + 2 ^ (4 - k) * L < 2 ^ 4"
  proof -
    have "2 ^ (4 - k) * Suc L \<le> 2 ^ (4 - k) * 2 ^ k" using L by (intro mult_le_mono2) simp
    then show ?thesis using dd e by simp
  qed
  moreover have "m < 2 ^ 4" 
    by (rule less_le_trans [OF assms(2) power_increasing]) simp_all
  ultimately have "(drop_bit k d + 2 ^ (4 - k) * ?H) AND (m + 16 * ?M) = ((drop_bit k d + 2 ^ (4 - k) * L) AND m) + 16 * (H AND ?M)"
    using nat_and_split [of "drop_bit k d + 2 ^ (4 - k) * L" 4 m H ?M] by (simp add: add.assoc)
  moreover have "(drop_bit k d + 2 ^ (4 - k) * L) AND m = drop_bit k d AND m"
    using nat_and_split [of "drop_bit k d" "4 - k" m L 0] dd assms by simp
  moreover have "drop_bit k (nibbles (d # ds)) = drop_bit k d + 2 ^ (4 - k) * ?H"
    using drop_bit_split [of k 4 d ?H] assms Cons.prems by simp
  ultimately show ?case using Cons assms by (simp add: H_def)
qed simp

lemma nibbles_ex: "x < 16 ^ n \<Longrightarrow> \<exists>ds. length ds = n \<and> (\<forall>d\<in>set ds. d < 16) \<and> x = nibbles ds"
proof (induction n arbitrary: x)
  case (Suc n)
  then have "x div 16 < 16 ^ n" by simp
  then obtain ds where "length ds = n" "\<forall>d\<in>set ds. d < 16" "x div 16 = nibbles ds" using Suc.IH by blast
  then show ?case by (intro exI [of _ "x mod 16 # ds"]) (simp flip: \<open>x div 16 = nibbles ds\<close>)
qed simp


lemma nibble_cases: "(d::nat) < 16 \<Longrightarrow> d = 0 \<or> d = 1 \<or> d = 2 \<or> d = 3 \<or> d = 4 \<or> d = 5 \<or> d = 6 \<or> d = 7 \<or> d = 8
   \<or> d = 9 \<or> d = 10 \<or> d = 11 \<or> d = 12 \<or> d = 13 \<or> d = 14 \<or> d = 15"
  by arith

definition nib_pop :: "nat \<Rightarrow> nat" where "nib_pop d = d mod 2 + d div 2 mod 2 + d div 4 mod 2 + d div 8"

lemma nib1: "(d::nat) < 16 \<Longrightarrow> drop_bit 1 d AND 5 \<le> d \<and> d - (drop_bit 1 d AND 5) < 16"
  by (drule nibble_cases) auto

lemma nib2: "(d::nat) < 16 \<Longrightarrow> ((d - (drop_bit 1 d AND 5)) AND 3) + (drop_bit 2 (d - (drop_bit 1 d AND 5)) AND 3) = nib_pop d"
  by (drule nibble_cases) (auto simp: nib_pop_def)

lemma nib_pop_le: "d < 16 \<Longrightarrow> nib_pop d \<le> 4" 
  by (drule nibble_cases) (auto simp: nib_pop_def)

lemma nibbles_diff: "length ds = length es \<Longrightarrow> list_all2 (\<le>) es ds \<Longrightarrow> nibbles ds - nibbles es = nibbles (map2 (-) ds es) \<and> nibbles es \<le> nibbles ds"
proof (induction ds es rule: list_induct2)
  case (Cons d ds e es) then show ?case by auto
qed simp
lemma nibbles_add: "length ds = length es \<Longrightarrow> nibbles ds + nibbles es = nibbles (map2 (+) ds es)"
  by (induction ds es rule: list_induct2) auto
lemma nibbles_bound: "\<forall>d\<in>set ds. d < 16 \<Longrightarrow> nibbles ds < 16 ^ length ds"
  by (induction ds) auto

lemma len8: "length ds = 8 \<Longrightarrow> \<exists>a b c d e f g h. ds = [a,b,c,d,e,f,g,h]"
  by (simp add: eval_nat_numeral length_Suc_conv)  blast

lemma replicate8: "replicate 8 x = [x, x, x, x, x, x, x, x]"
  by (simp add: numeral_eq_Suc)

lemma map2_map_same: "map2 f xs (map g xs) = map (\<lambda>x. f x (g x)) xs"
  by (induction xs) auto

lemma map2_replicate: "length xs = n \<Longrightarrow> map2 f xs (replicate n m) = map (\<lambda>x. f x m) xs"
  by (auto simp: list_eq_iff_nth_eq)

lemma byte_sum_product:
  fixes s0 s1 s2 s3 :: nat
  assumes "s0 \<le> 8" "s1 \<le> 8" "s2 \<le> 8" "s3 \<le> 8"
  shows "((s0 + 256 * s1 + 65536 * s2 + 16777216 * s3) * 0x01010101) mod 2 ^ 32 div 2 ^ 24 = s0 + s1 + s2 + s3"
proof -
  let ?low = "s0 + 256 * (s0 + s1) + 65536 * (s0 + s1 + s2) + 16777216 * (s0 + s1 + s2 + s3)"
  have "(s0 + 256 * s1 + 65536 * s2 + 16777216 * s3) * 0x01010101
     = ?low + 2 ^ 32 * (s1 + s2 + s3 + 256 * (s2 + s3) + 65536 * s3)" by simp
  moreover have "?low < 2 ^ 32" using assms by simp
  ultimately have "((s0 + 256 * s1 + 65536 * s2 + 16777216 * s3) * 0x01010101) mod 2 ^ 32 = ?low"
    by (simp only: mod_mult_self2 mod_less)
  moreover have "?low div 2 ^ 24 = s0 + s1 + s2 + s3" using assms by simp
  ultimately show ?thesis by simp
qed

lemma stage1:
  fixes x :: "32 word"
  assumes "length ds = 8" "\<forall>d\<in>set ds. d < 16" "unat x = nibbles ds"
  shows "unat (x - (drop_bit 1 x AND 0x55555555)) = nibbles (map (\<lambda>d. d - (drop_bit 1 d AND 5)) ds)"
proof -
  have m: "nibbles (replicate 8 5) = 0x55555555" by (simp add: replicate8)
  let ?e = "map (\<lambda>d. drop_bit 1 d AND 5) ds"
  have e: "unat (drop_bit 1 x AND 0x55555555) = nibbles ?e"
    using nibbles_drop_and [of 1 5 ds] assms m by (simp add: unsigned_and_eq unat_drop_bit_eq)
  have "list_all2 (\<le>) ?e ds" using assms nib1 by (auto simp: list_all2_conv_all_nth)
  with e assms nibbles_diff [of ds ?e] show ?thesis
    by (simp add: unat_sub word_le_nat_alt map2_map_same)
qed

lemma stage2:
  fixes x :: "32 word"
  assumes "length ds = 8" "\<forall>d\<in>set ds. d < 16" "unat x = nibbles ds"
  shows "unat ((x AND 0x33333333) + (drop_bit 2 x AND 0x33333333)) = nibbles (map (\<lambda>d. (d AND 3) + (drop_bit 2 d AND 3)) ds)"
proof -
  have m: "nibbles (replicate 8 3) = 0x33333333" by (simp add: replicate8)
  let ?e = "map (\<lambda>d. drop_bit 0 d AND 3) ds" let ?f = "map (\<lambda>d. drop_bit 2 d AND 3) ds"
  have e: "unat (x AND 0x33333333) = nibbles ?e"
    using nibbles_and [of ds "replicate 8 3"] assms m by (simp add: unsigned_and_eq map2_replicate)
  have f: "unat (drop_bit 2 x AND 0x33333333) = nibbles ?f"
    using nibbles_drop_and [of 2 3 ds] assms m by (simp add: unsigned_and_eq unat_drop_bit_eq)
  have a: "nibbles ?e + nibbles ?f = nibbles (map (\<lambda>d. (d AND 3) + (drop_bit 2 d AND 3)) ds)"
    by (subst nibbles_add) (simp_all add: map2_map_map)
  have "\<forall>d\<in>set ds. (d AND 3) + (drop_bit 2 d AND 3) < 16" using assms(2) by (auto dest!: nibble_cases)
  then have "nibbles (map (\<lambda>d. (d AND 3) + (drop_bit 2 d AND 3)) ds) < 2 ^ 32"
    using nibbles_bound [of "map (\<lambda>d. (d AND 3) + (drop_bit 2 d AND 3)) ds"] assms(1) by simp
  then show ?thesis unfolding unat_word_ariths e f a by simp
qed

lemma stage34:
  fixes x :: "32 word"
  assumes "unat x = nibbles [a,b,c,d,e,f,g,h]" "a \<le> 4" "b \<le> 4" "c \<le> 4" "d \<le> 4" "e \<le> 4" "f \<le> 4" "g \<le> 4" "h \<le> 4" 
  shows "unat (drop_bit 24 (((x + drop_bit 4 x) AND 0xF0F0F0F) * 0x01010101)) = a + b + c + d + e + f + g + h"
proof -
  have dr: "unat (drop_bit 4 x) = nibbles [b,c,d,e,f,g,h]"
    unfolding unat_drop_bit_eq assms(1) using assms(2) by (simp add: drop_bit_eq_div)
  have "unat (x + drop_bit 4 x) = nibbles [a+b,b+c,c+d,d+e,e+f,f+g,g+h,h]"
    unfolding unat_word_ariths assms(1) dr using assms(2-) by simp
  moreover have "nibbles [a+b,b+c,c+d,d+e,e+f,f+g,g+h,h] AND nibbles [15,0,15,0,15,0,15,0] 
       = nibbles (map2 (AND) [a+b,b+c,c+d,d+e,e+f,f+g,g+h,h] [15,0,15,0,15,0,15,0])"
    by (rule nibbles_and) (use assms(2-) in auto)
  moreover have "y AND 15 = y" if "y < 16" for y :: nat
    using that by (auto dest!: nibble_cases)
  moreover have "nibbles [15,0,15,0,15,0,15,0] = 0xF0F0F0F" by simp
  ultimately have "unat ((x + drop_bit 4 x) AND 0xF0F0F0F) = nibbles [a+b,0,c+d,0,e+f,0,g+h,0]"
    using assms(2-) by (simp add: unsigned_and_eq)
  then have *: "unat ((x + drop_bit 4 x) AND 0xF0F0F0F) = (a+b) + 256 * (c+d) + 65536 * (e+f) + 16777216 * (g+h)"
    by simp
  define y where "y = (x + drop_bit 4 x) AND 0xF0F0F0F"
  have y: "unat y = (a+b) + 256 * (c+d) + 65536 * (e+f) + 16777216 * (g+h)"
    using * unfolding y_def .
  have "unat (drop_bit 24 (y * 0x01010101)) = a + b + c + d + e + f + g + h"
    using byte_sum_product [of "a+b" "c+d" "e+f" "g+h"] assms(2-)
    by (simp add: unat_drop_bit_eq unat_word_ariths drop_bit_eq_div y)
  then show ?thesis by (simp only: y_def)
qed

definition bit_count :: "nat \<Rightarrow> nat \<Rightarrow> nat" where "bit_count n x = (\<Sum>i<n. of_bool (bit x i))"


lemma sum_lessThan_add: "(\<Sum>i<m + n. f i) = (\<Sum>i<m. f i) + (\<Sum>i<n. f (m + i))" for f :: "nat \<Rightarrow> nat"
  by (induction n) (simp_all add: add.assoc)

lemma bit_split:
  fixes d h :: nat
  assumes "d < 2 ^ n"
  shows "bit (d + 2 ^ n * h) i = (if i < n then bit d i else bit h (i - n))"
proof (cases "i < n")
  case True
  have "bit (d + 2 ^ n * h) i = bit (take_bit n (d + 2 ^ n * h)) i" using True by (simp add: bit_take_bit_iff)
  also have "take_bit n (d + 2 ^ n * h) = d" using assms by (simp add: take_bit_eq_mod)
  finally show ?thesis using True by simp
next
  case False
  have "bit (d + 2 ^ n * h) i = bit (drop_bit n (d + 2 ^ n * h)) (i - n)" using False by (simp add: bit_drop_bit_eq)
  also have "drop_bit n (d + 2 ^ n * h) = h" using assms by (simp add: drop_bit_eq_div)
  finally show ?thesis using False by simp
qed

lemma bit_count_nibbles: "\<forall>d\<in>set ds. d < 16 \<Longrightarrow> bit_count (4 * length ds) (nibbles ds) = sum_list (map nib_pop ds)"
proof (induction ds)
  case (Cons d ds)
  have d: "d < 2 ^ 4" using Cons.prems by simp
  let ?b = "\<lambda>i. of_bool (bit (d + 16 * nibbles ds) i) :: nat"
  have b: "?b i = (if i < 4 then of_bool (bit d i) else of_bool (bit (nibbles ds) (i - 4)))" for i
    using bit_split [OF d, of "nibbles ds" i] by simp
  have "bit_count (4 * length (d # ds)) (nibbles (d # ds)) = (\<Sum>i<4 + 4 * length ds. ?b i)"
    by (simp add: bit_count_def)
  also have "\<dots> = (\<Sum>i<4. ?b i) + (\<Sum>i<4 * length ds. ?b (4 + i))"
    by (rule sum_lessThan_add)
  also have "(\<Sum>i<4. ?b i) = nib_pop d"
  proof -
    have "{..<4::nat} = {0, 1, 2, 3}" by auto
    then have "(\<Sum>i<4. ?b i) = of_bool (bit d 0) + of_bool (bit d 1) + of_bool (bit d 2) + of_bool (bit d 3)"
      by (simp only: b) simp
    also have "\<dots> = nib_pop d" using nibble_cases [of d] d by (auto simp: nib_pop_def bit_iff_odd)
    finally show ?thesis .
  qed
  finally show ?case using Cons by (simp add: b bit_count_def)
qed (simp add: bit_count_def)

lemma hamt_popcount_bits: "hamt_popcount x = bit_count 32 (unat x)"
proof -
  have "unat x < 16 ^ 8" using unsigned_less [of x] by simp
  then obtain ds where ds: "length ds = 8" "\<forall>d\<in>set ds. d < 16" "unat x = nibbles ds" using nibbles_ex by blast
  let ?y = "x - (drop_bit 1 x AND 0x55555555)" 
  let ?z = "(?y AND 0x33333333) + (drop_bit 2 ?y AND 0x33333333)"
  let ?ds = "map (\<lambda>d. d - (drop_bit 1 d AND 5)) ds"
  have y: "unat ?y = nibbles ?ds" using stage1 [OF ds] .
  have "unat ?z = nibbles (map (\<lambda>d. (d AND 3) + (drop_bit 2 d AND 3)) ?ds)"
    by (rule stage2 [OF _ _ y]) (use ds nib1 in auto)
  also have "map (\<lambda>d. (d AND 3) + (drop_bit 2 d AND 3)) ?ds = map nib_pop ds"
    using ds(2) nib2 by simp
  finally have z: "unat ?z = nibbles (map nib_pop ds)" .
  obtain a b c d e f g h where e: "map nib_pop ds = [a,b,c,d,e,f,g,h]" using len8 [of "map nib_pop ds"] ds(1) by auto
  have "\<forall>n\<in>set (map nib_pop ds). n \<le> 4" using ds(2) nib_pop_le by auto
  then have "hamt_popcount x = sum_list (map nib_pop ds)"
    unfolding hamt_popcount_def Let_def using stage34 [OF z [unfolded e]] e by simp
  also have "\<dots> = bit_count 32 (unat x)" using bit_count_nibbles [OF ds(2)] ds by simp
  finally show ?thesis .
qed

lemma hamt_popcount_filter: "hamt_popcount x = length (filter (bit x) [0..<32])"
proof -
  have "bit_count n m = length (filter (bit m) [0..<n])" for n m
    by (induction n) (simp_all add: bit_count_def)
  then show ?thesis by (simp add: hamt_popcount_bits bit_unsigned_iff cong: filter_cong)
qed

section \<open>Ranks in a bitmap\<close>

text \<open>\<open>rank bm i\<close> is the number of set bits below bit \<open>i\<close>.\<close>

definition rank :: "bitmap \<Rightarrow> nat \<Rightarrow> nat" where
  "rank bm i = length (filter (bit bm) [0..<i])"

lemma rank_0 [simp]: "rank bm 0 = 0"
  by (simp add: rank_def)

lemma rank_Suc: "rank bm (Suc i) = rank bm i + (if bit bm i then 1 else 0)"
  by (simp add: rank_def)

lemma hamt_popcount_rank: "hamt_popcount bm = rank bm 32"
  by (simp add: hamt_popcount_filter rank_def)

lemma rank_mono: "i \<le> j \<Longrightarrow> rank bm i \<le> rank bm j"
  by (induction j) (auto simp: rank_Suc le_Suc_eq)

lemma rank_less: "bit bm i \<Longrightarrow> i < j \<Longrightarrow> rank bm i < rank bm j"
  using rank_mono [of "Suc i" j bm] by (simp add: rank_Suc)

lemma bit_less_32: "bit (bm :: bitmap) i \<Longrightarrow> i < 32"
  by (drule bit_imp_le_length) simp

lemma rank_less_pop: "bit bm i \<Longrightarrow> rank bm i < hamt_popcount bm"
  by (simp add: hamt_popcount_rank rank_less bit_less_32)

lemma rank_le_pop: "i \<le> 32 \<Longrightarrow> rank bm i \<le> hamt_popcount bm"
  by (simp add: hamt_popcount_rank rank_mono)

lemma rank_inj: "bit bm i \<Longrightarrow> bit bm j \<Longrightarrow> rank bm i = rank bm j \<Longrightarrow> i = j"
  by (metis linorder_neqE_nat nat_neq_iff rank_less)

lemma rank_surj: "p < rank bm n \<Longrightarrow> \<exists>i<n. bit bm i \<and> rank bm i = p"
proof (induction n)
  case (Suc n)
  then show ?case by (cases "p < rank bm n") (auto simp: rank_Suc less_Suc_eq split: if_splits)
qed simp

lemma pos_ex: "p < hamt_popcount bm \<Longrightarrow> \<exists>i. bit bm i \<and> rank bm i = p"
  using rank_surj [of p bm 32] by (auto simp: hamt_popcount_rank)

lemma hamt_popcount_below_rank: "i < 32 \<Longrightarrow> hamt_popcount_below bm i = rank bm i"
proof -
  assume i: "i < 32"
  have m: "bm AND (push_bit i 1 - 1) = take_bit i bm"
    by (simp add: take_bit_eq_mask mask_eq_exp_minus_1 push_bit_eq_mult)
  have "filter (bit (take_bit i bm)) [0..<32] = filter (bit bm) [0..<i]"
  proof -
    have s: "[0..<32] = [0..<i] @ [i..<32]" using i upt_add_eq_append [of 0 i "32 - i"] by simp
    have "filter (\<lambda>x. x < i \<and> bit bm x) [0..<i] = filter (bit bm) [0..<i]"
      by (rule filter_cong) auto
    then show ?thesis unfolding s filter_append
      by (simp add: bit_take_bit_iff cong: filter_cong)
  qed
  then show ?thesis
    unfolding hamt_popcount_below_def m hamt_popcount_filter rank_def by simp
qed

lemma and_hamt_bit: "i < 32 \<Longrightarrow> (bm AND hamt_bit i \<noteq> 0) = bit bm i"
  by (simp add: hamt_bit_def bit_iff_and_push_bit_not_eq_0)

lemma bit_hamt_bit: "i < 32 \<Longrightarrow> bit (hamt_bit i) j = (i = j)"
  by (auto simp: hamt_bit_def bit_simps)

lemma bit_or_hamt_bit: "i < 32 \<Longrightarrow> bit (bm OR hamt_bit i) j = (bit bm j \<or> i = j)"
  by (simp add: bit_or_iff bit_hamt_bit)

lemma sub_hamt_bit: "bit bm i \<Longrightarrow> bm - hamt_bit i = unset_bit i bm"
proof -
  assume b: "bit bm i"
  have "bm = unset_bit i bm OR hamt_bit i"
    using b by (intro bit_word_eqI) (auto simp: hamt_bit_def bit_simps)
  also have "\<dots> = unset_bit i bm + hamt_bit i"
    by (subst disjunctive_add) (auto simp: hamt_bit_def bit_simps)
  finally show ?thesis by (simp add: algebra_simps)
qed

lemma bit_sub_hamt_bit: "bit bm i \<Longrightarrow> bit (bm - hamt_bit i) j = (bit bm j \<and> i \<noteq> j)"
  by (auto simp: sub_hamt_bit bit_unset_bit_iff)

lemma rank_or: "i < 32 \<Longrightarrow> \<not> bit bm i \<Longrightarrow> rank (bm OR hamt_bit i) j = rank bm j + (if i < j then 1 else 0)"
  by (induction j) (auto simp: rank_Suc bit_or_hamt_bit less_Suc_eq)

lemma rank_sub: "bit bm i \<Longrightarrow> rank (bm - hamt_bit i) j + (if i < j then 1 else 0) = rank bm j"
  by (induction j) (auto simp: rank_Suc bit_sub_hamt_bit less_Suc_eq split: if_splits)

lemma popcount_or: "i < 32 \<Longrightarrow> \<not> bit bm i \<Longrightarrow> hamt_popcount (bm OR hamt_bit i) = Suc (hamt_popcount bm)"
  by (simp add: hamt_popcount_rank rank_or)

lemma popcount_sub: "bit bm i \<Longrightarrow> hamt_popcount (bm - hamt_bit i) = hamt_popcount bm - 1"
  using rank_sub [of bm i 32] by (simp add: hamt_popcount_rank bit_less_32)

lemma popcount_hamt_bit: "i < 32 \<Longrightarrow> hamt_popcount (hamt_bit i) = 1"
  using popcount_or [of i 0] by (simp add: hamt_popcount_def)

text \<open>
  Reading the array of a node through its bitmap, after an insertion, a removal and an
  update at the position of bit \<open>i\<close>.
\<close>

lemma nth_rank_insert:
  assumes "i < 32" "\<not> bit bm i" "length xs = hamt_popcount bm" "bit (bm OR hamt_bit i) j"
  shows "insert_at (rank bm i) x xs ! rank (bm OR hamt_bit i) j = (if j = i then x else xs ! rank bm j)"
proof -
  have r: "rank bm i \<le> length xs" using assms rank_le_pop [of i bm] by simp
  have j: "j \<noteq> i \<Longrightarrow> bit bm j" using assms by (simp add: bit_or_hamt_bit)
  consider "j = i" | "j < i" | "i < j" by linarith
  then show ?thesis
  proof cases
    case 1
    then show ?thesis using r assms by (simp add: rank_or nth_insert_at)
  next
    case 2
    then have "rank bm j < rank bm i" using j by (simp add: rank_less)
    then show ?thesis using 2 r assms by (simp add: rank_or nth_insert_at)
  next
    case 3
    then have "rank bm i \<le> rank bm j" "rank bm j < length xs"
      using j assms rank_less_pop [of bm j] by (simp_all add: rank_mono)
    then show ?thesis using 3 r assms by (simp add: rank_or nth_insert_at)
  qed
qed

lemma nth_rank_remove:
  assumes "bit bm i" "length xs = hamt_popcount bm" "bit (bm - hamt_bit i) j"
  shows "remove_at (rank bm i) xs ! rank (bm - hamt_bit i) j = xs ! rank bm j"
proof -
  have r: "rank bm i < length xs" using assms rank_less_pop [of bm i] by simp
  have j: "bit bm j" "i \<noteq> j" using assms by (simp_all add: bit_sub_hamt_bit)
  have rj: "rank bm j < length xs" using j assms rank_less_pop [of bm j] by simp
  consider "j < i" | "i < j" using j by linarith
  then show ?thesis
  proof cases
    case 1
    then have "rank bm j < rank bm i" using j by (simp add: rank_less)
    then show ?thesis using 1 r assms rank_sub [of bm i j] by (simp add: nth_remove_at)
  next
    case 2
    then have "rank bm i < rank bm j" using assms by (simp add: rank_less)
    then show ?thesis using 2 r rj assms rank_sub [of bm i j]
      by (auto simp: nth_remove_at Suc_diff_Suc dest: sym)
  qed
qed

lemma nth_rank_update:
  assumes "bit bm i" "bit bm j" "length xs = hamt_popcount bm"
  shows "xs[rank bm i := x] ! rank bm j = (if j = i then x else xs ! rank bm j)"
  using assms rank_less_pop [of bm i] rank_inj [of bm i j] by (auto simp: nth_list_update)

section \<open>Slot indices and code prefixes\<close>

lemma hamt_index_eq: "shift < 64 \<Longrightarrow> hamt_index c shift = Some (unat (take_bit 5 (drop_bit shift c)))"
proof -
  have "w AND 31 = take_bit 5 w" for w :: code by (simp add: take_bit_eq_mask mask_eq_exp_minus_1)
  then show "shift < 64 \<Longrightarrow> ?thesis" by (simp add: hamt_index_def mzHAMT_LOG_WORD_SIZE_def push_bit_eq_mult)
qed

lemma hamt_index_Some_iff:
  "hamt_index c shift = Some i \<longleftrightarrow> shift < 64 \<and> i = unat (take_bit 5 (drop_bit shift c))"
proof (cases "shift < 64")
  case True
  then show ?thesis by (auto simp: hamt_index_eq)
next
  case False
  then show ?thesis by (simp add: hamt_index_def)
qed

lemma hamt_index_less: "hamt_index c shift = Some i \<Longrightarrow> i < 32"
  using take_bit_nat_less_exp [of 5 "unat (drop_bit shift c)"]
  by (auto simp: hamt_index_Some_iff unsigned_take_bit_eq)

text \<open>
  \<open>child_prefix p s i\<close>: the low bits shared by all codes below slot \<open>i\<close> of a node at level
  \<open>s\<close> whose codes all have the low bits \<open>p\<close>.
\<close>

definition child_prefix :: "code \<Rightarrow> nat \<Rightarrow> nat \<Rightarrow> code" where
  "child_prefix p s i = p OR push_bit s (word_of_nat i)"

lemma take_bit_split: "take_bit (s + 5) c = take_bit s c OR push_bit s (take_bit 5 (drop_bit s c))"
  for c :: code
  by (rule bit_word_eqI) (auto simp: bit_simps)

lemma child_prefix_step:
  "take_bit s c = p \<Longrightarrow> hamt_index c s = Some i \<Longrightarrow> take_bit (s + 5) c = child_prefix p s i"
  by (auto simp: take_bit_split child_prefix_def hamt_index_Some_iff)

lemma child_prefix_back:
  assumes s: "s + 5 \<le> 64" and p: "take_bit s p = p" and i: "i < 32"
    and c: "take_bit (s + 5) c = child_prefix p s i"
  shows "take_bit s c = p" "hamt_index c s = Some i"
proof -
  have "take_bit s (take_bit (s + 5) c) = take_bit s p"
    unfolding c child_prefix_def by (rule bit_word_eqI) (auto simp: bit_simps)
  then show "take_bit s c = p" using p by (simp add: take_bit_take_bit min_def)
  have i5: "take_bit 5 (word_of_nat i :: code) = word_of_nat i"
    using i by (simp only: take_bit_of_nat) (simp add: take_bit_eq_mod)
  have "take_bit 5 (drop_bit s c) = drop_bit s (take_bit (s + 5) c)"
    by (simp add: drop_bit_take_bit)
  also have "\<dots> = word_of_nat i"
  proof -
    have "drop_bit s p = 0" using p by (metis drop_bit_take_bit diff_self_eq_0 take_bit_0)
    moreover have "drop_bit s (push_bit s (word_of_nat i :: code)) = word_of_nat i"
    proof (rule bit_word_eqI)
      fix n
      have "bit (word_of_nat i :: code) n \<Longrightarrow> n < 5"
        by (subst (asm) i5 [symmetric]) (simp add: bit_take_bit_iff)
      then show "bit (drop_bit s (push_bit s (word_of_nat i :: code))) n = bit (word_of_nat i :: code) n"
        using s by (auto simp: bit_drop_bit_eq bit_push_bit_iff)
    qed
    ultimately show ?thesis unfolding c child_prefix_def drop_bit_or by simp
  qed
  finally show "hamt_index c s = Some i"
    using s i by (simp add: hamt_index_Some_iff unat_of_nat)
qed

lemma prefix_full: "64 \<le> s \<Longrightarrow> take_bit s c = c" for c :: code
  by (rule bit_word_eqI) (auto simp: bit_simps)

end
