(* ===== verification/Hamt.thy ===== *)
theory Hamt
  imports HamtBits
begin

text \<open>
  The hash-array-mapped trie of \<open>hash.c\<close>, on which the immutable hash tables are built:
  nodes, lookup by hash code, functional update and removal, positional access, and the
  choice of an unused code inside a collision node.

  A node is a \<open>Scheme_Hash_Tree\<close>. Its \<open>els\<close> array holds \<open>popcount\<close> keys, then (with
  \<open>HASHTR_HAS_VAL\<close>) \<open>popcount\<close> values, then (with \<open>HASHTR_HAS_CODE\<close>) \<open>popcount\<close> hash
  codes; the model keeps the three sections as three lists, so that \<open>els[popcount + i]\<close>
  is position \<open>i\<close> of \<open>vals\<close> and \<open>els[2 * popcount + i]\<close> position \<open>i\<close> of \<open>codes\<close>. A result
  \<open>None\<close> of a function means that the C function would read or write outside an array,
  shift by the word size or more, or take the pointer hash of an internal node. Pointer
  hashes (\<open>PTR_TO_LONG\<close>) enter as the parameter \<open>h\<close>.
\<close>

section \<open>Nodes\<close>

datatype htype =
    no_type
  | scheme_hash_tree_type
  | scheme_eq_hash_tree_type
  | scheme_eqv_hash_tree_type
  | scheme_hash_tree_subtree_type
  | scheme_hash_tree_collision_type
  | scheme_hash_tree_indirection_type

datatype hnode =
    HNode (ht_type: htype) (ht_flags: "16 word") (ht_bitmap: bitmap) (ht_count: int)
      (ht_els: "hslot list") (ht_vals: "obj option list") (ht_codes: "code list")
  and hslot = NullS | KeyS obj | NodeS hnode

definition HASHTR_HAS_VAL :: "16 word" where
  "HASHTR_HAS_VAL = 0x1"

definition HASHTR_HAS_CODE :: "16 word" where
  "HASHTR_HAS_CODE = 0x2"

definition SCHEME_HASHTR_KIND :: "hnode \<Rightarrow> 16 word" where
  "SCHEME_HASHTR_KIND ht = ht_flags ht AND 0x3"

definition has_val :: "hnode \<Rightarrow> bool" where
  "has_val ht \<longleftrightarrow> ht_flags ht AND HASHTR_HAS_VAL \<noteq> 0"

definition has_code :: "hnode \<Rightarrow> bool" where
  "has_code ht \<longleftrightarrow> ht_flags ht AND HASHTR_HAS_CODE \<noteq> 0"

definition HASHTR_KIND_MULT :: "16 word \<Rightarrow> nat" where
  "HASHTR_KIND_MULT kind = (if kind = 0 then 1 else if kind = 1 then 2 else 3)"

text \<open>\<open>NULL\<close> values are \<open>None\<close>; all values are \<open>#t\<close> in a node without \<open>HASHTR_HAS_VAL\<close>.\<close>

definition NOT_IMPLICIT_VALUE :: "obj option \<Rightarrow> bool" where
  "NOT_IMPLICIT_VALUE v \<longleftrightarrow> v \<noteq> None \<and> v \<noteq> Some scheme_true"

fun HASHTR_SUBTREEP :: "hslot \<Rightarrow> bool" where
  "HASHTR_SUBTREEP (NodeS n) = (ht_type n = scheme_hash_tree_subtree_type)"
| "HASHTR_SUBTREEP _ = False"

fun HASHTR_COLLISIONP :: "hslot \<Rightarrow> bool" where
  "HASHTR_COLLISIONP (NodeS n) = (ht_type n = scheme_hash_tree_collision_type)"
| "HASHTR_COLLISIONP _ = False"

text \<open>The cast of a slot to \<open>Scheme_Hash_Tree *\<close>.\<close>

fun as_node :: "hslot \<Rightarrow> hnode option" where
  "as_node (NodeS n) = Some n"
| "as_node _ = None"

definition resolve_placeholder :: "hnode \<Rightarrow> hnode option" where
  "resolve_placeholder ht =
     (if ht_type ht = scheme_hash_tree_indirection_type
      then do { s \<leftarrow> rd (ht_els ht) 0; as_node s }
      else Some ht)"

section \<open>Field access\<close>

definition mzHAMT_VAL :: "hnode \<Rightarrow> nat \<Rightarrow> obj option option" where
  "mzHAMT_VAL ht pos = (if has_val ht then rd (ht_vals ht) pos else Some (Some scheme_true))"

function mzHAMT_KEY_CODE :: "(obj \<Rightarrow> code) \<Rightarrow> hslot \<Rightarrow> code option" where
  "mzHAMT_KEY_CODE h NullS = None"
| "mzHAMT_KEY_CODE h (KeyS k) = Some (HAMT_REORDER (h k))"
| "mzHAMT_KEY_CODE h (NodeS n) =
     (if HASHTR_COLLISIONP (NodeS n)
      then do { s \<leftarrow> rd (ht_els n) 0; mzHAMT_KEY_CODE h s }
      else None)"
  by pat_completeness auto
termination
proof (relation "measure (\<lambda>(h, s). size s)")
  fix h :: "obj \<Rightarrow> code" and n s
  assume "rd (ht_els n) 0 = Some s"
  then have "s \<in> set (ht_els n)" by (auto simp: rd_eq_Some_iff)
  then have "size s \<le> size_list size (ht_els n)" by (simp add: size_list_estimation')
  then show "((h, s), h, NodeS n) \<in> measure (\<lambda>(h, s). size s)" by (cases n) simp
qed simp

definition mzHAMT_CODE :: "(obj \<Rightarrow> code) \<Rightarrow> hnode \<Rightarrow> nat \<Rightarrow> code option" where
  "mzHAMT_CODE h ht pos =
     (if has_code ht then rd (ht_codes ht) pos
      else do { s \<leftarrow> rd (ht_els ht) pos; mzHAMT_KEY_CODE h s })"

section \<open>Allocation and copying\<close>

definition hamt_alloc :: "16 word \<Rightarrow> nat \<Rightarrow> hnode" where
  "hamt_alloc kind popcount =
     HNode no_type 0 0 0 (replicate popcount NullS)
       (if 2 \<le> HASHTR_KIND_MULT kind then replicate popcount None else [])
       (if 3 \<le> HASHTR_KIND_MULT kind then replicate popcount 0 else [])"

text \<open>Copying a header: \<open>memcpy (dest, src, HASH_TREE_RECORD_SIZE (kind, 0))\<close>.\<close>

fun copy_header :: "hnode \<Rightarrow> hnode \<Rightarrow> hnode" where
  "copy_header (HNode _ _ _ _ ks vs cs) (HNode ty fl bm c _ _ _) = HNode ty fl bm c ks vs cs"

text \<open>Assignments to single fields.\<close>

fun set_type :: "htype \<Rightarrow> hnode \<Rightarrow> hnode" where
  "set_type ty (HNode _ fl bm c ks vs cs) = HNode ty fl bm c ks vs cs"

fun set_flags :: "16 word \<Rightarrow> hnode \<Rightarrow> hnode" where
  "set_flags fl (HNode ty _ bm c ks vs cs) = HNode ty fl bm c ks vs cs"

fun set_bitmap :: "bitmap \<Rightarrow> hnode \<Rightarrow> hnode" where
  "set_bitmap bm (HNode ty fl _ c ks vs cs) = HNode ty fl bm c ks vs cs"

fun set_count :: "int \<Rightarrow> hnode \<Rightarrow> hnode" where
  "set_count c (HNode ty fl bm _ ks vs cs) = HNode ty fl bm c ks vs cs"

fun set_els :: "hslot list \<Rightarrow> hnode \<Rightarrow> hnode" where
  "set_els ks (HNode ty fl bm c _ vs cs) = HNode ty fl bm c ks vs cs"

fun set_vals :: "obj option list \<Rightarrow> hnode \<Rightarrow> hnode" where
  "set_vals vs (HNode ty fl bm c ks _ cs) = HNode ty fl bm c ks vs cs"

fun set_codes :: "code list \<Rightarrow> hnode \<Rightarrow> hnode" where
  "set_codes cs (HNode ty fl bm c ks vs _) = HNode ty fl bm c ks vs cs"

definition hamt_set_slot :: "hnode \<Rightarrow> nat \<Rightarrow> hslot \<Rightarrow> hnode option" where
  "hamt_set_slot ht pos s = do { ks \<leftarrow> wr (ht_els ht) pos s; Some (set_els ks ht) }"

definition mzHAMT_SET_VAL :: "hnode \<Rightarrow> nat \<Rightarrow> obj option \<Rightarrow> hnode option" where
  "mzHAMT_SET_VAL ht pos v = do { vs \<leftarrow> wr (ht_vals ht) pos v; Some (set_vals vs ht) }"

definition mzHAMT_SET_CODE :: "hnode \<Rightarrow> nat \<Rightarrow> code \<Rightarrow> hnode option" where
  "mzHAMT_SET_CODE ht pos c = do { cs \<leftarrow> wr (ht_codes ht) pos c; Some (set_codes cs ht) }"

definition hamt_content_copy :: "hnode \<Rightarrow> hnode \<Rightarrow> nat \<Rightarrow> nat \<Rightarrow> nat \<Rightarrow> hnode option" where
  "hamt_content_copy dest src dest_start src_start len = do {
     ks \<leftarrow> blit (ht_els dest) dest_start (ht_els src) src_start len;
     let dest = set_els ks dest;
     if has_val src then do {
       vs \<leftarrow> blit (ht_vals dest) dest_start (ht_vals src) src_start len;
       let dest = set_vals vs dest;
       if has_code src then do {
         cs \<leftarrow> blit (ht_codes dest) dest_start (ht_codes src) src_start len;
         Some (set_codes cs dest)
       } else Some dest
     } else if has_val dest then do {
       vs \<leftarrow> blit (ht_vals dest) dest_start (replicate len (Some scheme_true)) 0 len;
       Some (set_vals vs dest)
     } else Some dest }"

fun hamt_dup :: "hnode \<Rightarrow> nat \<Rightarrow> bool \<Rightarrow> hnode" where
  "hamt_dup (HNode ty fl bm c ks vs cs) popcount need_value =
     (if (fl AND 0x3) AND HASHTR_HAS_VAL = 0 \<and> need_value
      then HNode ty (fl OR HASHTR_HAS_VAL) bm c ks (replicate popcount (Some scheme_true)) cs
      else HNode ty fl bm c ks vs cs)"

section \<open>Lookup\<close>

text \<open>The outer option is memory safety, the inner one the \<open>NULL\<close> result.\<close>

function hamt_assoc :: "(obj \<Rightarrow> code) \<Rightarrow> hnode \<Rightarrow> code \<Rightarrow> nat \<Rightarrow> (hnode \<times> nat) option option" where
  "hamt_assoc h ht c shift = do {
     index \<leftarrow> hamt_index c shift;
     if ht_bitmap ht AND hamt_bit index \<noteq> 0 then do {
       let pos = hamt_popcount_below (ht_bitmap ht) index;
       s \<leftarrow> rd (ht_els ht) pos;
       if HASHTR_SUBTREEP s then do {
         sub \<leftarrow> as_node s;
         hamt_assoc h sub c (shift + mzHAMT_LOG_WORD_SIZE)
       } else do {
         cd \<leftarrow> mzHAMT_CODE h ht pos;
         if c = cd then Some (Some (ht, pos)) else Some None
       }
     } else Some None }"
  by pat_completeness auto
termination
  by (relation "measure (\<lambda>(h, ht, c, shift). 64 - shift)")
     (auto simp: hamt_index_def mzHAMT_LOG_WORD_SIZE_def split: if_splits)

declare hamt_assoc.simps [simp del]

section \<open>Building small nodes\<close>

definition hamt_make1 :: "hnode \<Rightarrow> nat \<Rightarrow> hnode option" where
  "hamt_make1 ht index = do {
     let kind = SCHEME_HASHTR_KIND ht;
     let new_ht = hamt_alloc kind 1;
     let new_ht = set_type scheme_hash_tree_subtree_type new_ht;
     let new_ht = set_flags kind new_ht;
     let new_ht = set_bitmap (hamt_bit index) new_ht;
     let new_ht = set_count (ht_count ht) new_ht;
     hamt_set_slot new_ht 0 (NodeS ht) }"

definition collision_extra :: "hslot \<Rightarrow> int" where
  "collision_extra s =
     (case s of NodeS n \<Rightarrow> if HASHTR_COLLISIONP s then ht_count n - 1 else 0 | _ \<Rightarrow> 0)"

function hamt_make2 :: "16 word \<Rightarrow> nat \<Rightarrow> code \<Rightarrow> hslot \<Rightarrow> obj option
    \<Rightarrow> code \<Rightarrow> hslot \<Rightarrow> obj option \<Rightarrow> hnode option" where
  "hamt_make2 kind shift code1 key1 val1 code2 key2 val2 = do {
     index1 \<leftarrow> hamt_index code1 shift;
     index2 \<leftarrow> hamt_index code2 shift;
     if index1 = index2 then do {
       new_ht \<leftarrow> hamt_make2 kind (shift + mzHAMT_LOG_WORD_SIZE) code1 key1 val1 code2 key2 val2;
       hamt_make1 new_ht index1
     } else do {
       let kind = kind OR (if NOT_IMPLICIT_VALUE val1 \<or> NOT_IMPLICIT_VALUE val2 then HASHTR_HAS_VAL else 0);
       let new_ht = hamt_alloc kind 2;
       let new_ht = set_type scheme_hash_tree_subtree_type new_ht;
       let new_ht = set_flags kind new_ht;
       let new_ht = set_bitmap (hamt_bit index1 OR hamt_bit index2) new_ht;
       let new_ht = set_count (2 + collision_extra key1 + collision_extra key2) new_ht;
       let (pos1, pos2) = (if index1 < index2 then (0, 1) else (1, 0));
       new_ht \<leftarrow> hamt_set_slot new_ht pos1 key1;
       new_ht \<leftarrow> hamt_set_slot new_ht pos2 key2;
       if has_val new_ht then do {
         new_ht \<leftarrow> mzHAMT_SET_VAL new_ht pos1 val1;
         new_ht \<leftarrow> mzHAMT_SET_VAL new_ht pos2 val2;
         if has_code new_ht then do {
           new_ht \<leftarrow> mzHAMT_SET_CODE new_ht pos1 code1;
           mzHAMT_SET_CODE new_ht pos2 code2
         } else Some new_ht
       } else Some new_ht
     } }"
  by pat_completeness auto
termination
  by (relation "measure (\<lambda>(kind, shift, _). 64 - shift)")
     (auto simp: hamt_index_def mzHAMT_LOG_WORD_SIZE_def split: if_splits)

declare hamt_make2.simps [simp del]

section \<open>Update\<close>

function hamt_set :: "(obj \<Rightarrow> code) \<Rightarrow> hnode \<Rightarrow> code \<Rightarrow> nat \<Rightarrow> hslot \<Rightarrow> obj option \<Rightarrow> int
    \<Rightarrow> hnode option" where
  "hamt_set h ht c shift key val inc = do {
     index \<leftarrow> hamt_index c shift;
     let pos = hamt_popcount_below (ht_bitmap ht) index;
     let popcount = hamt_popcount (ht_bitmap ht);
     if ht_bitmap ht AND hamt_bit index \<noteq> 0 then do {
       let new_ht = hamt_dup ht popcount (NOT_IMPLICIT_VALUE val);
       s \<leftarrow> rd (ht_els ht) pos;
       if HASHTR_SUBTREEP s then do {
         sub \<leftarrow> as_node s;
         sub \<leftarrow> hamt_set h sub c (shift + mzHAMT_LOG_WORD_SIZE) key val inc;
         new_ht \<leftarrow> hamt_set_slot new_ht pos (NodeS sub);
         Some (set_count (ht_count new_ht + inc) new_ht)
       } else do {
         cd \<leftarrow> mzHAMT_CODE h new_ht pos;
         if c = cd then do {
           new_ht \<leftarrow> hamt_set_slot new_ht pos key;
           new_ht \<leftarrow> (if has_val new_ht then mzHAMT_SET_VAL new_ht pos val else Some new_ht);
           Some (set_count (ht_count new_ht + inc) new_ht)
         } else do {
           v \<leftarrow> mzHAMT_VAL new_ht pos;
           sub \<leftarrow> hamt_make2 (SCHEME_HASHTR_KIND new_ht) (shift + mzHAMT_LOG_WORD_SIZE) cd s v c key val;
           new_ht \<leftarrow> hamt_set_slot new_ht pos (NodeS sub);
           new_ht \<leftarrow> (if has_val new_ht then mzHAMT_SET_VAL new_ht pos None else Some new_ht);
           Some (set_count (ht_count new_ht + inc) new_ht)
         }
       }
     } else do {
       let kind = SCHEME_HASHTR_KIND ht OR (if NOT_IMPLICIT_VALUE val then HASHTR_HAS_VAL else 0);
       let new_ht = copy_header (hamt_alloc kind (popcount + 1)) ht;
       let new_ht = set_flags (ht_flags new_ht OR kind) new_ht;
       new_ht \<leftarrow> hamt_content_copy new_ht ht 0 0 pos;
       new_ht \<leftarrow> (if pos < popcount then hamt_content_copy new_ht ht (pos + 1) pos (popcount - pos)
                   else Some new_ht);
       let new_ht = set_bitmap (ht_bitmap new_ht OR hamt_bit index) new_ht;
       let new_ht = set_count (ht_count new_ht + inc) new_ht;
       new_ht \<leftarrow> hamt_set_slot new_ht pos key;
       if has_val new_ht then do {
         new_ht \<leftarrow> mzHAMT_SET_VAL new_ht pos val;
         if has_code new_ht then mzHAMT_SET_CODE new_ht pos c else Some new_ht
       } else Some new_ht
     } }"
  by pat_completeness auto
termination
  by (relation "measure (\<lambda>(h, ht, c, shift, _). 64 - shift)")
     (auto simp: hamt_index_def mzHAMT_LOG_WORD_SIZE_def split: if_splits)

declare hamt_set.simps [simp del]

section \<open>Removal\<close>

definition hamt_contract :: "hnode \<Rightarrow> nat \<Rightarrow> nat \<Rightarrow> nat \<Rightarrow> hnode option option" where
  "hamt_contract ht popcount index pos =
     (if popcount = 1 then Some None
      else do {
        let new_ht = copy_header (hamt_alloc (SCHEME_HASHTR_KIND ht) (popcount - 1)) ht;
        new_ht \<leftarrow> hamt_content_copy new_ht ht 0 0 pos;
        new_ht \<leftarrow> (if pos < popcount - 1 then hamt_content_copy new_ht ht pos (pos + 1) (popcount - pos - 1)
                    else Some new_ht);
        let new_ht = set_bitmap (ht_bitmap new_ht - hamt_bit index) new_ht;
        Some (Some (set_count (ht_count new_ht - 1) new_ht)) })"

text \<open>A node that holds one entry directly, or nothing but one collision node.\<close>

definition one_immediate_entry :: "hnode \<Rightarrow> hslot \<Rightarrow> bool" where
  "one_immediate_entry sub s0 \<longleftrightarrow>
     ht_count sub = 1 \<and> \<not> HASHTR_SUBTREEP s0
     \<or> (case s0 of NodeS n \<Rightarrow> HASHTR_COLLISIONP s0 \<and> ht_count sub = ht_count n | _ \<Rightarrow> False)"

text \<open>
  The pointer test \<open>SAME_OBJ (sub_ht, ht->els[pos])\<close> asks whether the recursive call
  returned its argument, which it does exactly when it removed nothing; a call that
  removes something returns a node with a smaller count, so equality of nodes decides it.
\<close>

function hamt_remove :: "(obj \<Rightarrow> code) \<Rightarrow> hnode \<Rightarrow> code \<Rightarrow> nat \<Rightarrow> hnode option option" where
  "hamt_remove h ht c shift = do {
     index \<leftarrow> hamt_index c shift;
     if ht_bitmap ht AND hamt_bit index \<noteq> 0 then do {
       let pos = hamt_popcount_below (ht_bitmap ht) index;
       let popcount = hamt_popcount (ht_bitmap ht);
       s \<leftarrow> rd (ht_els ht) pos;
       if \<not> HASHTR_SUBTREEP s then hamt_contract ht popcount index pos
       else do {
         sub \<leftarrow> as_node s;
         r \<leftarrow> hamt_remove h sub c (shift + mzHAMT_LOG_WORD_SIZE);
         (case r of
            None \<Rightarrow> hamt_contract ht popcount index pos
          | Some sub_ht \<Rightarrow>
              if NodeS sub_ht \<noteq> s then do {
                let ht = hamt_dup ht popcount False;
                let ht = set_count (ht_count ht - 1) ht;
                s0 \<leftarrow> rd (ht_els sub_ht) 0;
                if one_immediate_entry sub_ht s0 then do {
                  ht \<leftarrow> hamt_set_slot ht pos s0;
                  let ht = (if \<not> has_val ht \<and> has_val sub_ht then hamt_dup ht popcount True else ht);
                  ht \<leftarrow> (if has_val ht then do {
                      v \<leftarrow> mzHAMT_VAL sub_ht 0;
                      ht \<leftarrow> mzHAMT_SET_VAL ht pos v;
                      if has_code ht then do {
                        cd \<leftarrow> mzHAMT_CODE h sub_ht 0;
                        mzHAMT_SET_CODE ht pos cd
                      } else Some ht
                    } else Some ht);
                  Some (Some ht)
                } else do {
                  ht \<leftarrow> hamt_set_slot ht pos (NodeS sub_ht);
                  Some (Some ht)
                }
              } else Some (Some ht))
       }
     } else Some (Some ht) }"
  by pat_completeness auto
termination
  by (relation "measure (\<lambda>(h, ht, c, shift). 64 - shift)")
     (auto simp: hamt_index_def mzHAMT_LOG_WORD_SIZE_def split: if_splits)

declare hamt_remove.simps [simp del]

end
