(* ===== verification/HamtProps.thy ===== *)
theory HamtProps
  imports Hamt
begin

text \<open>
  Correctness of the trie at the level of hash codes: a well-formed node is a finite map
  from codes to entries, \<open>hamt_set\<close> is map update, \<open>hamt_remove\<close> is map deletion, and
  neither touches memory outside of the node arrays.
\<close>

section \<open>Flags\<close>

lemma has_val_bit: "has_val t = bit (ht_flags t) 0"
  by (simp add: has_val_def HASHTR_HAS_VAL_def bit_iff_and_push_bit_not_eq_0)

lemma has_code_bit: "has_code t = bit (ht_flags t) 1"
  by (simp add: has_code_def HASHTR_HAS_CODE_def bit_iff_and_push_bit_not_eq_0)

lemmas has_bits = has_val_bit has_code_bit

lemma bit_flag_consts [simp]:
  "bit HASHTR_HAS_VAL n \<longleftrightarrow> n = 0" "bit HASHTR_HAS_CODE n \<longleftrightarrow> n = 1"
  "bit (3 :: 16 word) n \<longleftrightarrow> n = 0 \<or> n = 1"
proof -
  show "bit HASHTR_HAS_VAL n \<longleftrightarrow> n = 0" by (simp add: HASHTR_HAS_VAL_def bit_1_iff)
  show "bit HASHTR_HAS_CODE n \<longleftrightarrow> n = 1" by (auto simp: HASHTR_HAS_CODE_def bit_2_iff)
  have "(3 :: 16 word) = mask 2" by (simp add: mask_eq_exp_minus_1)
  then have "bit (3 :: 16 word) n \<longleftrightarrow> n < 2" by (auto simp only: bit_mask_iff) (simp_all add: possible_bit_word)
  then show "bit (3 :: 16 word) n \<longleftrightarrow> n = 0 \<or> n = 1" by auto
qed

lemma bit_kind [simp]: "bit (SCHEME_HASHTR_KIND t) n \<longleftrightarrow> bit (ht_flags t) n \<and> (n = 0 \<or> n = 1)"
  unfolding SCHEME_HASHTR_KIND_def bit_and_iff bit_flag_consts ..

lemma KIND_MULT_cases:
  assumes "\<And>n. bit k n \<Longrightarrow> n = 0 \<or> n = 1" and "bit k 1 \<Longrightarrow> bit k 0"
  shows "2 \<le> HASHTR_KIND_MULT k \<longleftrightarrow> bit k 0" "3 \<le> HASHTR_KIND_MULT k \<longleftrightarrow> bit k 1"
proof -
  have "k = (if bit k 0 then 1 else 0) OR (if bit k 1 then push_bit 1 1 else 0)"
    using assms(1) by (intro bit_word_eqI) (auto simp: bit_simps split: if_splits)
  then have k: "k = (if bit k 1 then 3 else if bit k 0 then 1 else 0)" using assms(2) by (auto split: if_splits)
  show "2 \<le> HASHTR_KIND_MULT k \<longleftrightarrow> bit k 0"
    by (subst k) (use assms(2) in \<open>auto simp: HASHTR_KIND_MULT_def\<close>)
  show "3 \<le> HASHTR_KIND_MULT k \<longleftrightarrow> bit k 1"
    by (subst k) (use assms(2) in \<open>auto simp: HASHTR_KIND_MULT_def\<close>)
qed

section \<open>Shapes and slots\<close>

text \<open>The array sections of a node have the lengths its bitmap and its flags call for.\<close>

definition shape :: "hnode \<Rightarrow> bool" where
  "shape t \<longleftrightarrow> length (ht_els t) = hamt_popcount (ht_bitmap t)
     \<and> (has_val t \<longrightarrow> length (ht_vals t) = hamt_popcount (ht_bitmap t))
     \<and> (has_code t \<longrightarrow> has_val t \<and> length (ht_codes t) = hamt_popcount (ht_bitmap t))"

definition slot_of :: "hnode \<Rightarrow> nat \<Rightarrow> hslot" where
  "slot_of t i = ht_els t ! rank (ht_bitmap t) i"

definition val_of :: "hnode \<Rightarrow> nat \<Rightarrow> obj option" where
  "val_of t i = (if has_val t then ht_vals t ! rank (ht_bitmap t) i else Some scheme_true)"

definition code_of :: "(obj \<Rightarrow> code) \<Rightarrow> hnode \<Rightarrow> nat \<Rightarrow> code option" where
  "code_of h t i = (if has_code t then Some (ht_codes t ! rank (ht_bitmap t) i)
                    else mzHAMT_KEY_CODE h (slot_of t i))"

lemma shape_reads:
  assumes "shape t" "bit (ht_bitmap t) i"
  shows "rd (ht_els t) (rank (ht_bitmap t) i) = Some (slot_of t i)"
    and "mzHAMT_VAL t (rank (ht_bitmap t) i) = Some (val_of t i)"
    and "mzHAMT_CODE h t (rank (ht_bitmap t) i) = code_of h t i"
  using assms rank_less_pop [of "ht_bitmap t" i]
  by (auto simp: shape_def slot_of_def val_of_def code_of_def mzHAMT_VAL_def mzHAMT_CODE_def mem_simps)

section \<open>Making a hole, closing a hole\<close>

lemma hole_end:
  assumes "length dst = Suc (length src)"
  shows "(take (length src) src @ drop (length src) dst)[length src := x] = insert_at (length src) x src"
proof -
  have "drop (length src) dst = [dst ! length src]"
    using assms by (metis Cons_nth_drop_Suc Suc_n_not_le_n drop_all lessI order_refl)
  then show ?thesis by (simp add: insert_at_def)
qed

lemma hole_mid:
  assumes "length dst = Suc (length src)" "p < length src"
    and "d = take p src @ drop p dst"
  shows "(take (Suc p) d @ take (length src - p) (drop p src) @ drop (Suc p + (length src - p)) d)[p := x]
    = insert_at p x src"
  using assms by (intro nth_equalityI) (auto simp: insert_at_def nth_append nth_list_update nth_Cons' min_def)


lemma close_end:
  assumes "length src = Suc (length dst)"
  shows "take (length dst) src @ drop (length dst) dst = remove_at (length dst) src"
  using assms by (simp add: remove_at_def)

lemma close_mid:
  assumes "length src = Suc (length dst)" "p < length dst"
    and "d = take p src @ drop p dst"
  shows "take p d @ take (length dst - p) (drop (Suc p) src) @ drop (p + (length dst - p)) d
    = remove_at p src"
  using assms by (intro nth_equalityI) (auto simp: remove_at_def nth_append min_def)

text \<open>The node that the insertion branch of \<open>hamt_set\<close> builds.\<close>

definition val_kind :: "obj option \<Rightarrow> 16 word" where
  "val_kind v = (if NOT_IMPLICIT_VALUE v then HASHTR_HAS_VAL else 0)"

definition explicit_vals :: "hnode \<Rightarrow> obj option list" where
  "explicit_vals t = (if has_val t then ht_vals t
     else replicate (hamt_popcount (ht_bitmap t)) (Some scheme_true))"

definition insert_node :: "hnode \<Rightarrow> nat \<Rightarrow> hslot \<Rightarrow> obj option \<Rightarrow> code \<Rightarrow> int \<Rightarrow> hnode" where
  "insert_node t i key v c inc =
     (let p = rank (ht_bitmap t) i;
          fl = ht_flags t OR (SCHEME_HASHTR_KIND t OR val_kind v)
      in HNode (ht_type t) fl (ht_bitmap t OR hamt_bit i) (ht_count t + inc)
           (insert_at p key (ht_els t))
           (if bit fl 0 then insert_at p v (explicit_vals t) else [])
           (if bit fl 1 then insert_at p c (ht_codes t) else []))"

lemma bit_val_kind [simp]: "bit (val_kind v) n \<longleftrightarrow> n = 0 \<and> NOT_IMPLICIT_VALUE v"
  by (simp add: val_kind_def)

text \<open>Copying the content of a node around a hole at position \<open>p\<close> of a larger node.\<close>

definition copy_around :: "hnode \<Rightarrow> hnode \<Rightarrow> nat \<Rightarrow> nat \<Rightarrow> hnode option" where
  "copy_around dest t n p = do {
     d \<leftarrow> hamt_content_copy dest t 0 0 p;
     if p < n then hamt_content_copy d t (p + 1) p (n - p) else Some d }"

lemma copy_section:
  assumes "length src = n" "length dst = Suc n" "p \<le> n"
  obtains d r where "blit dst 0 src 0 p = Some d" "length d = Suc n"
     "(if p < n then blit d (p + 1) src p (n - p) else Some d) = Some r"
     "length r = Suc n" "\<And>x. r[p := x] = insert_at p x src"
proof -
  let ?d = "take p src @ drop p dst"
  have 1: "blit dst 0 src 0 p = Some ?d" using assms by (simp add: mem_simps)
  show ?thesis
  proof (cases "p < n")
    case True
    have "blit ?d (p + 1) src p (n - p) =
       Some (take (Suc p) ?d @ take (n - p) (drop p src) @ drop (Suc p + (n - p)) ?d)"
      using True assms by (simp add: mem_simps)
    then show ?thesis using 1 True assms hole_mid [of dst src p ?d] that by auto
  next
    case False
    then have "p = length src" using assms by simp
    then show ?thesis using 1 False assms hole_end [of dst src] that by auto
  qed
qed

lemma copy_around_hole:
  fixes dest t :: hnode and p :: nat
  defines "n \<equiv> hamt_popcount (ht_bitmap t)"
  assumes sh: "shape t" and p: "p \<le> n"
    and dest: "length (ht_els dest) = Suc n" "has_val dest \<Longrightarrow> length (ht_vals dest) = Suc n"
      "has_code dest \<Longrightarrow> length (ht_codes dest) = Suc n"
      "has_val t \<Longrightarrow> has_val dest" "has_code t = has_code dest"
  obtains K V C where
    "copy_around dest t n p = Some (set_els K (set_vals V (set_codes C dest)))"
    "length K = Suc n" "\<And>x. K[p := x] = insert_at p x (ht_els t)"
    "has_val dest \<Longrightarrow> length V = Suc n \<and> (\<forall>x. V[p := x] = insert_at p x (explicit_vals t))"
    "\<not> has_val dest \<Longrightarrow> V = ht_vals dest"
    "has_code dest \<Longrightarrow> length C = Suc n \<and> (\<forall>x. C[p := x] = insert_at p x (ht_codes t))"
    "\<not> has_code dest \<Longrightarrow> C = ht_codes dest"
proof -
  obtain ty fl bm c ks vs cs where d: "dest = HNode ty fl bm c ks vs cs" by (cases dest)
  note hb = has_bits
  have len: "length (ht_els t) = n" "has_val t \<Longrightarrow> length (ht_vals t) = n"
    "has_code t \<Longrightarrow> has_val t \<and> length (ht_codes t) = n"
    using sh by (auto simp: shape_def n_def)
  obtain K1 K2 where K: "blit ks 0 (ht_els t) 0 p = Some K1" "length K1 = Suc n"
     "(if p < n then blit K1 (p + 1) (ht_els t) p (n - p) else Some K1) = Some K2"
     "length K2 = Suc n" "\<And>x. K2[p := x] = insert_at p x (ht_els t)"
    using copy_section [OF len(1), of ks p] dest p d by auto
  consider (codes) "has_code t" | (vals) "\<not> has_code t" "has_val t" | (expl) "\<not> has_val t" "has_val dest" "\<not> has_code t"
    | (keys) "\<not> has_val t" "\<not> has_val dest" "\<not> has_code t"
    using len(3) by blast
  then show ?thesis
  proof cases
    case codes
    have tv: "has_val t" using len(3) codes by simp
    obtain V1 V2 where V: "blit vs 0 (ht_vals t) 0 p = Some V1" "length V1 = Suc n"
       "(if p < n then blit V1 (p + 1) (ht_vals t) p (n - p) else Some V1) = Some V2"
       "length V2 = Suc n" "\<And>x. V2[p := x] = insert_at p x (ht_vals t)"
      using copy_section [OF len(2), of vs p] dest p d tv by auto
    obtain C1 C2 where C: "blit cs 0 (ht_codes t) 0 p = Some C1" "length C1 = Suc n"
       "(if p < n then blit C1 (p + 1) (ht_codes t) p (n - p) else Some C1) = Some C2"
       "length C2 = Suc n" "\<And>x. C2[p := x] = insert_at p x (ht_codes t)"
      using copy_section [of "ht_codes t" n cs p] len(3) dest p d codes by auto
    show ?thesis
      by (rule that [of K2 V2 C2]) (use codes tv K V C dest d in
        \<open>auto simp: copy_around_def hamt_content_copy_def explicit_vals_def hb split: if_splits\<close>)
  next
    case vals
    obtain V1 V2 where V: "blit vs 0 (ht_vals t) 0 p = Some V1" "length V1 = Suc n"
       "(if p < n then blit V1 (p + 1) (ht_vals t) p (n - p) else Some V1) = Some V2"
       "length V2 = Suc n" "\<And>x. V2[p := x] = insert_at p x (ht_vals t)"
      using copy_section [OF len(2), of vs p] dest p d vals by auto
    show ?thesis
      by (rule that [of K2 V2 cs]) (use vals K V dest d in
        \<open>auto simp: copy_around_def hamt_content_copy_def explicit_vals_def hb split: if_splits\<close>)
  next
    case expl
    let ?tr = "replicate n (Some scheme_true)"
    obtain V1 V2 where V: "blit vs 0 ?tr 0 p = Some V1" "length V1 = Suc n"
       "(if p < n then blit V1 (p + 1) ?tr p (n - p) else Some V1) = Some V2"
       "length V2 = Suc n" "\<And>x. V2[p := x] = insert_at p x ?tr"
      using copy_section [of ?tr n vs p] dest p d expl by auto
    have "blit vs 0 (replicate p (Some scheme_true)) 0 p = Some V1"
      using V(1) p by (auto simp: blit_def split: if_splits)
    moreover have "(if p < n then blit V1 (p + 1) (replicate (n - p) (Some scheme_true)) 0 (n - p) else Some V1) = Some V2"
      using V(3) p by (auto simp: blit_def split: if_splits)
    ultimately show ?thesis
      by (intro that [of K2 V2 cs]) (use expl K V dest d in
        \<open>auto simp: copy_around_def hamt_content_copy_def explicit_vals_def n_def hb split: if_splits\<close>)
  next
    case keys
    show ?thesis
      by (rule that [of K2 vs cs]) (use keys K dest d in
        \<open>auto simp: copy_around_def hamt_content_copy_def explicit_vals_def hb split: if_splits\<close>)
  qed
qed


lemma hamt_set_insert:
  assumes sh: "shape t" and ix: "hamt_index c s = Some i" and nb: "\<not> bit (ht_bitmap t) i"
  shows "hamt_set h t c s key v inc = Some (insert_node t i key v c inc)"
proof -
  obtain ty fl bm n ks vs cs where t: "t = HNode ty fl bm n ks vs cs" by (cases t)
  have i: "i < 32" using ix by (rule hamt_index_less)
  let ?n = "hamt_popcount bm" let ?p = "rank bm i" let ?k = "(fl AND 3) OR val_kind v"
  define f where "f = fl OR ?k"
  define d0 where "d0 = set_flags f (copy_header (hamt_alloc ?k (?n + 1)) t)"
  have p: "?p \<le> ?n" using i by (simp add: rank_le_pop)
  have kb: "bit (fl AND 3) m \<longleftrightarrow> bit fl m \<and> (m = 0 \<or> m = 1)" for m
    unfolding bit_and_iff bit_flag_consts ..
  have fb: "bit f 0 \<longleftrightarrow> bit fl 0 \<or> NOT_IMPLICIT_VALUE v" "bit f 1 \<longleftrightarrow> bit fl 1"
    by (auto simp: f_def bit_or_iff kb)
  have k: "2 \<le> HASHTR_KIND_MULT ?k \<longleftrightarrow> bit f 0" "3 \<le> HASHTR_KIND_MULT ?k \<longleftrightarrow> bit f 1"
    using KIND_MULT_cases [of ?k] sh by (auto simp: t shape_def has_bits bit_or_iff kb fb simp del: One_nat_def)
  have d0: "d0 = HNode ty f bm n (replicate (Suc ?n) NullS)
      (if bit f 0 then replicate (Suc ?n) None else []) (if bit f 1 then replicate (Suc ?n) 0 else [])"
    by (simp add: t hamt_alloc_def k d0_def)
  have c10: "bit f 1 \<Longrightarrow> bit f 0" using sh by (auto simp: t shape_def has_bits fb simp del: One_nat_def)
  have hc: "has_val d0 = bit f 0" "has_code d0 = bit f 1" "has_val t = bit fl 0" "has_code t = bit fl 1"
    "ht_bitmap t = bm" "ht_els t = ks" "ht_codes t = cs"
    "\<not> bit f 0 \<Longrightarrow> ht_vals d0 = []" "\<not> bit f 1 \<Longrightarrow> ht_codes d0 = []"
    by (simp_all add: d0 has_bits t)
  have l: "length (ht_els d0) = Suc ?n" "bit f 0 \<Longrightarrow> length (ht_vals d0) = Suc ?n"
      "bit f 1 \<Longrightarrow> length (ht_codes d0) = Suc ?n" "bit fl 0 \<Longrightarrow> bit f 0" "bit fl 1 = bit f 1"
    by (simp_all add: d0 fb del: One_nat_def)
  obtain K V C where cp: "copy_around d0 t ?n ?p = Some (set_els K (set_vals V (set_codes C d0)))"
    and K: "length K = Suc ?n" "\<And>x. K[?p := x] = insert_at ?p x ks"
    and V: "bit f 0 \<Longrightarrow> length V = Suc ?n \<and> (\<forall>x. V[?p := x] = insert_at ?p x (explicit_vals t))"
      "\<not> bit f 0 \<Longrightarrow> V = []"
    and C: "bit f 1 \<Longrightarrow> length C = Suc ?n \<and> (\<forall>x. C[?p := x] = insert_at ?p x cs)"
      "\<not> bit f 1 \<Longrightarrow> C = []"
    using copy_around_hole [OF sh, of ?p d0, unfolded hc, OF p l] hc(8,9) by metis
  have "hamt_set h t c s key v inc = do {
       new_ht \<leftarrow> copy_around d0 t ?n ?p;
       let new_ht = set_bitmap (ht_bitmap new_ht OR hamt_bit i) new_ht;
       let new_ht = set_count (ht_count new_ht + inc) new_ht;
       new_ht \<leftarrow> hamt_set_slot new_ht ?p key;
       if has_val new_ht then do {
         new_ht \<leftarrow> mzHAMT_SET_VAL new_ht ?p v;
         if has_code new_ht then mzHAMT_SET_CODE new_ht ?p c else Some new_ht
       } else Some new_ht }"
  proof -
    have "SCHEME_HASHTR_KIND t OR (if NOT_IMPLICIT_VALUE v then HASHTR_HAS_VAL else 0) = ?k"
      by (simp add: SCHEME_HASHTR_KIND_def val_kind_def t)
    moreover have "ht_flags (copy_header X t) = fl" for X by (cases X) (simp add: t)
    ultimately show ?thesis
      using nb i by (subst hamt_set.simps)
        (simp add: ix hc(5) and_hamt_bit hamt_popcount_below_rank copy_around_def Let_def d0_def f_def
          cong: if_cong)
  qed
  also have "\<dots> = Some (insert_node t i key v c inc)"
    using p K V C c10
    by (simp add: cp, simp add: d0 hamt_set_slot_def mzHAMT_SET_VAL_def mzHAMT_SET_CODE_def mem_simps has_bits
        insert_node_def Let_def t SCHEME_HASHTR_KIND_def flip: f_def)
  finally show ?thesis .
qed


text \<open>The node that \<open>hamt_contract\<close> builds.\<close>

definition remove_node :: "hnode \<Rightarrow> nat \<Rightarrow> hnode" where
  "remove_node t i =
     (let p = rank (ht_bitmap t) i
      in HNode (ht_type t) (ht_flags t) (ht_bitmap t - hamt_bit i) (ht_count t - 1)
           (remove_at p (ht_els t))
           (if has_val t then remove_at p (ht_vals t) else [])
           (if has_code t then remove_at p (ht_codes t) else []))"

lemma close_section:
  assumes "length src = n" "length dst = n - 1" "p < n"
  obtains d where "blit dst 0 src 0 p = Some d" "length d = n - 1"
     "(if p < n - 1 then blit d p src (p + 1) (n - p - 1) else Some d) = Some (remove_at p src)"
proof -
  let ?d = "take p src @ drop p dst"
  have 1: "blit dst 0 src 0 p = Some ?d" using assms by (simp add: mem_simps)
  have l: "length src = Suc (length dst)" using assms by simp
  show ?thesis
  proof (cases "p < n - 1")
    case True
    have "blit ?d p src (p + 1) (n - p - 1) =
       Some (take p ?d @ take (n - p - 1) (drop (Suc p) src) @ drop (p + (n - p - 1)) ?d)"
      using True assms by (simp add: mem_simps)
    also have "\<dots> = Some (remove_at p src)"
      using close_mid [OF l, of p ?d] True assms by simp
    finally show ?thesis using 1 True assms that [of ?d] by simp
  next
    case False
    then have "p = length dst" using assms by simp
    then show ?thesis using 1 False assms close_end [OF l] that [of ?d] by simp
  qed
qed

lemma hamt_contract_spec:
  assumes sh: "shape t" and b: "bit (ht_bitmap t) i" and n1: "hamt_popcount (ht_bitmap t) \<noteq> 1"
  shows "hamt_contract t (hamt_popcount (ht_bitmap t)) i (rank (ht_bitmap t) i) = Some (Some (remove_node t i))"
proof -
  obtain ty fl bm c ks vs cs where t: "t = HNode ty fl bm c ks vs cs" by (cases t)
  define n where "n = hamt_popcount bm"
  define p where "p = rank bm i"
  have p: "p < n" using b rank_less_pop [of bm i] by (simp add: p_def n_def t)
  have n: "n \<noteq> 1" "hamt_popcount bm = n" "rank bm i = p" using n1 by (simp_all add: n_def t p_def)
  define d0 where "d0 = copy_header (hamt_alloc (SCHEME_HASHTR_KIND t) (n - 1)) t"
  have len: "length ks = n" "bit fl 0 \<Longrightarrow> length vs = n" "bit fl 1 \<Longrightarrow> bit fl 0 \<and> length cs = n"
    using sh by (auto simp: t shape_def has_bits n_def)
  have k: "2 \<le> HASHTR_KIND_MULT (SCHEME_HASHTR_KIND t) \<longleftrightarrow> bit fl 0"
    "3 \<le> HASHTR_KIND_MULT (SCHEME_HASHTR_KIND t) \<longleftrightarrow> bit fl 1"
    using KIND_MULT_cases [of "SCHEME_HASHTR_KIND t"] len(3) by (auto simp: t)
  have d0: "d0 = HNode ty fl bm c (replicate (n - 1) NullS)
      (if bit fl 0 then replicate (n - 1) None else []) (if bit fl 1 then replicate (n - 1) 0 else [])"
    by (simp add: d0_def hamt_alloc_def k) (simp add: t)
  obtain K where K: "blit (replicate (n - 1) NullS) 0 ks 0 p = Some K" "length K = n - 1"
     "(if p < n - 1 then blit K p ks (p + 1) (n - p - 1) else Some K) = Some (remove_at p ks)"
    using close_section [OF len(1), of "replicate (n - 1) NullS" p] p by auto
  have "\<exists>V. bit fl 0 \<longrightarrow> blit (replicate (n - 1) None) 0 vs 0 p = Some V \<and> length V = n - 1 \<and>
     (if p < n - 1 then blit V p vs (p + 1) (n - p - 1) else Some V) = Some (remove_at p vs)"
    using close_section [of vs n "replicate (n - 1) None" p] len(2) p by (metis length_replicate)
  then obtain V where V: "bit fl 0 \<Longrightarrow> blit (replicate (n - 1) None) 0 vs 0 p = Some V \<and> length V = n - 1 \<and>
     (if p < n - 1 then blit V p vs (p + 1) (n - p - 1) else Some V) = Some (remove_at p vs)" by blast
  have "\<exists>C. bit fl 1 \<longrightarrow> blit (replicate (n - 1) 0) 0 cs 0 p = Some C \<and> length C = n - 1 \<and>
     (if p < n - 1 then blit C p cs (p + 1) (n - p - 1) else Some C) = Some (remove_at p cs)"
    using close_section [of cs n "replicate (n - 1) 0" p] len(3) p by (metis length_replicate)
  then obtain C where C: "bit fl 1 \<Longrightarrow> blit (replicate (n - 1) 0) 0 cs 0 p = Some C \<and> length C = n - 1 \<and>
     (if p < n - 1 then blit C p cs (p + 1) (n - p - 1) else Some C) = Some (remove_at p cs)" by blast
  have "hamt_contract t n i p = do {
      d \<leftarrow> hamt_content_copy d0 t 0 0 p;
      d \<leftarrow> (if p < n - 1 then hamt_content_copy d t p (p + 1) (n - p - 1) else Some d);
      let d = set_bitmap (ht_bitmap d - hamt_bit i) d;
      Some (Some (set_count (ht_count d - 1) d)) }"
    using n(1) by (simp add: hamt_contract_def d0_def)
  also have "\<dots> = Some (Some (remove_node t i))"
  proof (cases "p < n - 1")
    case True
    with K V C len show ?thesis
      by (cases "bit fl 0"; cases "bit fl 1")
         (simp_all add: d0 t hamt_content_copy_def has_bits remove_node_def Let_def n)
  next
    case False
    with K V C len show ?thesis
      by (cases "bit fl 0"; cases "bit fl 1")
         (simp_all add: d0 t hamt_content_copy_def has_bits remove_node_def Let_def n)
  qed
  finally show ?thesis by (simp add: t n)
qed


section \<open>Well-formed tries\<close>

text \<open>
  \<open>hwf ok h hc s p t\<close>: \<open>t\<close> is a node at level \<open>s\<close> whose codes all have the low bits \<open>p\<close>. Its
  arrays have the right lengths, its count is the number of keys below it, each entry
  sits in the slot its code selects, and every subtree holds at least two codes. \<open>ok\<close>
  says which entries other than keys are allowed, \<open>hc\<close> whether nodes store codes.
\<close>

fun weight :: "hslot \<Rightarrow> int" where
  "weight NullS = 0"
| "weight (KeyS k) = 1"
| "weight (NodeS n) = ht_count n"

definition leaf_ok :: "(hnode \<Rightarrow> bool) \<Rightarrow> hslot \<Rightarrow> obj option \<Rightarrow> bool" where
  "leaf_ok ok s v \<longleftrightarrow>
     (case s of NullS \<Rightarrow> False | KeyS k \<Rightarrow> v \<noteq> None
      | NodeS n \<Rightarrow> ht_type n = scheme_hash_tree_collision_type \<and> 2 \<le> ht_count n \<and> ok n)"

definition compact :: "hnode \<Rightarrow> bool" where
  "compact t \<longleftrightarrow> ht_type t = scheme_hash_tree_subtree_type \<and> ht_els t \<noteq> []
     \<and> (length (ht_els t) = 1 \<longrightarrow> HASHTR_SUBTREEP (ht_els t ! 0))"

definition the_node :: "hslot \<Rightarrow> hnode" where
  "the_node s = (case s of NodeS n \<Rightarrow> n)"

lemma the_node_simp [simp]: "the_node (NodeS n) = n"
  by (simp add: the_node_def)

function hwf :: "(hnode \<Rightarrow> bool) \<Rightarrow> (obj \<Rightarrow> code) \<Rightarrow> bool \<Rightarrow> nat \<Rightarrow> code \<Rightarrow> hnode \<Rightarrow> bool" where
  "hwf ok h hc s p t =
     (if s < 64 then
        shape t \<and> has_code t = hc \<and> ht_count t = sum_list (map weight (ht_els t))
        \<and> (\<forall>i<32. bit (ht_bitmap t) i \<longrightarrow>
             (if HASHTR_SUBTREEP (slot_of t i)
              then hwf ok h hc (s + 5) (child_prefix p s i) (the_node (slot_of t i))
                   \<and> compact (the_node (slot_of t i))
              else leaf_ok ok (slot_of t i) (val_of t i)
                   \<and> (\<exists>c. code_of h t i = Some c \<and> take_bit s c = p \<and> hamt_index c s = Some i)))
      else False)"
  by pat_completeness auto
termination
  by (relation "measure (\<lambda>(ok, h, hc, s, p, t). 64 - s)") auto

declare hwf.simps [simp del]

lemma hwfD:
  assumes "hwf ok h hc s p t"
  shows "s < 64" "shape t" "has_code t = hc" "ht_count t = sum_list (map weight (ht_els t))"
  using assms by (subst (asm) hwf.simps; simp split: if_splits)+

lemma hwf_sub:
  assumes "hwf ok h hc s p t" "bit (ht_bitmap t) i" "HASHTR_SUBTREEP (slot_of t i)"
  obtains n where "slot_of t i = NodeS n" "hwf ok h hc (s + 5) (child_prefix p s i) n" "compact n"
  using assms bit_less_32 [OF assms(2)]
  by (subst (asm) hwf.simps) (cases "slot_of t i"; force split: if_splits)

lemma hwf_leaf:
  assumes "hwf ok h hc s p t" "bit (ht_bitmap t) i" "\<not> HASHTR_SUBTREEP (slot_of t i)"
  obtains c where "leaf_ok ok (slot_of t i) (val_of t i)" "code_of h t i = Some c"
    "take_bit s c = p" "hamt_index c s = Some i"
  using assms bit_less_32 [OF assms(2)] by (subst (asm) hwf.simps) (auto split: if_splits)

lemma hwf_subD:
  assumes "hwf ok h hc s p t" "bit (ht_bitmap t) i" "HASHTR_SUBTREEP (slot_of t i)"
  shows "hwf ok h hc (s + 5) (child_prefix p s i) (the_node (slot_of t i)) \<and> compact (the_node (slot_of t i))"
  using hwf_sub [OF assms] by (metis the_node_simp)

lemma hwf_leafD:
  assumes "hwf ok h hc s p t" "bit (ht_bitmap t) i" "\<not> HASHTR_SUBTREEP (slot_of t i)"
  shows "leaf_ok ok (slot_of t i) (val_of t i)
    \<and> (\<exists>c. code_of h t i = Some c \<and> take_bit s c = p \<and> hamt_index c s = Some i)"
  using hwf_leaf [OF assms] by metis

lemma hwfI:
  assumes "s < 64" "shape t" "has_code t = hc" "ht_count t = sum_list (map weight (ht_els t))"
    and "\<And>i. bit (ht_bitmap t) i \<Longrightarrow> HASHTR_SUBTREEP (slot_of t i) \<Longrightarrow>
       hwf ok h hc (s + 5) (child_prefix p s i) (the_node (slot_of t i)) \<and> compact (the_node (slot_of t i))"
    and "\<And>i. bit (ht_bitmap t) i \<Longrightarrow> \<not> HASHTR_SUBTREEP (slot_of t i) \<Longrightarrow>
       leaf_ok ok (slot_of t i) (val_of t i)
       \<and> (\<exists>c. code_of h t i = Some c \<and> take_bit s c = p \<and> hamt_index c s = Some i)"
  shows "hwf ok h hc s p t"
  using assms by (subst hwf.simps) simp

lemma index_ex: "s < 64 \<Longrightarrow> \<exists>i<32. hamt_index c s = Some i"
  using hamt_index_less hamt_index_eq by blast

section \<open>Lookup\<close>

lemma hamt_assoc_step:
  assumes "shape t" "hamt_index c s = Some i"
  shows "hamt_assoc h t c s =
    (if bit (ht_bitmap t) i then
       if HASHTR_SUBTREEP (slot_of t i) then hamt_assoc h (the_node (slot_of t i)) c (s + 5)
       else Option.bind (code_of h t i)
              (\<lambda>cd. Some (if c = cd then Some (t, rank (ht_bitmap t) i) else None))
     else Some None)"
proof -
  have i: "i < 32" using assms(2) by (rule hamt_index_less)
  show ?thesis
    using i assms shape_reads [OF assms(1), of i]
    by (subst hamt_assoc.simps)
       (auto simp: and_hamt_bit hamt_popcount_below_rank Let_def mzHAMT_LOG_WORD_SIZE_def
         elim: HASHTR_SUBTREEP.elims intro!: Option.bind_cong)
qed

text \<open>The entry a lookup finds, with the value of a collision slot left out.\<close>

definition entry :: "hslot \<Rightarrow> obj option \<Rightarrow> hslot \<times> obj option" where
  "entry s v = (s, case s of KeyS k \<Rightarrow> v | _ \<Rightarrow> None)"

definition hfind :: "(obj \<Rightarrow> code) \<Rightarrow> hnode \<Rightarrow> nat \<Rightarrow> code \<Rightarrow> (hslot \<times> obj option) option" where
  "hfind h t s c =
     (case hamt_assoc h t c s of
        Some (Some (n, p)) \<Rightarrow> Some (entry (ht_els n ! p) (the (mzHAMT_VAL n p)))
      | _ \<Rightarrow> None)"

lemma hfind_step:
  assumes "hwf ok h hc s p t" "hamt_index c s = Some i"
  shows "hfind h t s c =
    (if bit (ht_bitmap t) i then
       if HASHTR_SUBTREEP (slot_of t i) then hfind h (the_node (slot_of t i)) (s + 5) c
       else if code_of h t i = Some c then Some (entry (slot_of t i) (val_of t i)) else None
     else None)"
proof -
  note step = hamt_assoc_step [OF hwfD(2) [OF assms(1)] assms(2), of h]
  show ?thesis
  proof (cases "bit (ht_bitmap t) i \<and> \<not> HASHTR_SUBTREEP (slot_of t i)")
    case True
    then obtain cd where "code_of h t i = Some cd" using hwf_leaf [OF assms(1)] by blast
    then show ?thesis
      using True shape_reads(2) [OF hwfD(2) [OF assms(1)], of i] by (simp add: hfind_def step slot_of_def)
  qed (auto simp: hfind_def step)
qed

lemma hamt_assoc_safe:
  "hwf ok h hc s p t \<Longrightarrow> \<exists>r. hamt_assoc h t c s = Some r"
proof (induction "64 - s" arbitrary: s p t rule: less_induct)
  case less
  note wf = less.prems
  obtain i where i: "hamt_index c s = Some i" using index_ex [OF hwfD(1) [OF wf]] by blast
  show ?case
  proof (cases "bit (ht_bitmap t) i \<and> HASHTR_SUBTREEP (slot_of t i)")
    case True
    then obtain n where n: "slot_of t i = NodeS n" "hwf ok h hc (s + 5) (child_prefix p s i) n"
      using hwf_sub [OF wf] by blast
    then show ?thesis
      using True less.hyps [OF _ n(2)] hwfD(1) [OF wf] hamt_assoc_step [OF hwfD(2) [OF wf] i, of h] by simp
  next
    case False
    show ?thesis
    proof (cases "bit (ht_bitmap t) i")
      case True
      with False obtain cd where "code_of h t i = Some cd" using hwf_leaf [OF wf] by blast
      with True False show ?thesis using hamt_assoc_step [OF hwfD(2) [OF wf] i, of h] by simp
    qed (use hamt_assoc_step [OF hwfD(2) [OF wf] i, of h] in simp)
  qed
qed


section \<open>Small nodes\<close>

lemma rank_zero [simp]: "rank 0 j = 0"
  by (simp add: rank_def)

lemma rank_hamt_bit: "i < 32 \<Longrightarrow> rank (hamt_bit i) j = (if i < j then 1 else 0)"
  using rank_or [of i 0 j] by simp

lemma rank_two:
  assumes "i < 32" "j < 32" "i \<noteq> j"
  shows "rank (hamt_bit i OR hamt_bit j) k = (if i < k then 1 else 0) + (if j < k then 1 else 0)"
  using assms rank_or [of j "hamt_bit i" k] by (simp add: rank_hamt_bit bit_hamt_bit)

lemma leaf_ok_weight: "leaf_ok ok s v \<Longrightarrow> weight s = 1 + collision_extra s"
  by (auto simp: leaf_ok_def collision_extra_def split: hslot.splits)

lemma leaf_ok_not_subtree: "leaf_ok ok s v \<Longrightarrow> \<not> HASHTR_SUBTREEP s"
  by (cases s) (auto simp: leaf_ok_def)

lemma leaf_ok_pos: "leaf_ok ok s v \<Longrightarrow> 1 \<le> weight s"
  by (cases s) (auto simp: leaf_ok_def)

lemma leaf_ok_implicit:
  "leaf_ok ok s v \<Longrightarrow> \<not> NOT_IMPLICIT_VALUE v \<Longrightarrow>
   leaf_ok ok s (Some scheme_true) \<and> entry s (Some scheme_true) = entry s v"
  by (cases s) (auto simp: leaf_ok_def entry_def NOT_IMPLICIT_VALUE_def)

lemma hfind_index_None: "hamt_index c s = None \<Longrightarrow> hfind h t s c = None"
  by (simp add: hfind_def hamt_assoc.simps)

lemma make1_spec:
  assumes wf: "hwf ok h hc (s + 5) (child_prefix p s i) t" and t: "compact t" and i: "i < 32" and s: "s < 64"
  obtains n where "hamt_make1 t i = Some n" "hwf ok h hc s p n" "compact n" "ht_count n = ht_count t"
    "\<And>c. hfind h n s c = (if hamt_index c s = Some i then hfind h t (s + 5) c else None)"
proof -
  let ?k = "SCHEME_HASHTR_KIND t"
  let ?n = "HNode scheme_hash_tree_subtree_type ?k (hamt_bit i) (ht_count t) [NodeS t]
     (if bit (ht_flags t) 0 then [None] else []) (if bit (ht_flags t) 1 then [0] else [])"
  note sh = hwfD(2) [OF wf]
  have k: "2 \<le> HASHTR_KIND_MULT ?k \<longleftrightarrow> bit (ht_flags t) 0" "3 \<le> HASHTR_KIND_MULT ?k \<longleftrightarrow> bit (ht_flags t) 1"
    using KIND_MULT_cases [of ?k] sh by (auto simp: shape_def has_bits)
  have n: "hamt_make1 t i = Some ?n"
    by (simp add: hamt_make1_def hamt_alloc_def k hamt_set_slot_def wr_def)
  have shn: "shape ?n" using sh i by (auto simp: shape_def has_bits popcount_hamt_bit)
  have sl: "slot_of ?n i = NodeS t" using i by (simp add: slot_of_def rank_hamt_bit)
  have wfn: "hwf ok h hc s p ?n"
  proof (rule hwfI)
    show "has_code ?n = hc" using hwfD(3) [OF wf] by (simp add: has_bits)
  next
    fix j assume "bit (ht_bitmap ?n) j"
    then have j: "j = i" using i by (simp add: bit_hamt_bit)
    show "HASHTR_SUBTREEP (slot_of ?n j) \<Longrightarrow> hwf ok h hc (s + 5) (child_prefix p s j) (the_node (slot_of ?n j))
       \<and> compact (the_node (slot_of ?n j))" using wf t sl j by simp
    show "\<not> HASHTR_SUBTREEP (slot_of ?n j) \<Longrightarrow> leaf_ok ok (slot_of ?n j) (val_of ?n j)
       \<and> (\<exists>c. code_of h ?n j = Some c \<and> take_bit s c = p \<and> hamt_index c s = Some j)"
      using t sl j by (simp add: compact_def)
  qed (use s shn in simp_all)
  have f: "hfind h ?n s c = (if hamt_index c s = Some i then hfind h t (s + 5) c else None)" for c
  proof -
    obtain j where j: "hamt_index c s = Some j" "j < 32" using index_ex [OF s] by blast
    show ?thesis using hfind_step [OF wfn j(1)] i j sl t by (simp add: bit_hamt_bit compact_def)
  qed
  show ?thesis by (rule that [OF n wfn]) (use f t in \<open>auto simp: compact_def\<close>)
qed

lemma make2_spec:
  assumes kind: "\<And>n. bit kind n \<Longrightarrow> n = 0 \<or> n = 1" "bit kind 1 \<Longrightarrow> bit kind 0"
    and codes: "bit kind 1 \<or> mzHAMT_KEY_CODE h key1 = Some code1 \<and> mzHAMT_KEY_CODE h key2 = Some code2"
    and leaf: "leaf_ok ok key1 val1" "leaf_ok ok key2 val2" and ne: "code1 \<noteq> code2"
  shows "take_bit s code1 = p \<Longrightarrow> take_bit s code2 = p \<Longrightarrow>
    \<exists>n. hamt_make2 kind s code1 key1 val1 code2 key2 val2 = Some n \<and> hwf ok h (bit kind 1) s p n
      \<and> compact n \<and> ht_count n = weight key1 + weight key2
      \<and> (\<forall>c. hfind h n s c = (if c = code1 then Some (entry key1 val1)
              else if c = code2 then Some (entry key2 val2) else None))"
proof (induction "64 - s" arbitrary: s p rule: less_induct)
  case less
  have s: "s < 64"
    using less.prems ne prefix_full [of s code1] prefix_full [of s code2] by (metis not_le)
  have lt: "64 - (s + 5) < 64 - s" using s by simp
  obtain i1 where i1: "hamt_index code1 s = Some i1" "i1 < 32" using index_ex [OF s] by blast
  obtain i2 where i2: "hamt_index code2 s = Some i2" "i2 < 32" using index_ex [OF s] by blast
  show ?case
  proof (cases "i1 = i2")
    case True
    have "take_bit (s + 5) code1 = child_prefix p s i1" "take_bit (s + 5) code2 = child_prefix p s i1"
      using less.prems i1 i2 True by (auto intro: child_prefix_step)
    then obtain n where n: "hamt_make2 kind (s + 5) code1 key1 val1 code2 key2 val2 = Some n"
      "hwf ok h (bit kind 1) (s + 5) (child_prefix p s i1) n" "compact n" "ht_count n = weight key1 + weight key2"
      "\<And>c. hfind h n (s + 5) c = (if c = code1 then Some (entry key1 val1)
              else if c = code2 then Some (entry key2 val2) else None)"
      using less.hyps [OF lt] by blast
    obtain m where m: "hamt_make1 n i1 = Some m" "hwf ok h (bit kind 1) s p m" "compact m" "ht_count m = ht_count n"
      "\<And>c. hfind h m s c = (if hamt_index c s = Some i1 then hfind h n (s + 5) c else None)"
      using make1_spec [OF n(2,3) i1(2) s] by blast
    have "hamt_make2 kind s code1 key1 val1 code2 key2 val2 = Some m"
      using i1 i2 True n m by (subst hamt_make2.simps) (simp add: mzHAMT_LOG_WORD_SIZE_def)
    then show ?thesis using m n i1 i2 True by auto
  next
    case False
    let ?k = "kind OR (if NOT_IMPLICIT_VALUE val1 \<or> NOT_IMPLICIT_VALUE val2 then HASHTR_HAS_VAL else 0)"
    define f where "f = ?k"
    have fb: "bit f 0 \<longleftrightarrow> bit kind 0 \<or> NOT_IMPLICIT_VALUE val1 \<or> NOT_IMPLICIT_VALUE val2"
      "bit f 1 \<longleftrightarrow> bit kind 1" by (auto simp: f_def bit_or_iff)
    have f1: "n = 0 \<or> n = 1" if "bit f n" for n
      using that kind(1) by (auto simp: f_def bit_or_iff split: if_splits)
    have f2: "bit f 1 \<Longrightarrow> bit f 0" using kind(2) fb by blast
    have k: "2 \<le> HASHTR_KIND_MULT f \<longleftrightarrow> bit f 0" "3 \<le> HASHTR_KIND_MULT f \<longleftrightarrow> bit f 1"
      using KIND_MULT_cases [of f] f1 f2 by blast+
    define n where "n = HNode scheme_hash_tree_subtree_type f (hamt_bit i1 OR hamt_bit i2)
       (2 + collision_extra key1 + collision_extra key2)
       (if i1 < i2 then [key1, key2] else [key2, key1])
       (if bit f 0 then (if i1 < i2 then [val1, val2] else [val2, val1]) else [])
       (if bit f 1 then (if i1 < i2 then [code1, code2] else [code2, code1]) else [])"
    have al: "hamt_alloc f 2 = HNode no_type 0 0 0 [NullS, NullS]
        (if bit f 0 then [None, None] else []) (if bit f 1 then [0, 0] else [])"
      unfolding hamt_alloc_def k by (simp add: numeral_2_eq_2)
    have mk: "hamt_make2 kind s code1 key1 val1 code2 key2 val2 = Some n"
      using False i1 i2 f2
      by (subst hamt_make2.simps)
         (auto simp: Let_def al hamt_set_slot_def mzHAMT_SET_VAL_def mzHAMT_SET_CODE_def wr_def
            has_bits n_def simp flip: f_def)
    have b: "bit (ht_bitmap n) j \<longleftrightarrow> j = i1 \<or> j = i2" for j
      using i1 i2 by (auto simp: n_def bit_or_iff bit_hamt_bit)
    have hv: "has_val n = bit f 0" "has_code n = bit f 1" by (simp_all add: n_def has_bits)
    have pc: "hamt_popcount (ht_bitmap n) = 2" "length (ht_els n) = 2"
      using rank_two [of i1 i2 32] i1 i2 False by (simp_all add: n_def hamt_popcount_rank)
    have r: "rank (ht_bitmap n) i1 = (if i1 < i2 then 0 else 1)" "rank (ht_bitmap n) i2 = (if i1 < i2 then 1 else 0)"
      using rank_two [of i1 i2] i1 i2 False by (simp_all add: n_def)
    have sl: "slot_of n i1 = key1" "slot_of n i2 = key2" using r by (simp_all add: slot_of_def n_def)
    have vl: "val_of n i1 = (if bit f 0 then val1 else Some scheme_true)"
      "val_of n i2 = (if bit f 0 then val2 else Some scheme_true)"
      using r by (simp_all add: val_of_def hv) (simp_all add: n_def)
    have cd: "code_of h n i1 = Some code1" "code_of h n i2 = Some code2"
      using r codes fb(2) by (simp_all add: code_of_def hv sl del: One_nat_def) (auto simp: n_def)
    have lf: "leaf_ok ok key1 (val_of n i1) \<and> entry key1 (val_of n i1) = entry key1 val1"
      "leaf_ok ok key2 (val_of n i2) \<and> entry key2 (val_of n i2) = entry key2 val2"
      using leaf leaf_ok_implicit fb(1) by (auto simp: vl)
    have wf: "hwf ok h (bit kind 1) s p n"
    proof (rule hwfI)
      show "shape n" using kind(2) fb by (auto simp: shape_def pc hv simp del: One_nat_def) (auto simp: n_def)
      show "has_code n = bit kind 1" using hv fb by simp
      show "ht_count n = sum_list (map weight (ht_els n))"
        using leaf_ok_weight [OF leaf(1)] leaf_ok_weight [OF leaf(2)] by (simp add: n_def)
    next
      fix j assume "bit (ht_bitmap n) j"
      then have j: "j = i1 \<or> j = i2" by (simp add: b)
      show "HASHTR_SUBTREEP (slot_of n j) \<Longrightarrow> hwf ok h (bit kind 1) (s + 5) (child_prefix p s j) (the_node (slot_of n j))
         \<and> compact (the_node (slot_of n j))" using leaf_ok_not_subtree leaf sl j by blast
      show "\<not> HASHTR_SUBTREEP (slot_of n j) \<Longrightarrow> leaf_ok ok (slot_of n j) (val_of n j)
         \<and> (\<exists>c. code_of h n j = Some c \<and> take_bit s c = p \<and> hamt_index c s = Some j)"
        using lf cd sl i1 i2 less.prems j by auto
    qed (rule s)
    have "hfind h n s c = (if c = code1 then Some (entry key1 val1)
              else if c = code2 then Some (entry key2 val2) else None)" for c
    proof -
      obtain j where j: "hamt_index c s = Some j" using index_ex [OF s] by blast
      show ?thesis
        using hfind_step [OF wf j] leaf_ok_not_subtree [OF leaf(1)] leaf_ok_not_subtree [OF leaf(2)]
          lf cd sl i1 i2 False j by (auto simp: b)
    qed
    moreover have "compact n" using pc(2) by (auto simp: compact_def) (simp add: n_def)
    moreover have "ht_count n = weight key1 + weight key2"
      using leaf_ok_weight [OF leaf(1)] leaf_ok_weight [OF leaf(2)] by (simp add: n_def)
    ultimately show ?thesis using mk wf by blast
  qed
qed


section \<open>Update\<close>

text \<open>
  A node all of whose slots agree with those of \<open>t\<close> except slot \<open>i\<close>: the common frame of
  the branches of \<open>hamt_set\<close> and \<open>hamt_remove\<close>.
\<close>

definition same_but :: "(obj \<Rightarrow> code) \<Rightarrow> hnode \<Rightarrow> hnode \<Rightarrow> nat \<Rightarrow> bool" where
  "same_but h t t' i \<longleftrightarrow>
     (\<forall>j. j \<noteq> i \<longrightarrow> bit (ht_bitmap t') j = bit (ht_bitmap t) j
        \<and> (bit (ht_bitmap t) j \<longrightarrow> slot_of t' j = slot_of t j
             \<and> (\<not> HASHTR_SUBTREEP (slot_of t j) \<longrightarrow>
                  val_of t' j = val_of t j \<and> code_of h t' j = code_of h t j)))"

lemma hwf_same_but:
  assumes wf: "hwf ok h hc s p t" and sb: "same_but h t t' i"
    and t': "shape t'" "has_code t' = hc" "ht_count t' = sum_list (map weight (ht_els t'))"
    and i: "bit (ht_bitmap t') i \<Longrightarrow>
      (if HASHTR_SUBTREEP (slot_of t' i)
       then hwf ok h hc (s + 5) (child_prefix p s i) (the_node (slot_of t' i)) \<and> compact (the_node (slot_of t' i))
       else leaf_ok ok (slot_of t' i) (val_of t' i)
            \<and> (\<exists>c. code_of h t' i = Some c \<and> take_bit s c = p \<and> hamt_index c s = Some i))"
  shows "hwf ok h hc s p t'"
proof (rule hwfI [OF hwfD(1) [OF wf] t'])
  fix j assume j: "bit (ht_bitmap t') j"
  show "HASHTR_SUBTREEP (slot_of t' j) \<Longrightarrow> hwf ok h hc (s + 5) (child_prefix p s j) (the_node (slot_of t' j))
     \<and> compact (the_node (slot_of t' j))"
    using j i sb hwf_subD [OF wf, of j] by (cases "j = i") (simp_all add: same_but_def)
  show "\<not> HASHTR_SUBTREEP (slot_of t' j) \<Longrightarrow> leaf_ok ok (slot_of t' j) (val_of t' j)
     \<and> (\<exists>c. code_of h t' j = Some c \<and> take_bit s c = p \<and> hamt_index c s = Some j)"
    using j i sb hwf_leafD [OF wf, of j] by (cases "j = i") (simp_all add: same_but_def)
qed

lemma hfind_same_but:
  assumes "hwf ok h hc s p t" "hwf ok h hc s p t'" "same_but h t t' i" "hamt_index c s \<noteq> Some i"
  shows "hfind h t' s c = hfind h t s c"
proof -
  obtain j where j: "hamt_index c s = Some j" using index_ex [OF hwfD(1) [OF assms(1)]] by blast
  then show ?thesis
    using assms hfind_step [OF assms(1) j] hfind_step [OF assms(2) j] by (auto simp: same_but_def)
qed

text \<open>\<open>hamt_dup\<close> changes the representation of the values only.\<close>

lemma dup_spec:
  assumes "shape t" and t'_def: "t' = hamt_dup t (hamt_popcount (ht_bitmap t)) nv"
  shows "ht_type t' = ht_type t" "ht_bitmap t' = ht_bitmap t" "ht_count t' = ht_count t"
    "ht_els t' = ht_els t" "has_val t' \<longleftrightarrow> has_val t \<or> nv" "has_code t' = has_code t" "shape t'"
    "slot_of t' j = slot_of t j" "code_of h t' j = code_of h t j"
    "bit (ht_bitmap t) j \<Longrightarrow> val_of t' j = val_of t j" "ht_codes t' = ht_codes t"
proof -
  obtain ty fl bm n ks vs cs where t: "t = HNode ty fl bm n ks vs cs" by (cases t)
  have b: "(fl AND 3) AND HASHTR_HAS_VAL = 0 \<longleftrightarrow> \<not> bit fl 0"
  proof -
    have "(fl AND 3) AND HASHTR_HAS_VAL = fl AND HASHTR_HAS_VAL"
      by (rule bit_word_eqI) (simp only: bit_and_iff bit_flag_consts, blast)
    then show ?thesis using has_val_bit [of t] by (auto simp: has_val_def t)
  qed
  have r: "bit bm j \<Longrightarrow> rank bm j < hamt_popcount bm" by (rule rank_less_pop)
  show "ht_type t' = ht_type t" "ht_bitmap t' = ht_bitmap t" "ht_count t' = ht_count t"
    "ht_els t' = ht_els t" "has_val t' \<longleftrightarrow> has_val t \<or> nv" "has_code t' = has_code t" "shape t'"
    "slot_of t' j = slot_of t j" "code_of h t' j = code_of h t j"
    "bit (ht_bitmap t) j \<Longrightarrow> val_of t' j = val_of t j" "ht_codes t' = ht_codes t"
    using assms(1) r by (auto simp: t'_def t b has_bits bit_or_iff shape_def slot_of_def code_of_def val_of_def)
qed


text \<open>Overwriting slot \<open>i\<close>, and its value if \<open>wo\<close> gives one.\<close>

definition put :: "hnode \<Rightarrow> nat \<Rightarrow> hslot \<Rightarrow> obj option option \<Rightarrow> int \<Rightarrow> hnode" where
  "put t i x wo k =
     (let r = rank (ht_bitmap t) i
      in HNode (ht_type t) (ht_flags t) (ht_bitmap t) k ((ht_els t)[r := x])
           (case wo of None \<Rightarrow> ht_vals t | Some w \<Rightarrow> (ht_vals t)[r := w]) (ht_codes t))"

lemma put_spec:
  assumes sh: "shape t" and b: "bit (ht_bitmap t) i" and t': "t' = put t i x wo k"
  shows "ht_type t' = ht_type t" "ht_bitmap t' = ht_bitmap t" "ht_count t' = k" "has_code t' = has_code t"
    "has_val t' = has_val t" "shape t'" "same_but h t t' i" "slot_of t' i = x"
    "val_of t' i = (if has_val t then (case wo of None \<Rightarrow> val_of t i | Some w \<Rightarrow> w) else Some scheme_true)"
    "code_of h t' i = (if has_code t then code_of h t i else mzHAMT_KEY_CODE h x)"
    "length (ht_els t') = length (ht_els t)"
    "sum_list (map weight (ht_els t')) = sum_list (map weight (ht_els t)) + weight x - weight (slot_of t i)"
proof -
  have l: "length (ht_els t) = hamt_popcount (ht_bitmap t)" "has_val t \<Longrightarrow> length (ht_vals t) = hamt_popcount (ht_bitmap t)"
    using sh by (auto simp: shape_def)
  have r: "rank (ht_bitmap t) i < length (ht_els t)" "has_val t \<Longrightarrow> rank (ht_bitmap t) i < length (ht_vals t)"
    using rank_less_pop [OF b] l by simp_all
  have hv: "has_val t' = has_val t" "has_code t' = has_code t" by (simp_all add: t' put_def Let_def has_bits)
  show "ht_type t' = ht_type t" "ht_bitmap t' = ht_bitmap t" "ht_count t' = k" "has_code t' = has_code t"
    "has_val t' = has_val t" "length (ht_els t') = length (ht_els t)"
    using hv by (simp_all add: t' put_def Let_def)
  show "shape t'" using sh hv by (auto simp: shape_def t' put_def Let_def split: option.splits)
  show sl: "slot_of t' i = x" using r by (simp add: slot_of_def t' put_def Let_def)
  show "val_of t' i = (if has_val t then (case wo of None \<Rightarrow> val_of t i | Some w \<Rightarrow> w) else Some scheme_true)"
    using r hv(1) by (cases wo) (auto simp: val_of_def t' put_def Let_def)
  show "code_of h t' i = (if has_code t then code_of h t i else mzHAMT_KEY_CODE h x)"
    by (simp add: code_of_def hv sl) (simp add: t' put_def Let_def)
  show "sum_list (map weight (ht_els t')) = sum_list (map weight (ht_els t)) + weight x - weight (slot_of t i)"
    using r by (simp add: t' put_def Let_def slot_of_def sum_list_update_int)
  show "same_but h t t' i"
    unfolding same_but_def using b l hv
    by (auto simp: t' put_def Let_def slot_of_def val_of_def code_of_def nth_rank_update split: option.splits)
qed

lemma hamt_set_replace:
  assumes sh: "shape t" and ix: "hamt_index c s = Some i" and b: "bit (ht_bitmap t) i"
    and d: "d = hamt_dup t (hamt_popcount (ht_bitmap t)) (NOT_IMPLICIT_VALUE v)"
  shows "hamt_set h t c s key v inc =
    (if HASHTR_SUBTREEP (slot_of t i) then do {
       sub \<leftarrow> hamt_set h (the_node (slot_of t i)) c (s + 5) key v inc;
       Some (put d i (NodeS sub) None (ht_count t + inc)) }
     else do {
       cd \<leftarrow> code_of h t i;
       if c = cd then Some (put d i key (if has_val d then Some v else None) (ht_count t + inc))
       else do {
         sub \<leftarrow> hamt_make2 (SCHEME_HASHTR_KIND d) (s + 5) cd (slot_of t i) (val_of t i) c key v;
         Some (put d i (NodeS sub) (if has_val d then Some None else None) (ht_count t + inc)) } })"
proof -
  have i: "i < 32" using ix by (rule hamt_index_less)
  note D = dup_spec [OF sh d]
  have len: "length (ht_els d) = hamt_popcount (ht_bitmap d)" "has_val d \<Longrightarrow> length (ht_vals d) = hamt_popcount (ht_bitmap d)"
    using D(7) by (auto simp: shape_def)
  have r: "rank (ht_bitmap t) i < length (ht_els d)" "has_val d \<Longrightarrow> rank (ht_bitmap t) i < length (ht_vals d)"
    using rank_less_pop [OF b] len D(2) by simp_all
  have ss: "hamt_set_slot d (rank (ht_bitmap t) i) x = Some (put d i x None (ht_count t))" for x
    using r D(2,3) by (cases d) (auto simp: hamt_set_slot_def mem_simps put_def)
  have sv: "has_val d \<Longrightarrow> mzHAMT_SET_VAL (put d i x None m) (rank (ht_bitmap t) i) w = Some (put d i x (Some w) m)" for x w m
    using r(2) D(2) by (cases d) (simp add: mzHAMT_SET_VAL_def put_def Let_def mem_simps)
  have sc: "set_count m' (put d i x wo m) = put d i x wo m'" "ht_count (put d i x wo m) = m"
    "has_val (put d i x wo m) = has_val d" for x wo m m'
    by (simp_all add: put_def Let_def has_bits)
  have rd1: "rd (ht_els t) (rank (ht_bitmap t) i) = Some (slot_of t i)"
    "mzHAMT_CODE h d (rank (ht_bitmap t) i) = code_of h t i"
    "mzHAMT_VAL d (rank (ht_bitmap t) i) = Some (val_of t i)"
    using shape_reads(1) [OF sh b] shape_reads(2) [OF D(7), of i] shape_reads(3) [OF D(7), of i h] D(2,9,10) b
    by simp_all
  show ?thesis
    using b i
    by (subst hamt_set.simps)
       (simp add: ix and_hamt_bit hamt_popcount_below_rank Let_def mzHAMT_LOG_WORD_SIZE_def rd1 ss sc sv
          flip: d cong: if_cong,
        cases "slot_of t i"; cases "has_val d"; simp add: ss sc sv D(3) cong: if_cong)
qed

lemma insert_node_spec:
  assumes sh: "shape t" and i: "i < 32" and nb: "\<not> bit (ht_bitmap t) i" and t': "t' = insert_node t i key v c inc"
  shows "ht_type t' = ht_type t" "ht_bitmap t' = ht_bitmap t OR hamt_bit i" "ht_count t' = ht_count t + inc"
    "has_code t' = has_code t" "shape t'" "same_but h t t' i" "slot_of t' i = key"
    "val_of t' i = (if has_val t \<or> NOT_IMPLICIT_VALUE v then v else Some scheme_true)"
    "code_of h t' i = (if has_code t then Some c else mzHAMT_KEY_CODE h key)"
    "length (ht_els t') = Suc (length (ht_els t))"
    "sum_list (map weight (ht_els t')) = sum_list (map weight (ht_els t)) + weight key"
proof -
  let ?bm = "ht_bitmap t" let ?r = "rank ?bm i"
  have l: "length (ht_els t) = hamt_popcount ?bm" "length (explicit_vals t) = hamt_popcount ?bm"
    "has_code t \<Longrightarrow> has_val t \<and> length (ht_codes t) = hamt_popcount ?bm"
    using sh by (auto simp: shape_def explicit_vals_def)
  have r: "?r \<le> hamt_popcount ?bm" using i by (simp add: rank_le_pop)
  have hv: "has_val t' \<longleftrightarrow> has_val t \<or> NOT_IMPLICIT_VALUE v" "has_code t' = has_code t"
    by (auto simp: t' insert_node_def Let_def has_bits bit_or_iff)
  have f: "ht_type t' = ht_type t" "ht_bitmap t' = ?bm OR hamt_bit i" "ht_count t' = ht_count t + inc"
    "ht_els t' = insert_at ?r key (ht_els t)"
    "has_val t' \<Longrightarrow> ht_vals t' = insert_at ?r v (explicit_vals t)"
    "has_code t' \<Longrightarrow> ht_codes t' = insert_at ?r c (ht_codes t)"
    by (simp_all add: t' insert_node_def Let_def has_bits)
  show "ht_type t' = ht_type t" "ht_bitmap t' = ?bm OR hamt_bit i" "ht_count t' = ht_count t + inc"
    "has_code t' = has_code t" "length (ht_els t') = Suc (length (ht_els t))"
    using f hv r l by simp_all
  show "shape t'" using f hv r l i nb by (auto simp: shape_def popcount_or)
  have bi: "bit (?bm OR hamt_bit i) i" using i by (simp add: bit_or_hamt_bit)
  show sl: "slot_of t' i = key" using nth_rank_insert [OF i nb l(1) bi] by (simp add: slot_of_def f)
  show "val_of t' i = (if has_val t \<or> NOT_IMPLICIT_VALUE v then v else Some scheme_true)"
    using nth_rank_insert [OF i nb l(2) bi, of v] f hv by (simp add: val_of_def)
  show "code_of h t' i = (if has_code t then Some c else mzHAMT_KEY_CODE h key)"
    using nth_rank_insert [OF i nb _ bi, of "ht_codes t" c] l(3) f hv sl by (simp add: code_of_def)
  show "sum_list (map weight (ht_els t')) = sum_list (map weight (ht_els t)) + weight key"
    by (simp add: f sum_list_insert_at)
  show "same_but h t t' i"
    unfolding same_but_def
  proof (intro allI impI conjI)
    fix j assume ji: "j \<noteq> i"
    show "bit (ht_bitmap t') j = bit ?bm j" using ji i by (auto simp: f bit_or_hamt_bit)
    assume bj: "bit ?bm j"
    then have bj': "bit (?bm OR hamt_bit i) j" using i by (simp add: bit_or_hamt_bit)
    note rp = rank_less_pop [OF bj]
    show sj: "slot_of t' j = slot_of t j" using nth_rank_insert [OF i nb l(1) bj'] ji by (simp add: slot_of_def f)
    show "val_of t' j = val_of t j"
      using nth_rank_insert [OF i nb l(2) bj', of v] ji f hv rp by (auto simp: val_of_def explicit_vals_def)
    show "code_of h t' j = code_of h t j"
      using nth_rank_insert [OF i nb _ bj', of "ht_codes t" c] l(3) ji f hv sj by (auto simp: code_of_def)
  qed
qed


lemma compact_put:
  assumes "shape t" "bit (ht_bitmap t) i" "compact t" "t' = put t i x wo k"
    and "HASHTR_SUBTREEP (slot_of t i) \<Longrightarrow> HASHTR_SUBTREEP x"
  shows "compact t'"
proof -
  have r: "rank (ht_bitmap t) i < length (ht_els t)"
    using assms(1) rank_less_pop [OF assms(2)] by (simp add: shape_def)
  show ?thesis
    using assms(3-5) r by (auto simp: compact_def put_def Let_def slot_of_def)
qed

text \<open>The weight of the entry that a lookup finds.\<close>

definition found_weight :: "(hslot \<times> obj option) option \<Rightarrow> int" where
  "found_weight r = (case r of None \<Rightarrow> 0 | Some (s, _) \<Rightarrow> weight s)"

lemma found_weight_simps [simp]: "found_weight None = 0" "found_weight (Some (entry s v)) = weight s"
  by (simp_all add: found_weight_def entry_def)

lemma put_dup_wf:
  assumes wf: "hwf ok h hc s p t" and b: "bit (ht_bitmap t) i"
    and d: "d = hamt_dup t (hamt_popcount (ht_bitmap t)) nv" and t': "t' = put d i x wo k"
    and k: "k = ht_count t + weight x - weight (slot_of t i)"
    and x: "if HASHTR_SUBTREEP x then hwf ok h hc (s + 5) (child_prefix p s i) (the_node x) \<and> compact (the_node x)
       else leaf_ok ok x (val_of t' i)
            \<and> (\<exists>c. code_of h t' i = Some c \<and> take_bit s c = p \<and> hamt_index c s = Some i)"
  shows "hwf ok h hc s p t'" "same_but h t t' i" "ht_type t' = ht_type t" "slot_of t' i = x"
    "bit (ht_bitmap t') i"
    "(HASHTR_SUBTREEP (slot_of t i) \<longrightarrow> HASHTR_SUBTREEP x) \<Longrightarrow> compact t \<Longrightarrow> compact t'"
proof -
  note sh = hwfD(2) [OF wf]
  note D = dup_spec [OF sh d]
  have bd: "bit (ht_bitmap d) i" using b D(2) by simp
  note P = put_spec [OF D(7) bd t']
  show sb: "same_but h t t' i"
    using P(7) D(2) D(8) D(9) D(10) by (auto simp: same_but_def)
  show "ht_type t' = ht_type t" "slot_of t' i = x" "bit (ht_bitmap t') i"
    using P(1,2,8) D(1) bd by simp_all
  have cnt: "ht_count t' = sum_list (map weight (ht_els t'))"
    using P(3,12) D(4) D(8) k hwfD(4) [OF wf] by simp
  show "hwf ok h hc s p t'"
    by (rule hwf_same_but [OF wf sb P(6)]) (use P(4,8) D(6) hwfD(3) [OF wf] cnt x in auto)
  show "(HASHTR_SUBTREEP (slot_of t i) \<longrightarrow> HASHTR_SUBTREEP x) \<Longrightarrow> compact t \<Longrightarrow> compact t'"
    using compact_put [OF D(7) bd _ t'] D(1,4,8) by (auto simp: compact_def)
qed

text \<open>The result of an update, as a map from codes to entries.\<close>

definition set_result :: "(hnode \<Rightarrow> bool) \<Rightarrow> (obj \<Rightarrow> code) \<Rightarrow> bool \<Rightarrow> nat \<Rightarrow> code \<Rightarrow> hnode \<Rightarrow> code
    \<Rightarrow> hslot \<Rightarrow> obj option \<Rightarrow> int \<Rightarrow> hnode \<Rightarrow> bool" where
  "set_result ok h hc s p t c key v inc t' \<longleftrightarrow>
     hwf ok h hc s p t' \<and> ht_type t' = ht_type t \<and> (compact t \<longrightarrow> compact t')
     \<and> ht_count t' = ht_count t + inc
     \<and> (\<forall>c'. hfind h t' s c' = (if c' = c then Some (entry key v) else hfind h t s c'))"

lemma put_result:
  assumes wf: "hwf ok h hc s p t" and ix: "hamt_index c s = Some i" and b: "bit (ht_bitmap t) i"
    and d: "d = hamt_dup t (hamt_popcount (ht_bitmap t)) nv"
    and t': "t' = put d i x wo (ht_count t + inc)"
    and wx: "inc = weight x - weight (slot_of t i)"
    and x: "if HASHTR_SUBTREEP x then hwf ok h hc (s + 5) (child_prefix p s i) (the_node x) \<and> compact (the_node x)
       else leaf_ok ok x (val_of t' i)
            \<and> (\<exists>c. code_of h t' i = Some c \<and> take_bit s c = p \<and> hamt_index c s = Some i)"
    and sx: "HASHTR_SUBTREEP (slot_of t i) \<longrightarrow> HASHTR_SUBTREEP x"
    and f: "\<And>c'. hamt_index c' s = Some i \<Longrightarrow>
       (if HASHTR_SUBTREEP x then hfind h (the_node x) (s + 5) c'
        else if code_of h t' i = Some c' then Some (entry x (val_of t' i)) else None)
       = (if c' = c then Some (entry key v) else hfind h t s c')"
  shows "set_result ok h hc s p t c key v inc t'"
proof -
  have k: "ht_count t + inc = ht_count t + weight x - weight (slot_of t i)" using wx by simp
  note W = put_dup_wf [OF wf b d t' k x]
  have "hfind h t' s c' = (if c' = c then Some (entry key v) else hfind h t s c')" for c'
  proof (cases "hamt_index c' s = Some i")
    case True
    show ?thesis by (simp only: hfind_step [OF W(1) True] W(4,5) if_True f [OF True])
  next
    case False
    then show ?thesis using hfind_same_but [OF wf W(1,2) False] ix by auto
  qed
  moreover have "ht_count t' = ht_count t + inc" by (simp add: t' put_def Let_def)
  ultimately show ?thesis using W(1,3,6) sx by (simp add: set_result_def)
qed

lemma insert_result:
  assumes wf: "hwf ok h hc s p t" and ix: "hamt_index c s = Some i" and nb: "\<not> bit (ht_bitmap t) i"
    and key: "leaf_ok ok key v" and codes: "hc \<or> mzHAMT_KEY_CODE h key = Some c" and p: "take_bit s c = p"
    and t': "t' = insert_node t i key v c (weight key)"
  shows "set_result ok h hc s p t c key v (weight key) t'"
proof -
  note N = insert_node_spec [OF hwfD(2) [OF wf] hamt_index_less [OF ix] nb t']
  have b': "bit (ht_bitmap t') i" using N(2) hamt_index_less [OF ix] by (simp add: bit_or_hamt_bit)
  have nsk: "\<not> HASHTR_SUBTREEP key" using key by (rule leaf_ok_not_subtree)
  have c': "code_of h t' i = Some c" using N(9) codes hwfD(3) [OF wf] by auto
  have lf: "leaf_ok ok key (val_of t' i) \<and> entry key (val_of t' i) = entry key v"
    using key leaf_ok_implicit [OF key] N(8) by auto
  have cnt: "ht_count t' = sum_list (map weight (ht_els t'))" using N(3,11) hwfD(4) [OF wf] by simp
  have wf': "hwf ok h hc s p t'"
    by (rule hwf_same_but [OF wf N(6,5)]) (use N(4,7) hwfD(3) [OF wf] cnt lf c' nsk p ix in auto)
  have "hfind h t' s c' = (if c' = c then Some (entry key v) else hfind h t s c')" for c'
  proof (cases "hamt_index c' s = Some i")
    case True
    then show ?thesis
      using hfind_step [OF wf' True] hfind_step [OF wf True] nb b' N(7) nsk c' lf by auto
  next
    case False
    then show ?thesis using hfind_same_but [OF wf wf' N(6) False] ix by auto
  qed
  moreover have "compact t \<longrightarrow> compact t'" using N(1,10) by (auto simp: compact_def)
  ultimately show ?thesis using wf' N(1,3) by (simp add: set_result_def)
qed

theorem hamt_set_spec:
  assumes key: "leaf_ok ok key v" and codes: "hc \<or> mzHAMT_KEY_CODE h key = Some c"
  shows "hwf ok h hc s p t \<Longrightarrow> take_bit s c = p \<Longrightarrow> inc = weight key - found_weight (hfind h t s c) \<Longrightarrow>
    \<exists>t'. hamt_set h t c s key v inc = Some t' \<and> set_result ok h hc s p t c key v inc t'"
proof (induction "64 - s" arbitrary: s p t rule: less_induct)
  case less
  note wf = less.prems(1)
  note sh = hwfD(2) [OF wf] and s = hwfD(1) [OF wf]
  have lt: "64 - (s + 5) < 64 - s" using s by simp
  obtain i where ix: "hamt_index c s = Some i" using index_ex [OF s] by blast
  note step = hfind_step [OF wf ix]
  show ?case
  proof (cases "bit (ht_bitmap t) i")
    case False
    have "inc = weight key" using less.prems(3) step False by simp
    then show ?thesis
      using insert_result [OF wf ix False key codes less.prems(2) refl] hamt_set_insert [OF sh ix False] by simp
  next
    case True
    define d where "d = hamt_dup t (hamt_popcount (ht_bitmap t)) (NOT_IMPLICIT_VALUE v)"
    note D = dup_spec [OF sh d_def]
    note set = hamt_set_replace [OF sh ix True d_def, of h key inc]
    note fin = put_result [OF wf ix True d_def, where inc = inc and key = key and v = v]
    show ?thesis
    proof (cases "HASHTR_SUBTREEP (slot_of t i)")
      case sub: True
      obtain n where n: "slot_of t i = NodeS n" "hwf ok h hc (s + 5) (child_prefix p s i) n" "compact n"
        using hwf_sub [OF wf True sub] by blast
      have pre: "take_bit (s + 5) c = child_prefix p s i" using less.prems(2) ix by (rule child_prefix_step)
      have inc: "inc = weight key - found_weight (hfind h n (s + 5) c)"
        using less.prems(3) step True sub n by simp
      obtain n' where n': "hamt_set h n c (s + 5) key v inc = Some n'" "hwf ok h hc (s + 5) (child_prefix p s i) n'"
        "compact n'" "ht_count n' = ht_count n + inc"
        "\<And>c'. hfind h n' (s + 5) c' = (if c' = c then Some (entry key v) else hfind h n (s + 5) c')"
        using less.hyps [OF lt n(2) pre inc] n(3) unfolding set_result_def by blast
      have "HASHTR_SUBTREEP (NodeS n')" using n'(3) by (simp add: compact_def)
      then have "set_result ok h hc s p t c key v inc (put d i (NodeS n') None (ht_count t + inc))"
        using n n' sub True hfind_step [OF wf] by (intro fin [OF refl]) auto
      then show ?thesis using set sub n n'(1) by simp
    next
      case leaf: False
      obtain cd where cd: "leaf_ok ok (slot_of t i) (val_of t i)" "code_of h t i = Some cd"
        "take_bit s cd = p" "hamt_index cd s = Some i" using hwf_leaf [OF wf True leaf] by blast
      have bd: "bit (ht_bitmap d) i" using True D(2) by simp
      show ?thesis
      proof (cases "c = cd")
        case same: True
        let ?wo = "if has_val d then Some v else None"
        define t' where "t' = put d i key ?wo (ht_count t + inc)"
        note P = put_spec [OF D(7) bd t'_def]
        have "code_of h t' i = Some c" using P(10) D(6,9) cd(2) same codes hwfD(3) [OF wf] by auto
        moreover have "leaf_ok ok key (val_of t' i) \<and> entry key (val_of t' i) = entry key v"
          using P(9) key leaf_ok_implicit [OF key] D(5) by auto
        ultimately have "set_result ok h hc s p t c key v inc t'"
          using less.prems(2,3) cd True leaf step same leaf_ok_not_subtree [OF key] ix hfind_step [OF wf]
          by (intro fin [OF t'_def]) auto
        then show ?thesis using set leaf cd(2) same by (simp add: t'_def)
      next
        case diff: False
        have pre: "take_bit (s + 5) c = child_prefix p s i" "take_bit (s + 5) cd = child_prefix p s i"
          using less.prems(2) ix cd by (auto intro: child_prefix_step)
        have kd: "bit (SCHEME_HASHTR_KIND d) 1 = hc" "\<And>n. bit (SCHEME_HASHTR_KIND d) n \<Longrightarrow> n = 0 \<or> n = 1"
          "bit (SCHEME_HASHTR_KIND d) 1 \<Longrightarrow> bit (SCHEME_HASHTR_KIND d) 0"
          using D(6,7) hwfD(3) [OF wf] by (auto simp: shape_def has_bits)
        have kc: "bit (SCHEME_HASHTR_KIND d) 1 \<or> mzHAMT_KEY_CODE h (slot_of t i) = Some cd \<and> mzHAMT_KEY_CODE h key = Some c"
          using cd(2) codes kd(1) hwfD(3) [OF wf] by (auto simp: code_of_def split: if_splits)
        obtain n where n: "hamt_make2 (SCHEME_HASHTR_KIND d) (s + 5) cd (slot_of t i) (val_of t i) c key v = Some n"
          "hwf ok h hc (s + 5) (child_prefix p s i) n" "compact n" "ht_count n = weight (slot_of t i) + weight key"
          "\<And>c'. hfind h n (s + 5) c' = (if c' = cd then Some (entry (slot_of t i) (val_of t i))
             else if c' = c then Some (entry key v) else None)"
          using make2_spec [OF kd(2,3) kc cd(1) key diff [symmetric] pre(2,1)] kd(1) by auto
        have "HASHTR_SUBTREEP (NodeS n)" using n(3) by (simp add: compact_def)
        then have "set_result ok h hc s p t c key v inc
            (put d i (NodeS n) (if has_val d then Some None else None) (ht_count t + inc))"
          using n less.prems(3) cd True leaf step diff hfind_step [OF wf] by (intro fin [OF refl]) auto
        then show ?thesis using set leaf cd(2) diff n(1) by simp
      qed
    qed
  qed
qed


section \<open>Removal\<close>

lemma remove_node_spec:
  assumes sh: "shape t" and b: "bit (ht_bitmap t) i" and t': "t' = remove_node t i"
  shows "ht_type t' = ht_type t" "ht_count t' = ht_count t - 1" "has_code t' = has_code t" "shape t'"
    "same_but h t t' i" "\<not> bit (ht_bitmap t') i" "length (ht_els t') = length (ht_els t) - 1"
    "sum_list (map weight (ht_els t')) = sum_list (map weight (ht_els t)) - weight (slot_of t i)"
proof -
  let ?bm = "ht_bitmap t" let ?r = "rank ?bm i"
  have l: "length (ht_els t) = hamt_popcount ?bm" "has_val t \<Longrightarrow> length (ht_vals t) = hamt_popcount ?bm"
    "has_code t \<Longrightarrow> has_val t \<and> length (ht_codes t) = hamt_popcount ?bm"
    using sh by (auto simp: shape_def)
  note r = rank_less_pop [OF b]
  have hv: "has_val t' = has_val t" "has_code t' = has_code t"
    by (simp_all add: t' remove_node_def Let_def has_bits)
  have f: "ht_type t' = ht_type t" "ht_bitmap t' = ?bm - hamt_bit i" "ht_count t' = ht_count t - 1"
    "ht_els t' = remove_at ?r (ht_els t)" "has_val t \<Longrightarrow> ht_vals t' = remove_at ?r (ht_vals t)"
    "has_code t \<Longrightarrow> ht_codes t' = remove_at ?r (ht_codes t)"
    by (simp_all add: t' remove_node_def Let_def)
  show "ht_type t' = ht_type t" "ht_count t' = ht_count t - 1" "has_code t' = has_code t"
    "length (ht_els t') = length (ht_els t) - 1"
    using f hv r l by simp_all
  show "shape t'" using f hv r l b by (auto simp: shape_def popcount_sub)
  show "\<not> bit (ht_bitmap t') i" using f b by (simp add: bit_sub_hamt_bit)
  show "sum_list (map weight (ht_els t')) = sum_list (map weight (ht_els t)) - weight (slot_of t i)"
    using r l by (simp add: f sum_list_remove_at slot_of_def)
  show "same_but h t t' i"
    unfolding same_but_def
  proof (intro allI impI conjI)
    fix j assume ji: "j \<noteq> i"
    show "bit (ht_bitmap t') j = bit ?bm j" using ji b by (auto simp: f bit_sub_hamt_bit)
    assume bj: "bit ?bm j"
    then have bj': "bit (?bm - hamt_bit i) j" using b ji by (simp add: bit_sub_hamt_bit)
    show sj: "slot_of t' j = slot_of t j" using nth_rank_remove [OF b l(1) bj'] by (simp add: slot_of_def f)
    show "val_of t' j = val_of t j"
      using nth_rank_remove [OF b l(2) bj'] f hv by (auto simp: val_of_def)
    show "code_of h t' j = code_of h t j"
      using nth_rank_remove [OF b _ bj', of "ht_codes t"] l(3) f hv sj by (auto simp: code_of_def)
  qed
qed

lemma slot_weight_pos:
  assumes "hwf ok h hc s p t" "bit (ht_bitmap t) i"
    and "HASHTR_SUBTREEP (slot_of t i) \<Longrightarrow> 2 \<le> ht_count (the_node (slot_of t i))"
  shows "1 \<le> weight (slot_of t i)"
proof (cases "HASHTR_SUBTREEP (slot_of t i)")
  case True
  then show ?thesis using assms(3) by (cases "slot_of t i") auto
next
  case False
  then show ?thesis using hwf_leafD [OF assms(1,2)] leaf_ok_pos by blast
qed

lemma sum_list_ge_length: "(\<forall>x\<in>set xs. 1 \<le> f x) \<Longrightarrow> int (length xs) \<le> sum_list (map f xs)"
  by (induction xs) auto

lemma slots_positions: "shape t \<Longrightarrow> x \<in> set (ht_els t) \<Longrightarrow> \<exists>i. bit (ht_bitmap t) i \<and> x = slot_of t i"
  using pos_ex by (fastforce simp: in_set_conv_nth shape_def slot_of_def)

lemma compact_count: "hwf ok h hc s p t \<Longrightarrow> compact t \<Longrightarrow> 2 \<le> ht_count t"
proof (induction "64 - s" arbitrary: s p t rule: less_induct)
  case less
  note wf = less.prems(1)
  have lt: "64 - (s + 5) < 64 - s" using hwfD(1) [OF wf] by simp
  have sub: "2 \<le> ht_count (the_node (slot_of t i))" if "bit (ht_bitmap t) i" "HASHTR_SUBTREEP (slot_of t i)" for i
    using less.hyps [OF lt] hwf_subD [OF wf that] by blast
  have pos: "\<forall>x\<in>set (ht_els t). 1 \<le> weight x"
    using slots_positions [OF hwfD(2) [OF wf]] slot_weight_pos [OF wf] sub by blast
  show ?case
  proof (cases "length (ht_els t) = 1")
    case True
    then obtain x where x: "ht_els t = [x]" by (cases "ht_els t") auto
    then obtain i where i: "bit (ht_bitmap t) i" "x = slot_of t i" using slots_positions [OF hwfD(2) [OF wf]] by auto
    moreover have "HASHTR_SUBTREEP x" using less.prems(2) x by (simp add: compact_def)
    ultimately show ?thesis using sub [of i] hwfD(4) [OF wf] x by (cases "slot_of t i") auto
  next
    case False
    then have "2 \<le> length (ht_els t)" using less.prems(2) by (cases "ht_els t") (auto simp: compact_def Suc_le_eq)
    then show ?thesis using sum_list_ge_length [OF pos] hwfD(4) [OF wf] by simp
  qed
qed

text \<open>The test of the code for a node that should be absorbed by its parent.\<close>

lemma one_immediate_entry_iff:
  assumes wf: "hwf ok h hc s p t" and ne: "ht_els t \<noteq> []"
  shows "one_immediate_entry t (ht_els t ! 0) \<longleftrightarrow> length (ht_els t) = 1 \<and> \<not> HASHTR_SUBTREEP (ht_els t ! 0)"
proof -
  have pos: "\<forall>x\<in>set (ht_els t). 1 \<le> weight x"
    using slots_positions [OF hwfD(2) [OF wf]] slot_weight_pos [OF wf] hwf_subD [OF wf] compact_count by blast
  obtain x xs where x: "ht_els t = x # xs" using ne by (cases "ht_els t") auto
  have xs: "int (length xs) \<le> sum_list (map weight xs)" using pos sum_list_ge_length [of xs] by (simp add: x)
  have cnt: "ht_count t = weight x + sum_list (map weight xs)" using hwfD(4) [OF wf] by (simp add: x)
  obtain i where i: "bit (ht_bitmap t) i" "x = slot_of t i" using slots_positions [OF hwfD(2) [OF wf], of x] x by auto
  have lf: "\<not> HASHTR_SUBTREEP x \<Longrightarrow> leaf_ok ok x (val_of t i)" using hwf_leafD [OF wf i(1)] i(2) by blast
  have "1 \<le> weight x" using pos x by simp
  then show ?thesis using xs cnt lf
    by (cases x; cases xs) (auto simp: x one_immediate_entry_def leaf_ok_def)
qed


text \<open>The parent after it has absorbed the single entry of a subtree.\<close>

definition absorb :: "hnode \<Rightarrow> nat \<Rightarrow> bool \<Rightarrow> hslot \<Rightarrow> obj option \<Rightarrow> code \<Rightarrow> hnode" where
  "absorb t i hv s0 v0 cd =
     (let d = (if \<not> has_val t \<and> hv then hamt_dup t (hamt_popcount (ht_bitmap t)) True else t);
          e = put d i s0 (if has_val d then Some v0 else None) (ht_count t - 1)
      in if has_code t then set_codes ((ht_codes e)[rank (ht_bitmap t) i := cd]) e else e)"

lemma dup_False: "hamt_dup t n False = t"
  by (cases t) simp

lemma dup_put: "hamt_dup (put t i x None k) n True = put (hamt_dup t n True) i x None k"
  by (cases t) (simp add: put_def Let_def)

lemma hamt_remove_step:
  assumes sh: "shape t" and ix: "hamt_index c s = Some i" and b: "bit (ht_bitmap t) i"
    and sub: "slot_of t i = NodeS n" "HASHTR_SUBTREEP (NodeS n)"
  shows "hamt_remove h t c s = do {
      r \<leftarrow> hamt_remove h n c (s + 5);
      (case r of None \<Rightarrow> hamt_contract t (hamt_popcount (ht_bitmap t)) i (rank (ht_bitmap t) i)
       | Some m \<Rightarrow>
         if m \<noteq> n then do {
           s0 \<leftarrow> rd (ht_els m) 0;
           if one_immediate_entry m s0 then do {
             v0 \<leftarrow> (if has_val t \<or> has_val m then mzHAMT_VAL m 0 else Some None);
             cd \<leftarrow> (if has_code t then mzHAMT_CODE h m 0 else Some 0);
             Some (Some (absorb t i (has_val m) s0 v0 cd))
           } else Some (Some (put t i (NodeS m) None (ht_count t - 1)))
         } else Some (Some t)) }"
proof -
  have i: "i < 32" using ix by (rule hamt_index_less)
  define d where "d = hamt_dup t (hamt_popcount (ht_bitmap t)) True"
  note D = dup_spec [OF sh d_def]
  note R = rank_less_pop [OF b]
  have sl: "rd (ht_els t) (rank (ht_bitmap t) i) = Some (NodeS n)" using shape_reads(1) [OF sh b] sub by simp
  have ss: "hamt_set_slot (set_count k t) (rank (ht_bitmap t) i) x = Some (put t i x None k)" for x k
    using sh R by (cases t) (auto simp: hamt_set_slot_def mem_simps put_def shape_def)
  have hv: "has_val (put e i x wo k) = has_val e" "has_code (put e i x wo k) = has_code e" for e x wo k
    by (simp_all add: put_def Let_def has_bits)
  have sv: "has_val e \<Longrightarrow> shape e \<Longrightarrow> ht_bitmap e = ht_bitmap t \<Longrightarrow>
     mzHAMT_SET_VAL (put e i x None k) (rank (ht_bitmap t) i) w = Some (put e i x (Some w) k)" for e x w k
    using R by (cases e) (simp add: mzHAMT_SET_VAL_def put_def Let_def mem_simps shape_def)
  have sc: "has_code e \<Longrightarrow> shape e \<Longrightarrow> ht_bitmap e = ht_bitmap t \<Longrightarrow>
     mzHAMT_SET_CODE (put e i x wo k) (rank (ht_bitmap t) i) w
     = Some (set_codes ((ht_codes (put e i x wo k))[rank (ht_bitmap t) i := w]) (put e i x wo k))" for e x wo w k
    using R by (cases e) (simp add: mzHAMT_SET_CODE_def put_def Let_def mem_simps shape_def)
  have cv: "has_code t \<Longrightarrow> has_val t" using sh by (simp add: shape_def)
  have "hamt_remove h t c s = do {
      r \<leftarrow> hamt_remove h n c (s + 5);
      (case r of None \<Rightarrow> hamt_contract t (hamt_popcount (ht_bitmap t)) i (rank (ht_bitmap t) i)
       | Some m \<Rightarrow>
         if NodeS m \<noteq> NodeS n then do {
           s0 \<leftarrow> rd (ht_els m) 0;
           if one_immediate_entry m s0 then do {
             let e = put t i s0 None (ht_count t - 1);
             let e = (if \<not> has_val e \<and> has_val m then hamt_dup e (hamt_popcount (ht_bitmap t)) True else e);
             e \<leftarrow> (if has_val e then do {
                 v \<leftarrow> mzHAMT_VAL m 0;
                 e \<leftarrow> mzHAMT_SET_VAL e (rank (ht_bitmap t) i) v;
                 if has_code e then do { cd \<leftarrow> mzHAMT_CODE h m 0; mzHAMT_SET_CODE e (rank (ht_bitmap t) i) cd }
                 else Some e } else Some e);
             Some (Some e)
           } else Some (Some (put t i (NodeS m) None (ht_count t - 1)))
         } else Some (Some t)) }"
    using i b sub(2)
    by (subst hamt_remove.simps)
       (simp add: ix and_hamt_bit hamt_popcount_below_rank sl mzHAMT_LOG_WORD_SIZE_def dup_False ss Let_def
          cong: if_cong option.case_cong)
  also have "\<dots> = do {
      r \<leftarrow> hamt_remove h n c (s + 5);
      (case r of None \<Rightarrow> hamt_contract t (hamt_popcount (ht_bitmap t)) i (rank (ht_bitmap t) i)
       | Some m \<Rightarrow>
         if m \<noteq> n then do {
           s0 \<leftarrow> rd (ht_els m) 0;
           if one_immediate_entry m s0 then do {
             v0 \<leftarrow> (if has_val t \<or> has_val m then mzHAMT_VAL m 0 else Some None);
             cd \<leftarrow> (if has_code t then mzHAMT_CODE h m 0 else Some 0);
             Some (Some (absorb t i (has_val m) s0 v0 cd))
           } else Some (Some (put t i (NodeS m) None (ht_count t - 1)))
         } else Some (Some t)) }"
  proof -
    have "(let e = put t i s0 None (ht_count t - 1);
               e = (if \<not> has_val e \<and> has_val m then hamt_dup e (hamt_popcount (ht_bitmap t)) True else e)
           in do {
             e \<leftarrow> (if has_val e then do {
                 v \<leftarrow> mzHAMT_VAL m 0;
                 e \<leftarrow> mzHAMT_SET_VAL e (rank (ht_bitmap t) i) v;
                 if has_code e then do { cd \<leftarrow> mzHAMT_CODE h m 0; mzHAMT_SET_CODE e (rank (ht_bitmap t) i) cd }
                 else Some e } else Some e);
             Some (Some e) })
        = do { v0 \<leftarrow> (if has_val t \<or> has_val m then mzHAMT_VAL m 0 else Some None);
             cd \<leftarrow> (if has_code t then mzHAMT_CODE h m 0 else Some 0);
             Some (Some (absorb t i (has_val m) s0 v0 cd)) }" for m s0
      using D(2,5,6,7) cv sh
      by (cases "has_val t"; cases "has_val m"; cases "has_code t"; cases "mzHAMT_VAL m 0"; cases "mzHAMT_CODE h m 0")
         (simp_all add: Let_def hv sv sc dup_put absorb_def flip: d_def)
    then show ?thesis by (simp cong: if_cong option.case_cong)
  qed
  finally show ?thesis .

qed

lemma absorb_spec:
  assumes sh: "shape t" and b: "bit (ht_bitmap t) i" and t': "t' = absorb t i hv s0 v0 cd"
  shows "ht_type t' = ht_type t" "ht_bitmap t' = ht_bitmap t" "ht_count t' = ht_count t - 1"
    "has_code t' = has_code t" "shape t'" "same_but h t t' i" "slot_of t' i = s0"
    "val_of t' i = (if has_val t \<or> hv then v0 else Some scheme_true)"
    "code_of h t' i = (if has_code t then Some cd else mzHAMT_KEY_CODE h s0)"
    "length (ht_els t') = length (ht_els t)"
    "sum_list (map weight (ht_els t')) = sum_list (map weight (ht_els t)) + weight s0 - weight (slot_of t i)"
proof -
  define d where "d = hamt_dup t (hamt_popcount (ht_bitmap t)) (\<not> has_val t \<and> hv)"
  define e where "e = put d i s0 (if has_val d then Some v0 else None) (ht_count t - 1)"
  note D = dup_spec [OF sh d_def]
  have bd: "bit (ht_bitmap d) i" using D(2) b by simp
  note P = put_spec [OF D(7) bd e_def]
  have t'e: "t' = (if has_code t then set_codes ((ht_codes e)[rank (ht_bitmap t) i := cd]) e else e)"
    by (auto simp: t' absorb_def Let_def e_def d_def dup_False)
  have f: "ht_type t' = ht_type e" "ht_bitmap t' = ht_bitmap e" "ht_count t' = ht_count e"
    "ht_flags t' = ht_flags e" "ht_els t' = ht_els e" "ht_vals t' = ht_vals e"
    "ht_codes t' = (if has_code t then (ht_codes e)[rank (ht_bitmap t) i := cd] else ht_codes e)"
    by (cases e; simp add: t'e)+
  have hv': "has_val t' = has_val e" "has_code t' = has_code e" using f(4) by (simp_all add: has_bits)
  have ce: "has_code t \<Longrightarrow> length (ht_codes e) = hamt_popcount (ht_bitmap t)"
    using P(6) P(4) D(6) P(2) D(2) by (auto simp: shape_def)
  show "ht_type t' = ht_type t" "ht_bitmap t' = ht_bitmap t" "ht_count t' = ht_count t - 1"
    "has_code t' = has_code t" "length (ht_els t') = length (ht_els t)"
    "sum_list (map weight (ht_els t')) = sum_list (map weight (ht_els t)) + weight s0 - weight (slot_of t i)"
    using f hv' P D by simp_all
  show "shape t'" using P(6) f hv' by (auto simp: shape_def)
  show sl: "slot_of t' i = s0" using P(8) f by (simp add: slot_of_def)
  show "val_of t' i = (if has_val t \<or> hv then v0 else Some scheme_true)"
    using P(9) D(5) f hv' by (auto simp: val_of_def)
  show "code_of h t' i = (if has_code t then Some cd else mzHAMT_KEY_CODE h s0)"
    using ce rank_less_pop [OF b] P(2,4) D(2,6) f hv' sl by (auto simp: code_of_def)
  show "same_but h t t' i"
    unfolding same_but_def
  proof (intro allI impI conjI)
    fix j assume ji: "j \<noteq> i"
    show "bit (ht_bitmap t') j = bit (ht_bitmap t) j" using f(2) P(2) D(2) by simp
    assume bj: "bit (ht_bitmap t) j"
    have sb: "slot_of e j = slot_of d j" "val_of e j = val_of d j \<or> HASHTR_SUBTREEP (slot_of d j)"
      "code_of h e j = code_of h d j \<or> HASHTR_SUBTREEP (slot_of d j)"
      using P(7) [of h] ji bj D(2) by (auto simp: same_but_def)
    show sj: "slot_of t' j = slot_of t j" using sb(1) D(8) f by (simp add: slot_of_def)
    assume nsj: "\<not> HASHTR_SUBTREEP (slot_of t j)"
    have "val_of t' j = val_of e j" using f hv' by (simp add: val_of_def)
    then show "val_of t' j = val_of t j" using sb(2) nsj D(8) D(10) [OF bj] by simp
    have "(ht_codes e)[rank (ht_bitmap t) i := cd] ! rank (ht_bitmap t) j = ht_codes e ! rank (ht_bitmap t) j" if "has_code t"
      using nth_rank_update [OF b bj ce [OF that]] ji by simp
    then have "code_of h t' j = code_of h e j"
      using f hv' P(2,4) D(2,6) sj D(8) sb(1) by (auto simp: code_of_def)
    then show "code_of h t' j = code_of h t j" using sb(3) nsj D(8) D(9) by simp
  qed
qed

text \<open>The result of a removal; \<open>None\<close> is the \<open>NULL\<close> of a node that would be empty.\<close>

definition remove_result :: "(hnode \<Rightarrow> bool) \<Rightarrow> (obj \<Rightarrow> code) \<Rightarrow> bool \<Rightarrow> nat \<Rightarrow> code \<Rightarrow> hnode \<Rightarrow> code
    \<Rightarrow> hnode option \<Rightarrow> bool" where
  "remove_result ok h hc s p t c r \<longleftrightarrow>
     (case r of
        None \<Rightarrow> ht_count t = 1 \<and> (\<forall>c'. c' \<noteq> c \<longrightarrow> hfind h t s c' = None)
      | Some t' \<Rightarrow> hwf ok h hc s p t' \<and> ht_type t' = ht_type t \<and> ht_els t' \<noteq> []
          \<and> ht_count t' = ht_count t - 1
          \<and> (\<forall>c'. hfind h t' s c' = (if c' = c then None else hfind h t s c')))"

lemma hfind_leaf_unique:
  assumes wf: "hwf ok h hc s p t" and ix: "hamt_index c s = Some i" and b: "bit (ht_bitmap t) i"
    and lf: "\<not> HASHTR_SUBTREEP (slot_of t i)" and f: "hfind h t s c \<noteq> None"
    and c': "hamt_index c' s = Some i" "c' \<noteq> c"
  shows "hfind h t s c' = None"
  using hfind_step [OF wf ix] hfind_step [OF wf c'(1)] b lf f c'(2) by (auto split: if_splits)

lemma remove_leaf_result:
  assumes wf: "hwf ok h hc s p t" and ix: "hamt_index c s = Some i" and b: "bit (ht_bitmap t) i"
    and lf: "\<not> HASHTR_SUBTREEP (slot_of t i)" and f: "hfind h t s c = Some (KeyS k, v)"
  shows "\<exists>r. hamt_contract t (hamt_popcount (ht_bitmap t)) i (rank (ht_bitmap t) i) = Some r
    \<and> remove_result ok h hc s p t c r"
proof -
  note sh = hwfD(2) [OF wf]
  have sl: "slot_of t i = KeyS k" using hfind_step [OF wf ix] b lf f by (auto simp: entry_def split: if_splits)
  show ?thesis
  proof (cases "hamt_popcount (ht_bitmap t) = 1")
    case True
    then obtain x where x: "ht_els t = [x]" using sh by (cases "ht_els t") (auto simp: shape_def)
    then have "x = KeyS k" using sl b rank_less_pop [OF b] True by (simp add: slot_of_def)
    then have "ht_count t = 1" using hwfD(4) [OF wf] x by simp
    moreover have "hfind h t s c' = None" if "c' \<noteq> c" for c'
    proof -
      obtain j where j: "hamt_index c' s = Some j" using index_ex [OF hwfD(1) [OF wf]] by blast
      have "bit (ht_bitmap t) j \<Longrightarrow> j = i"
        using rank_less_pop [of "ht_bitmap t" j] rank_less_pop [OF b] True rank_inj [OF b, of j] by simp
      then show ?thesis
        using hfind_step [OF wf j] hfind_leaf_unique [OF wf ix b lf _ _ that] f j by (cases "j = i") auto
    qed
    ultimately show ?thesis using True by (simp add: hamt_contract_def remove_result_def)
  next
    case False
    define t' where "t' = remove_node t i"
    note R = remove_node_spec [OF sh b t'_def]
    have wf': "hwf ok h hc s p t'"
      by (rule hwf_same_but [OF wf R(5,4)]) (use R hwfD(3,4) [OF wf] sl in auto)
    have "hfind h t' s c' = (if c' = c then None else hfind h t s c')" for c'
    proof (cases "hamt_index c' s = Some i")
      case True
      then show ?thesis
        using hfind_step [OF wf' True] R(6) hfind_leaf_unique [OF wf ix b lf _ True] f by auto
    next
      case False
      then show ?thesis using hfind_same_but [OF wf wf' R(5) False] ix by auto
    qed
    moreover have "ht_els t' \<noteq> []"
      using R(7) sh False rank_less_pop [OF b] by (auto simp: shape_def)
    ultimately show ?thesis
      using hamt_contract_spec [OF sh b False] wf' R(1,2) by (auto simp: remove_result_def t'_def)
  qed
qed


lemma remove_put_result:
  assumes wf: "hwf ok h hc s p t" and ix: "hamt_index c s = Some i" and b: "bit (ht_bitmap t) i"
    and sub: "slot_of t i = NodeS n" "HASHTR_SUBTREEP (NodeS n)"
    and t': "same_but h t t' i" "shape t'" "has_code t' = has_code t" "bit (ht_bitmap t') i"
      "ht_type t' = ht_type t" "ht_count t' = ht_count t - 1"
      "sum_list (map weight (ht_els t')) = sum_list (map weight (ht_els t)) - 1"
    and slot: "(if HASHTR_SUBTREEP (slot_of t' i)
       then hwf ok h hc (s + 5) (child_prefix p s i) (the_node (slot_of t' i)) \<and> compact (the_node (slot_of t' i))
       else leaf_ok ok (slot_of t' i) (val_of t' i)
            \<and> (\<exists>c. code_of h t' i = Some c \<and> take_bit s c = p \<and> hamt_index c s = Some i))"
    and f: "\<And>c'. hamt_index c' s = Some i \<Longrightarrow>
       (if HASHTR_SUBTREEP (slot_of t' i) then hfind h (the_node (slot_of t' i)) (s + 5) c'
        else if code_of h t' i = Some c' then Some (entry (slot_of t' i) (val_of t' i)) else None)
       = (if c' = c then None else hfind h n (s + 5) c')"
  shows "remove_result ok h hc s p t c (Some t')"
proof -
  have wf': "hwf ok h hc s p t'"
    by (rule hwf_same_but [OF wf t'(1,2)]) (use t' hwfD(3,4) [OF wf] slot in auto)
  have "hfind h t' s c' = (if c' = c then None else hfind h t s c')" for c'
  proof (cases "hamt_index c' s = Some i")
    case True
    show ?thesis
      using f [OF True] sub b unfolding hfind_step [OF wf' True] hfind_step [OF wf True] by (simp add: t'(4))
  next
    case False
    then show ?thesis using hfind_same_but [OF wf wf' t'(1) False] ix by auto
  qed
  moreover have "ht_els t' \<noteq> []" using t'(2) rank_less_pop [OF t'(4)] by (auto simp: shape_def)
  ultimately show ?thesis using wf' t' by (simp add: remove_result_def)
qed

lemma single_slot:
  assumes "shape t" "length (ht_els t) = 1"
  obtains j where "bit (ht_bitmap t) j" "rank (ht_bitmap t) j = 0" "slot_of t j = ht_els t ! 0"
    "\<And>k. bit (ht_bitmap t) k \<Longrightarrow> k = j"
proof -
  have pc: "hamt_popcount (ht_bitmap t) = 1" using assms by (simp add: shape_def)
  obtain j where j: "bit (ht_bitmap t) j" "rank (ht_bitmap t) j = 0" using pos_ex [of 0 "ht_bitmap t"] pc by auto
  have u: "k = j" if "bit (ht_bitmap t) k" for k
    using rank_less_pop [OF that] pc rank_inj [OF that j(1)] j(2) by simp
  show ?thesis by (rule that [OF j _ u]) (simp_all add: slot_of_def j)
qed

lemma remove_sub_result:
  assumes wf: "hwf ok h hc s p t" and ix: "hamt_index c s = Some i" and b: "bit (ht_bitmap t) i"
    and sub: "slot_of t i = NodeS n" "HASHTR_SUBTREEP (NodeS n)" and p: "take_bit s c = p"
    and rem: "hamt_remove h n c (s + 5) = Some (Some m)"
    and res: "remove_result ok h hc (s + 5) (child_prefix p s i) n c (Some m)"
  shows "\<exists>r. hamt_remove h t c s = Some r \<and> remove_result ok h hc s p t c r"
proof -
  note sh = hwfD(2) [OF wf]
  have m: "hwf ok h hc (s + 5) (child_prefix p s i) m" "ht_type m = ht_type n" "ht_els m \<noteq> []"
    "ht_count m = ht_count n - 1" "\<And>c'. hfind h m (s + 5) c' = (if c' = c then None else hfind h n (s + 5) c')"
    using res by (simp_all add: remove_result_def)
  have mn: "m \<noteq> n" using m(4) by auto
  have r0: "rd (ht_els m) 0 = Some (ht_els m ! 0)" using m(3) by (simp add: mem_simps)
  have step: "hamt_remove h t c s =
    (if one_immediate_entry m (ht_els m ! 0) then do {
       v0 \<leftarrow> (if has_val t \<or> has_val m then mzHAMT_VAL m 0 else Some None);
       cd \<leftarrow> (if has_code t then mzHAMT_CODE h m 0 else Some 0);
       Some (Some (absorb t i (has_val m) (ht_els m ! 0) v0 cd)) }
     else Some (Some (put t i (NodeS m) None (ht_count t - 1))))"
    using mn by (simp add: hamt_remove_step [OF sh ix b sub] rem r0)
  show ?thesis
  proof (cases "one_immediate_entry m (ht_els m ! 0)")
    case True
    then have one: "length (ht_els m) = 1" "\<not> HASHTR_SUBTREEP (ht_els m ! 0)"
      using one_immediate_entry_iff [OF m(1,3)] by auto
    obtain j where j: "bit (ht_bitmap m) j" "rank (ht_bitmap m) j = 0" "slot_of m j = ht_els m ! 0"
      "\<And>k. bit (ht_bitmap m) k \<Longrightarrow> k = j" using single_slot [OF hwfD(2) [OF m(1)] one(1)] by blast
    obtain cd where cd: "leaf_ok ok (slot_of m j) (val_of m j)" "code_of h m j = Some cd"
      "take_bit (s + 5) cd = child_prefix p s i" "hamt_index cd (s + 5) = Some j"
      using hwf_leaf [OF m(1) j(1)] one(2) j(3) by metis
    have pp: "take_bit s p = p" using p by (metis take_bit_take_bit min.idem)
    have up: "take_bit s cd = p" "hamt_index cd s = Some i"
      using child_prefix_back [OF _ pp hamt_index_less [OF ix] cd(3)] hwfD(1) [OF m(1)] by auto
    define t' where "t' = absorb t i (has_val m) (ht_els m ! 0) (if has_val t \<or> has_val m then val_of m j else None)
       (if has_code t then cd else 0)"
    note A = absorb_spec [OF sh b t'_def]
    have rd: "mzHAMT_VAL m 0 = Some (val_of m j)" "mzHAMT_CODE h m 0 = Some cd"
      using shape_reads(2) [OF hwfD(2) [OF m(1)] j(1)] shape_reads(3) [OF hwfD(2) [OF m(1)] j(1), of h] j(2) cd(2) by simp_all
    have set: "hamt_remove h t c s = Some (Some t')"
      using True by (auto simp: step rd t'_def)
    have hcm: "has_code m = has_code t" using hwfD(3) [OF m(1)] hwfD(3) [OF wf] by simp
    have vt: "val_of t' i = val_of m j"
      using A(8) by (auto simp: val_of_def)
    have ct: "code_of h t' i = Some cd"
      using A(9) cd(2) hcm j(3) by (auto simp: code_of_def split: if_splits)
    have cm: "weight (ht_els m ! 0) = ht_count n - 1"
      using hwfD(4) [OF m(1)] m(4) one(1) by (cases "ht_els m") auto
    have ff: "hfind h m (s + 5) c' = (if c' = cd then Some (entry (slot_of m j) (val_of m j)) else None)" for c'
    proof -
      obtain k where k: "hamt_index c' (s + 5) = Some k" using index_ex [OF hwfD(1) [OF m(1)]] by blast
      have "\<not> HASHTR_SUBTREEP (slot_of m j)" using one(2) j(3) by simp
      moreover have "bit (ht_bitmap m) k \<longleftrightarrow> k = j" using j(1) j(4) [of k] by blast
      moreover have "c' = cd \<Longrightarrow> k = j" using k cd(4) by simp
      ultimately show ?thesis using hfind_step [OF m(1) k] cd(2) by (cases "k = j") auto
    qed
    have "remove_result ok h hc s p t c (Some t')"
    proof (rule remove_put_result [OF wf ix b sub A(6,5,4) _ A(1,3)])
      show "bit (ht_bitmap t') i" using A(2) b by simp
      show "sum_list (map weight (ht_els t')) = sum_list (map weight (ht_els t)) - 1"
        using A(11) cm sub(1) by simp
      show "if HASHTR_SUBTREEP (slot_of t' i)
       then hwf ok h hc (s + 5) (child_prefix p s i) (the_node (slot_of t' i)) \<and> compact (the_node (slot_of t' i))
       else leaf_ok ok (slot_of t' i) (val_of t' i)
            \<and> (\<exists>c. code_of h t' i = Some c \<and> take_bit s c = p \<and> hamt_index c s = Some i)"
        using A(7) one(2) cd(1) j(3) vt ct up by simp
      show "(if HASHTR_SUBTREEP (slot_of t' i) then hfind h (the_node (slot_of t' i)) (s + 5) c'
        else if code_of h t' i = Some c' then Some (entry (slot_of t' i) (val_of t' i)) else None)
       = (if c' = c then None else hfind h n (s + 5) c')" for c'
        using A(7) one(2) j(3) vt ct ff [of c'] m(5) [of c'] by simp
    qed
    then show ?thesis using set by blast
  next
    case False
    define t' where "t' = put t i (NodeS m) None (ht_count t - 1)"
    note P = put_spec [OF sh b t'_def]
    have cm: "compact m"
      using False one_immediate_entry_iff [OF m(1,3)] m(2,3) sub(2) by (auto simp: compact_def)
    have "remove_result ok h hc s p t c (Some t')"
      by (rule remove_put_result [OF wf ix b sub P(7,6,4)])
         (use P b sub m cm in \<open>auto simp: compact_def\<close>)
    then show ?thesis using False by (auto simp: step t'_def)
  qed
qed

theorem hamt_remove_spec:
  "hwf ok h hc s p t \<Longrightarrow> take_bit s c = p \<Longrightarrow> hfind h t s c = Some (KeyS k, v) \<Longrightarrow>
   \<exists>r. hamt_remove h t c s = Some r \<and> remove_result ok h hc s p t c r"
proof (induction "64 - s" arbitrary: s p t rule: less_induct)
  case less
  note wf = less.prems(1)
  note sh = hwfD(2) [OF wf] and s = hwfD(1) [OF wf]
  have lt: "64 - (s + 5) < 64 - s" using s by simp
  obtain i where ix: "hamt_index c s = Some i" using index_ex [OF s] by blast
  note i = hamt_index_less [OF ix]
  note step = hfind_step [OF wf ix]
  have b: "bit (ht_bitmap t) i" using step less.prems(3) by (auto split: if_splits)
  show ?case
  proof (cases "HASHTR_SUBTREEP (slot_of t i)")
    case False
    have "hamt_remove h t c s = hamt_contract t (hamt_popcount (ht_bitmap t)) i (rank (ht_bitmap t) i)"
      using b i False shape_reads(1) [OF sh b]
      by (subst hamt_remove.simps) (simp add: ix and_hamt_bit hamt_popcount_below_rank)
    then show ?thesis using remove_leaf_result [OF wf ix b False less.prems(3)] by simp
  next
    case True
    obtain n where n: "slot_of t i = NodeS n" "hwf ok h hc (s + 5) (child_prefix p s i) n" "compact n"
      using hwf_sub [OF wf b True] by blast
    have pre: "take_bit (s + 5) c = child_prefix p s i" using less.prems(2) ix by (rule child_prefix_step)
    have f: "hfind h n (s + 5) c = Some (KeyS k, v)" using step less.prems(3) b True n by simp
    obtain r where r: "hamt_remove h n c (s + 5) = Some r"
      "remove_result ok h hc (s + 5) (child_prefix p s i) n c r"
      using less.hyps [OF lt n(2) pre f] by blast
    obtain m where "r = Some m" using r(2) compact_count [OF n(2,3)] by (cases r) (auto simp: remove_result_def)
    then show ?thesis
      using remove_sub_result [OF wf ix b n(1) _ less.prems(2)] r True n(1) by simp
  qed
qed

end
