(* ===== verification/HashTree.thy ===== *)
theory HashTree
  imports HamtProps
begin

text \<open>
  The immutable hash tables of \<open>hash.c\<close>: positional access, collision nodes, and the
  \<open>scheme_hash_tree_\<dots>\<close> operations. How keys are hashed and compared is code elsewhere in
  the runtime (\<open>PTR_TO_LONG\<close>, \<open>scheme_equal_hash_key\<close>, \<open>scheme_equal\<close>, \<open>scheme_eqv\<close>); it
  enters as a record of functions. Interposition on keys by chaperones
  (\<open>key_wraps\<close>) enters as an optional function on keys.
\<close>

section \<open>Keys\<close>

record key_env =
  ptr_to_long :: "obj \<Rightarrow> code"
  equal_hash_key :: "obj \<Rightarrow> code"
  equal_hash_key2 :: "obj \<Rightarrow> code"
  eqv_hash_key :: "obj \<Rightarrow> code"
  scheme_equal :: "obj \<Rightarrow> obj \<Rightarrow> bool"
  scheme_eqv :: "obj \<Rightarrow> obj \<Rightarrow> bool"

type_synonym key_wraps = "(obj \<Rightarrow> obj) option"

definition apply_equal_key_wraps :: "obj \<Rightarrow> key_wraps \<Rightarrow> obj" where
  "apply_equal_key_wraps key kw = (case kw of None \<Rightarrow> key | Some w \<Rightarrow> w key)"

definition equal_w_key_wraps :: "key_env \<Rightarrow> obj \<Rightarrow> obj \<Rightarrow> key_wraps \<Rightarrow> bool" where
  "equal_w_key_wraps env ekey tkey kw = scheme_equal env ekey (apply_equal_key_wraps tkey kw)"

fun as_key :: "hslot \<Rightarrow> obj option" where
  "as_key (KeyS k) = Some k"
| "as_key _ = None"

section \<open>Positional access\<close>

text \<open>
  The two nested loops of \<open>hamt_at_index\<close>: \<open>i\<close> is the array position the inner loop has
  reached, \<open>pos\<close> the number of keys still to skip.
\<close>

function hamt_at_index_loop :: "hnode \<Rightarrow> nat \<Rightarrow> int \<Rightarrow> (hnode \<times> nat) option" where
  "hamt_at_index_loop ht i pos = do {
     s \<leftarrow> rd (ht_els ht) i;
     if HASHTR_SUBTREEP s \<or> HASHTR_COLLISIONP s then do {
       sub \<leftarrow> as_node s;
       if pos < ht_count sub then hamt_at_index_loop sub 0 pos
       else hamt_at_index_loop ht (i + 1) (pos - ht_count sub)
     } else if pos = 0 then Some (ht, i)
     else hamt_at_index_loop ht (i + 1) (pos - 1) }"
  by pat_completeness auto
termination
proof (relation "measures [\<lambda>(ht, i, pos). size ht, \<lambda>(ht, i, pos). length (ht_els ht) - i]")
  fix ht :: hnode and i :: nat and pos :: int and s sub
  assume s: "rd (ht_els ht) i = Some s" "as_node s = Some sub"
  then have "s \<in> set (ht_els ht)" "s = NodeS sub" by (auto simp: rd_eq_Some_iff elim: as_node.elims)
  then have "size (NodeS sub) \<le> size_list size (ht_els ht)" by (metis order_refl size_list_estimation')
  then show "((sub, 0, pos), ht, i, pos) \<in> measures [\<lambda>(ht, i, pos). size ht, \<lambda>(ht, i, pos). length (ht_els ht) - i]"
    by (cases ht) simp
qed (auto simp: rd_eq_Some_iff)

declare hamt_at_index_loop.simps [simp del]

definition hamt_at_index :: "(obj \<Rightarrow> code) \<Rightarrow> hnode \<Rightarrow> int \<Rightarrow> (obj \<times> obj option \<times> code) option" where
  "hamt_at_index h ht pos = do {
     (n, i) \<leftarrow> hamt_at_index_loop ht 0 pos;
     s \<leftarrow> rd (ht_els n) i;
     k \<leftarrow> as_key s;
     v \<leftarrow> mzHAMT_VAL n i;
     c \<leftarrow> mzHAMT_CODE h n i;
     Some (k, v, c) }"

definition scheme_hash_tree_next :: "hnode \<Rightarrow> int \<Rightarrow> int" where
  "scheme_hash_tree_next tree pos = (let i = pos + 1 in if i = ht_count tree then -1 else i)"

definition scheme_hash_tree_next_pos :: "hnode \<Rightarrow> int \<Rightarrow> obj" where
  "scheme_hash_tree_next_pos tree pos =
     (let i = pos + 1 in if i = ht_count tree then scheme_false else Fixnum i)"

definition scheme_hash_tree_index :: "(obj \<Rightarrow> code) \<Rightarrow> hnode \<Rightarrow> int \<Rightarrow> (obj \<times> obj option) option option" where
  "scheme_hash_tree_index h ht pos = do {
     ht \<leftarrow> resolve_placeholder ht;
     if pos < ht_count ht then do {
       (k, v, c) \<leftarrow> hamt_at_index h ht pos;
       Some (Some (k, v))
     } else Some None }"

section \<open>Collision nodes\<close>

definition key_same :: "key_env \<Rightarrow> htype \<Rightarrow> obj \<Rightarrow> obj \<Rightarrow> key_wraps \<Rightarrow> bool" where
  "key_same env stype key found_key kw =
     (if stype = scheme_eq_hash_tree_type then key = found_key
      else if stype = scheme_hash_tree_type then equal_w_key_wraps env key found_key kw
      else scheme_eqv env key found_key)"

text \<open>The result is the value found, its position and its code, or \<open>None\<close> for \<open>NULL\<close>.\<close>

function hamt_linear_search_from :: "key_env \<Rightarrow> hnode \<Rightarrow> htype \<Rightarrow> obj \<Rightarrow> key_wraps \<Rightarrow> int
    \<Rightarrow> (obj \<times> int \<times> code) option option" where
  "hamt_linear_search_from env tree stype key kw i =
     (if i < ht_count tree then do {
        (found_key, found_val, code) \<leftarrow> hamt_at_index (ptr_to_long env) tree i;
        if key_same env stype key found_key kw
        then Some (case found_val of None \<Rightarrow> None | Some v \<Rightarrow> Some (v, i, code))
        else hamt_linear_search_from env tree stype key kw (i + 1)
      } else Some None)"
  by pat_completeness auto
termination
  by (relation "measure (\<lambda>(env, tree, stype, key, kw, i). nat (ht_count tree - i))") auto

declare hamt_linear_search_from.simps [simp del]

definition hamt_linear_search :: "key_env \<Rightarrow> hnode \<Rightarrow> htype \<Rightarrow> obj \<Rightarrow> key_wraps
    \<Rightarrow> (obj \<times> int \<times> code) option option" where
  "hamt_linear_search env tree stype key kw = hamt_linear_search_from env tree stype key kw 0"

function hamt_eq_linear_search_from :: "key_env \<Rightarrow> hnode \<Rightarrow> obj \<Rightarrow> int \<Rightarrow> obj option option" where
  "hamt_eq_linear_search_from env tree key i =
     (if i < ht_count tree then do {
        (found_key, found_val, code) \<leftarrow> hamt_at_index (ptr_to_long env) tree i;
        if key = found_key then Some found_val
        else hamt_eq_linear_search_from env tree key (i + 1)
      } else Some None)"
  by pat_completeness auto
termination
  by (relation "measure (\<lambda>(env, tree, key, i). nat (ht_count tree - i))") auto

declare hamt_eq_linear_search_from.simps [simp del]

definition hamt_eq_linear_search :: "key_env \<Rightarrow> hnode \<Rightarrow> obj \<Rightarrow> obj option option" where
  "hamt_eq_linear_search env tree key = hamt_eq_linear_search_from env tree key 0"

text \<open>
  Choosing an unused code: the first free slot of the node, else the last slot that holds
  a key, else the slot with the smallest subtree. \<open>base\<close> and \<open>shift\<close> are C \<open>int\<close>s.
\<close>

fun ffc_scan :: "hnode \<Rightarrow> nat list \<Rightarrow> int \<Rightarrow> nat \<Rightarrow> (nat + nat) option" where
  "ffc_scan tree [] mincount minpos = Some (Inr minpos)"
| "ffc_scan tree (i # is) mincount minpos = do {
     s \<leftarrow> rd (ht_els tree) i;
     if \<not> HASHTR_SUBTREEP s then Some (Inl i)
     else do {
       sub \<leftarrow> as_node s;
       if mincount < 0 \<or> ht_count sub < mincount then ffc_scan tree is (ht_count sub) i
       else ffc_scan tree is mincount minpos
     } }"

function hamt_find_free_code :: "(obj \<Rightarrow> code) \<Rightarrow> hnode \<Rightarrow> 32 word \<Rightarrow> nat \<Rightarrow> code option" where
  "hamt_find_free_code h tree base shift =
     (if 32 \<le> shift + mzHAMT_LOG_WORD_SIZE then None
      else case List.find (\<lambda>i. ht_bitmap tree AND push_bit i 1 = 0) [0..<mzHAMT_WORD_SIZE] of
        Some i \<Rightarrow> Some (signed (push_bit shift (word_of_nat i) + base))
      | None \<Rightarrow> do {
          r \<leftarrow> ffc_scan tree (rev [0..<mzHAMT_WORD_SIZE]) (-1) mzHAMT_WORD_SIZE;
          (case r of
             Inl i \<Rightarrow> do {
               let code = unsigned (push_bit shift (word_of_nat i) + base);
               c \<leftarrow> mzHAMT_CODE h tree i;
               Some (if c = code
                     then code + unsigned (push_bit (shift + mzHAMT_LOG_WORD_SIZE) (1 :: 32 word))
                     else code)
             }
           | Inr minpos \<Rightarrow> do {
               s \<leftarrow> rd (ht_els tree) minpos;
               sub \<leftarrow> as_node s;
               hamt_find_free_code h sub (push_bit shift (word_of_nat minpos) + base)
                 (shift + mzHAMT_LOG_WORD_SIZE)
             })
        })"
  by pat_completeness auto
termination
  by (relation "measure (\<lambda>(h, tree, base, shift). 32 - shift)") (auto simp: mzHAMT_LOG_WORD_SIZE_def)

declare hamt_find_free_code.simps [simp del]

section \<open>Construction\<close>

definition make_hash_tree :: "nat \<Rightarrow> nat \<Rightarrow> hnode" where
  "make_hash_tree eql_kind popcount =
     (let kind = (if eql_kind \<noteq> 0 then HASHTR_HAS_CODE OR HASHTR_HAS_VAL else 0);
          ht = hamt_alloc kind popcount;
          ht = set_type (if eql_kind = 0 then scheme_eq_hash_tree_type
                         else if eql_kind = 1 then scheme_hash_tree_type
                         else scheme_eqv_hash_tree_type) ht
      in set_flags kind ht)"

definition scheme_make_hash_tree :: "nat \<Rightarrow> hnode" where
  "scheme_make_hash_tree eql_kind = make_hash_tree eql_kind 0"

definition SCHEME_hashtr_eq :: nat where "SCHEME_hashtr_eq = 0"
definition SCHEME_hashtr_equal :: nat where "SCHEME_hashtr_equal = 1"
definition SCHEME_hashtr_eqv :: nat where "SCHEME_hashtr_eqv = 2"

definition scheme_make_hash_tree_of_type :: "htype \<Rightarrow> hnode" where
  "scheme_make_hash_tree_of_type stype =
     (if stype = scheme_eq_hash_tree_type then scheme_make_hash_tree SCHEME_hashtr_eq
      else if stype = scheme_hash_tree_type then scheme_make_hash_tree SCHEME_hashtr_equal
      else scheme_make_hash_tree SCHEME_hashtr_eqv)"

definition scheme_make_hash_tree_placeholder :: "nat \<Rightarrow> hnode option" where
  "scheme_make_hash_tree_placeholder eql_kind =
     (let ht = make_hash_tree eql_kind 1;
          ht = set_type scheme_hash_tree_indirection_type ht;
          ht = set_count 0 ht;
          ht = set_bitmap 1 ht;
          sub = make_hash_tree eql_kind 0
      in hamt_set_slot ht 0 (NodeS sub))"

definition scheme_hash_tree_tie_placeholder :: "hnode \<Rightarrow> hnode \<Rightarrow> hnode option" where
  "scheme_hash_tree_tie_placeholder t base = hamt_set_slot (set_count (ht_count base) t) 0 (NodeS base)"

definition scheme_hash_tree_resolve_placeholder :: "hnode \<Rightarrow> hnode option" where
  "scheme_hash_tree_resolve_placeholder t = resolve_placeholder t"

section \<open>Lookup\<close>

definition scheme_eq_hash_tree_get :: "key_env \<Rightarrow> hnode \<Rightarrow> obj \<Rightarrow> obj option option" where
  "scheme_eq_hash_tree_get env tree key = do {
     let h = HAMT_REORDER (ptr_to_long env key);
     tree \<leftarrow> resolve_placeholder tree;
     r \<leftarrow> hamt_assoc (ptr_to_long env) tree h 0;
     (case r of
        None \<Rightarrow> Some None
      | Some (tree, pos) \<Rightarrow> do {
          s \<leftarrow> rd (ht_els tree) pos;
          if HASHTR_COLLISIONP s then do {
            sub \<leftarrow> as_node s;
            hamt_eq_linear_search env sub key
          } else do {
            k \<leftarrow> as_key s;
            if key = k then mzHAMT_VAL tree pos else Some None
          }
        }) }"

text \<open>The hash code of a key in a table of type \<open>stype\<close>.\<close>

definition tree_hash :: "key_env \<Rightarrow> htype \<Rightarrow> obj \<Rightarrow> code" where
  "tree_hash env stype key =
     HAMT_REORDER (if stype = scheme_eq_hash_tree_type then ptr_to_long env key
                   else if stype = scheme_hash_tree_type then equal_hash_key env key
                   else eqv_hash_key env key)"

definition scheme_hash_tree_get_w_key_wraps :: "key_env \<Rightarrow> hnode \<Rightarrow> obj \<Rightarrow> key_wraps \<Rightarrow> obj option option" where
  "scheme_hash_tree_get_w_key_wraps env tree key kw = do {
     tree \<leftarrow> resolve_placeholder tree;
     if ht_count tree = 0 then Some None
     else do {
       let stype = ht_type tree;
       if stype = scheme_eq_hash_tree_type then scheme_eq_hash_tree_get env tree key
       else do {
         let key = (if stype = scheme_hash_tree_type then apply_equal_key_wraps key kw else key);
         let h = tree_hash env stype key;
         r \<leftarrow> hamt_assoc (ptr_to_long env) tree h 0;
         (case r of
            None \<Rightarrow> Some None
          | Some (tree, pos) \<Rightarrow> do {
              s \<leftarrow> rd (ht_els tree) pos;
              if HASHTR_COLLISIONP s then do {
                sub \<leftarrow> as_node s;
                f \<leftarrow> hamt_linear_search env sub stype key kw;
                Some (map_option fst f)
              } else do {
                k \<leftarrow> as_key s;
                if stype = scheme_hash_tree_type then
                  if equal_w_key_wraps env key k kw then mzHAMT_VAL tree pos else Some None
                else if scheme_eqv env key k then mzHAMT_VAL tree pos else Some None
              }
            })
       }
     } }"

definition scheme_hash_tree_get :: "key_env \<Rightarrow> hnode \<Rightarrow> obj \<Rightarrow> obj option option" where
  "scheme_hash_tree_get env tree key = scheme_hash_tree_get_w_key_wraps env tree key None"

section \<open>Functional update\<close>

text \<open>\<open>val = None\<close> removes the key.\<close>

definition scheme_hash_tree_set_w_key_wraps :: "key_env \<Rightarrow> hnode \<Rightarrow> obj \<Rightarrow> obj option \<Rightarrow> key_wraps
    \<Rightarrow> hnode option" where
  "scheme_hash_tree_set_w_key_wraps env tree key val kw = do {
     let p = ptr_to_long env;
     rtree \<leftarrow> resolve_placeholder tree;
     let stype = ht_type rtree;
     let ekey = (if stype = scheme_hash_tree_type then apply_equal_key_wraps key kw else key);
     let h = tree_hash env stype ekey;
     r \<leftarrow> hamt_assoc p rtree h 0;
     (case r of
        None \<Rightarrow>
          if val = None then Some tree
          else hamt_set p rtree h 0 (KeyS key) val 1
      | Some (in_tree, pos) \<Rightarrow> do {
          s \<leftarrow> rd (ht_els in_tree) pos;
          if HASHTR_COLLISIONP s then do {
            coll \<leftarrow> as_node s;
            f \<leftarrow> hamt_linear_search env coll stype key kw;
            (case f of
               Some (_, i, code) \<Rightarrow>
                 if val = None then
                   if ht_count coll = 2 then do {
                     (other_key, other_val, _) \<leftarrow> hamt_at_index p coll (1 - i);
                     hamt_set p rtree h 0 (KeyS other_key) other_val (-1)
                   } else do {
                     coll' \<leftarrow> hamt_remove p coll code 0;
                     coll' \<leftarrow> coll';
                     hamt_set p rtree h 0 (NodeS coll') None (-1)
                   }
                 else do {
                   coll' \<leftarrow> hamt_set p coll code 0 (KeyS key) val 0;
                   hamt_set p rtree h 0 (NodeS coll') None 0
                 }
             | None \<Rightarrow>
                 if val = None then Some tree
                 else do {
                   code \<leftarrow> hamt_find_free_code p coll 0 0;
                   coll' \<leftarrow> hamt_set p coll code 0 (KeyS key) val 1;
                   hamt_set p rtree h 0 (NodeS coll') None 1
                 })
          } else do {
            k \<leftarrow> as_key s;
            let same = (if stype = scheme_eq_hash_tree_type then key = k
                        else if stype = scheme_hash_tree_type then equal_w_key_wraps env ekey k kw
                        else scheme_eqv env key k);
            if same then
              if val = None then do {
                let kind = SCHEME_HASHTR_KIND rtree;
                t \<leftarrow> hamt_remove p rtree h 0;
                Some (case t of
                        None \<Rightarrow> set_flags kind (set_type stype (hamt_alloc kind 0))
                      | Some t \<Rightarrow> t)
              } else do {
                v \<leftarrow> mzHAMT_VAL in_tree pos;
                if val = v then Some rtree
                else hamt_set p rtree h 0 (KeyS key) val 0
              }
            else if val = None then Some tree
            else do {
              v \<leftarrow> mzHAMT_VAL in_tree pos;
              coll \<leftarrow> hamt_make2 (SCHEME_HASHTR_KIND in_tree OR HASHTR_HAS_VAL OR HASHTR_HAS_CODE) 0
                        0 s v 1 (KeyS key) val;
              let coll = set_type scheme_hash_tree_collision_type coll;
              hamt_set p rtree h 0 (NodeS coll) None 1
            }
          }
        }) }"

definition scheme_hash_tree_set :: "key_env \<Rightarrow> hnode \<Rightarrow> obj \<Rightarrow> obj option \<Rightarrow> hnode option" where
  "scheme_hash_tree_set env tree key val = scheme_hash_tree_set_w_key_wraps env tree key val None"

end
