(* ===== verification/HashTreeProps.thy ===== *)
theory HashTreeProps
  imports HashTree
begin

text \<open>
  Correctness of the immutable hash tables: iteration by position visits every entry
  once, a lookup returns the value stored under an equivalent key, an update changes that
  key only, the count is the number of keys, and no operation reads or writes outside of
  a node.
\<close>

section \<open>The cells of a trie in traversal order\<close>

function cells :: "hnode \<Rightarrow> nat \<Rightarrow> (hnode \<times> nat) list" where
  "cells t i =
     (if i < length (ht_els t)
      then (case ht_els t ! i of NodeS n \<Rightarrow> cells n 0 | _ \<Rightarrow> [(t, i)]) @ cells t (i + 1)
      else [])"
  by pat_completeness auto
termination
proof (relation "measures [\<lambda>(t, i). size t, \<lambda>(t, i). length (ht_els t) - i]")
  fix t :: hnode and i n
  assume "i < length (ht_els t)" "ht_els t ! i = NodeS n"
  then have "size (NodeS n) \<le> size_list size (ht_els t)" by (metis nth_mem order_refl size_list_estimation')
  then show "((n, 0), t, i) \<in> measures [\<lambda>(t, i). size t, \<lambda>(t, i). length (ht_els t) - i]"
    by (cases t) simp
qed auto

declare cells.simps [simp del]

text \<open>Counts are right everywhere, and only subtrees and collision nodes are nested.\<close>

inductive counted :: "hnode \<Rightarrow> bool" where
  counted: "ht_count t = sum_list (map weight (ht_els t)) \<Longrightarrow> NullS \<notin> set (ht_els t) \<Longrightarrow>
    (\<And>n. NodeS n \<in> set (ht_els t) \<Longrightarrow>
       (ht_type n = scheme_hash_tree_subtree_type \<or> ht_type n = scheme_hash_tree_collision_type) \<and> counted n)
    \<Longrightarrow> counted t"

inductive_cases countedE: "counted t"

lemma hwf_counted:
  assumes "\<And>n. ok n \<Longrightarrow> counted n"
  shows "hwf ok h hc s p t \<Longrightarrow> counted t"
proof (induction "64 - s" arbitrary: s p t rule: less_induct)
  case less
  note wf = less.prems
  have lt: "64 - (s + 5) < 64 - s" using hwfD(1) [OF wf] by simp
  have slot: "x \<noteq> NullS \<and> (\<forall>n. x = NodeS n \<longrightarrow>
      (ht_type n = scheme_hash_tree_subtree_type \<or> ht_type n = scheme_hash_tree_collision_type) \<and> counted n)"
    if x: "x \<in> set (ht_els t)" for x
  proof -
    obtain i where i: "bit (ht_bitmap t) i" "x = slot_of t i" using slots_positions [OF hwfD(2) [OF wf] x] by blast
    show ?thesis
    proof (cases "HASHTR_SUBTREEP x")
      case True
      then obtain n where "x = NodeS n" "hwf ok h hc (s + 5) (child_prefix p s i) n"
        using hwf_sub [OF wf i(1)] i(2) by blast
      then show ?thesis using True less.hyps [OF lt] by simp
    next
      case False
      then show ?thesis using hwf_leafD [OF wf i(1)] i(2) assms by (cases x) (auto simp: leaf_ok_def)
    qed
  qed
  show ?case by (rule counted.counted) (use slot hwfD(4) [OF wf] in auto)
qed

lemma length_cells:
  "counted t \<Longrightarrow> int (length (cells t 0)) = ht_count t"
proof (induction rule: counted.induct)
  case (counted t)
  have "i \<le> length (ht_els t) \<Longrightarrow> int (length (cells t i)) = sum_list (map weight (drop i (ht_els t)))" for i
  proof (induction "length (ht_els t) - i" arbitrary: i)
    case 0
    then show ?case by (subst cells.simps) simp
  next
    case (Suc k)
    then have i: "i < length (ht_els t)" by simp
    have mem: "ht_els t ! i \<noteq> NullS" "\<And>n. ht_els t ! i = NodeS n \<Longrightarrow> int (length (cells n 0)) = ht_count n"
      using counted(2,3) nth_mem [OF i] by auto
    show ?case
      using Suc.hyps(1) [of "i + 1"] Suc.hyps(2) i mem
      by (subst cells.simps) (auto simp: Cons_nth_drop_Suc [symmetric] split: hslot.split)
  qed
  from this [of 0] show ?case using counted(1) by simp
qed

lemma at_index_loop_cells:
  "counted t \<Longrightarrow> 0 \<le> pos \<Longrightarrow> nat pos < length (cells t i) \<Longrightarrow>
   hamt_at_index_loop t i pos = Some (cells t i ! nat pos)"
proof (induction t i pos rule: hamt_at_index_loop.induct)
  case (1 t i pos)
  have i: "i < length (ht_els t)" using "1.prems"(3) by (subst (asm) cells.simps) (simp split: if_splits)
  note cs = cells.simps [of t i]
  have rd: "rd (ht_els t) i = Some (ht_els t ! i)" using i by (simp add: rd_Some)
  have mem: "ht_els t ! i \<in> set (ht_els t)" using i by simp
  show ?case
  proof (cases "ht_els t ! i")
    case (NodeS n)
    then have ty: "HASHTR_SUBTREEP (ht_els t ! i) \<or> HASHTR_COLLISIONP (ht_els t ! i)" and cn: "counted n"
      using "1.prems"(1) mem by (auto elim: countedE)
    have len: "int (length (cells n 0)) = ht_count n" using cn by (rule length_cells)
    show ?thesis
    proof (cases "pos < ht_count n")
      case True
      have "hamt_at_index_loop n 0 pos = Some (cells n 0 ! nat pos)"
        by (rule "1.IH"(1) [OF rd ty _ True cn "1.prems"(2)]) (use True len "1.prems"(2) NodeS in auto)
      then show ?thesis using True len i NodeS ty rd "1.prems"(2)
        by (subst hamt_at_index_loop.simps) (auto simp: cs nth_append)
    next
      case False
      have "hamt_at_index_loop t (i + 1) (pos - ht_count n) = Some (cells t (i + 1) ! nat (pos - ht_count n))"
        by (rule "1.IH"(2) [OF rd ty _ False "1.prems"(1)])
           (use False len "1.prems"(2,3) NodeS i in \<open>auto simp: cs\<close>)
      moreover have "nat (pos - ht_count n) = nat pos - length (cells n 0)" using len by auto
      ultimately show ?thesis using False len i NodeS ty rd "1.prems"(2)
        by (subst hamt_at_index_loop.simps) (auto simp: cs nth_append)
    qed
  next
    case (KeyS k)
    then have ty: "\<not> (HASHTR_SUBTREEP (ht_els t ! i) \<or> HASHTR_COLLISIONP (ht_els t ! i))" by simp
    show ?thesis
    proof (cases "pos = 0")
      case True
      then show ?thesis using i KeyS rd by (subst hamt_at_index_loop.simps) (simp add: cs)
    next
      case False
      have "hamt_at_index_loop t (i + 1) (pos - 1) = Some (cells t (i + 1) ! nat (pos - 1))"
        by (rule "1.IH"(3) [OF rd ty False "1.prems"(1)])
           (use False "1.prems"(2,3) KeyS i in \<open>auto simp: cs\<close>)
      then show ?thesis using False i KeyS rd "1.prems"(2)
        by (subst hamt_at_index_loop.simps) (auto simp: cs nth_Cons' nat_diff_distrib')
    qed
  next
    case NullS
    then show ?thesis using "1.prems"(1) mem by (auto elim: countedE)
  qed
qed


section \<open>Leaves and the codes they are found under\<close>

function leaves :: "hnode \<Rightarrow> nat \<Rightarrow> (hnode \<times> nat) list" where
  "leaves t i =
     (if i < length (ht_els t)
      then (case ht_els t ! i of
              NodeS n \<Rightarrow> if HASHTR_SUBTREEP (NodeS n) then leaves n 0 else [(t, i)]
            | _ \<Rightarrow> [(t, i)]) @ leaves t (i + 1)
      else [])"
  by pat_completeness auto
termination
proof (relation "measures [\<lambda>(t, i). size t, \<lambda>(t, i). length (ht_els t) - i]")
  fix t :: hnode and i n
  assume "i < length (ht_els t)" "ht_els t ! i = NodeS n"
  then have "size (NodeS n) \<le> size_list size (ht_els t)" by (metis nth_mem order_refl size_list_estimation')
  then show "((n, 0), t, i) \<in> measures [\<lambda>(t, i). size t, \<lambda>(t, i). length (ht_els t) - i]"
    by (cases t) simp
qed auto

declare leaves.simps [simp del]

definition leaf_slot :: "hnode \<times> nat \<Rightarrow> hslot" where "leaf_slot = (\<lambda>(n, i). ht_els n ! i)"
definition leaf_val :: "hnode \<times> nat \<Rightarrow> obj option" where "leaf_val = (\<lambda>(n, i). the (mzHAMT_VAL n i))"
definition leaf_code :: "(obj \<Rightarrow> code) \<Rightarrow> hnode \<times> nat \<Rightarrow> code" where
  "leaf_code h = (\<lambda>(n, i). the (mzHAMT_CODE h n i))"

text \<open>The leaves below one position of a node.\<close>

definition piece :: "hnode \<Rightarrow> nat \<Rightarrow> (hnode \<times> nat) list" where
  "piece t i = (if HASHTR_SUBTREEP (ht_els t ! i) then leaves (the_node (ht_els t ! i)) 0 else [(t, i)])"

lemma leaves_step: "leaves t i = (if i < length (ht_els t) then piece t i @ leaves t (i + 1) else [])"
  by (subst leaves.simps) (auto simp: piece_def split: hslot.split)

lemma leaves_pieces: "leaves t i = concat (map (piece t) [i..<length (ht_els t)])"
proof (induction "length (ht_els t) - i" arbitrary: i)
  case 0
  then show ?case by (subst leaves_step) simp
next
  case (Suc k)
  then show ?case by (subst leaves_step) (auto simp: upt_conv_Cons)
qed

lemma cells_expand:
  "counted t \<Longrightarrow> cells t i = concat (map (\<lambda>l. case leaf_slot l of NodeS n \<Rightarrow> cells n 0 | _ \<Rightarrow> [l]) (leaves t i))"
proof (induction t i rule: leaves.induct)
  case (1 t i)
  show ?case
  proof (cases "i < length (ht_els t)")
    case True
    show ?thesis
    proof (cases "ht_els t ! i")
      case (NodeS n)
      then have "counted n" using "1.prems" True by (metis countedE nth_mem)
      then show ?thesis using True NodeS "1.IH"(1) [OF True NodeS] "1.IH"(2) [OF True "1.prems"]
        by (subst cells.simps, subst leaves.simps) (auto simp: leaf_slot_def)
    qed (use True "1.IH"(2) [OF True "1.prems"] in
           \<open>(subst cells.simps, subst leaves.simps), auto simp: leaf_slot_def\<close>)+
  qed (subst cells.simps, subst leaves.simps, simp)
qed

lemma child_prefix_proper:
  assumes "take_bit s p = p" "i < 32"
  shows "take_bit (s + 5) (child_prefix p s i) = child_prefix p s i"
proof (rule bit_word_eqI)
  fix n
  have "i < 2 ^ 5" using assms(2) by simp
  then have "\<not> bit i m" if "5 \<le> m" for m using that by (metis bit_take_bit_iff not_le take_bit_nat_eq_self_iff)
  then have "bit (word_of_nat i :: code) m \<Longrightarrow> m < 5" for m by (auto simp: bit_simps not_le [symmetric])
  moreover have "bit p m \<Longrightarrow> m < s" for m using assms(1) by (metis bit_take_bit_iff)
  ultimately show "bit (take_bit (s + 5) (child_prefix p s i)) n = bit (child_prefix p s i) n"
    by (force simp: child_prefix_def bit_simps)
qed

lemma hfind_prefix:
  "hwf ok h hc s p t \<Longrightarrow> take_bit s p = p \<Longrightarrow> hfind h t s c = Some e \<Longrightarrow> take_bit s c = p"
proof (induction "64 - s" arbitrary: s p t rule: less_induct)
  case less
  note wf = less.prems(1) and p = less.prems(2)
  have lt: "64 - (s + 5) < 64 - s" using hwfD(1) [OF wf] by simp
  obtain i where ix: "hamt_index c s = Some i" using index_ex [OF hwfD(1) [OF wf]] by blast
  note i = hamt_index_less [OF ix] and step = hfind_step [OF wf ix]
  have b: "bit (ht_bitmap t) i" using less.prems(3) step by (auto split: if_splits)
  show ?case
  proof (cases "HASHTR_SUBTREEP (slot_of t i)")
    case True
    note sub = hwf_subD [OF wf b True]
    have "take_bit (s + 5) c = child_prefix p s i"
      using less.hyps [OF lt conjunct1 [OF sub] child_prefix_proper [OF p i]] less.prems(3) step b True by simp
    moreover have "s + 5 \<le> 64" using hwfD(1) [OF conjunct1 [OF sub]] by simp
    ultimately show ?thesis using child_prefix_back(1) p i by blast
  next
    case False
    then show ?thesis using less.prems(3) step b hwf_leafD [OF wf b False] by (auto split: if_splits)
  qed
qed

text \<open>The leaves of a trie are its entries, each with the code that finds it.\<close>

definition leaf_entry :: "hnode \<times> nat \<Rightarrow> hslot \<times> obj option" where
  "leaf_entry l = entry (leaf_slot l) (leaf_val l)"

lemma leaf_at:
  assumes "hwf ok h hc s p t" "bit (ht_bitmap t) i" "\<not> HASHTR_SUBTREEP (slot_of t i)"
  shows "leaf_slot (t, rank (ht_bitmap t) i) = slot_of t i"
    "leaf_val (t, rank (ht_bitmap t) i) = val_of t i"
    "code_of h t i = Some (leaf_code h (t, rank (ht_bitmap t) i))"
    "mzHAMT_VAL t (rank (ht_bitmap t) i) = Some (leaf_val (t, rank (ht_bitmap t) i))"
    "mzHAMT_CODE h t (rank (ht_bitmap t) i) = Some (leaf_code h (t, rank (ht_bitmap t) i))"
  using shape_reads [OF hwfD(2) [OF assms(1)] assms(2)] hwf_leafD [OF assms]
  by (auto simp: leaf_slot_def leaf_val_def leaf_code_def slot_of_def)

lemma set_leaves:
  assumes "hwf ok h hc s p t"
  shows "l \<in> set (leaves t 0) \<longleftrightarrow> (\<exists>i. bit (ht_bitmap t) i \<and> l \<in> set (piece t (rank (ht_bitmap t) i)))"
proof -
  have "length (ht_els t) = hamt_popcount (ht_bitmap t)" using hwfD(2) [OF assms] by (simp add: shape_def)
  then show ?thesis using rank_less_pop pos_ex by (fastforce simp: leaves_pieces)
qed

lemma piece_slot: "piece t (rank (ht_bitmap t) i) =
  (if HASHTR_SUBTREEP (slot_of t i) then leaves (the_node (slot_of t i)) 0 else [(t, rank (ht_bitmap t) i)])"
  by (simp add: piece_def slot_of_def)

lemma leaf_found:
  "hwf ok h hc s p t \<Longrightarrow> take_bit s p = p \<Longrightarrow> l \<in> set (leaves t 0) \<Longrightarrow>
   hfind h t s (leaf_code h l) = Some (leaf_entry l) \<and> leaf_ok ok (leaf_slot l) (leaf_val l)
   \<and> mzHAMT_VAL (fst l) (snd l) = Some (leaf_val l) \<and> mzHAMT_CODE h (fst l) (snd l) = Some (leaf_code h l)
   \<and> snd l < length (ht_els (fst l))"
proof (induction "64 - s" arbitrary: s p t rule: less_induct)
  case less
  note wf = less.prems(1) and p = less.prems(2)
  have lt: "64 - (s + 5) < 64 - s" using hwfD(1) [OF wf] by simp
  obtain i where b: "bit (ht_bitmap t) i" and l: "l \<in> set (piece t (rank (ht_bitmap t) i))"
    using less.prems(3) set_leaves [OF wf] by blast
  note i = bit_less_32 [OF b]
  show ?case
  proof (cases "HASHTR_SUBTREEP (slot_of t i)")
    case True
    note sub = hwf_subD [OF wf b True]
    have IH: "hfind h (the_node (slot_of t i)) (s + 5) (leaf_code h l) = Some (leaf_entry l)"
      "leaf_ok ok (leaf_slot l) (leaf_val l) \<and> mzHAMT_VAL (fst l) (snd l) = Some (leaf_val l)
       \<and> mzHAMT_CODE h (fst l) (snd l) = Some (leaf_code h l) \<and> snd l < length (ht_els (fst l))"
      using less.hyps [OF lt conjunct1 [OF sub] child_prefix_proper [OF p i]] l True by (auto simp: piece_slot)
    have "take_bit (s + 5) (leaf_code h l) = child_prefix p s i"
      using hfind_prefix [OF conjunct1 [OF sub] child_prefix_proper [OF p i] IH(1)] .
    moreover have "s + 5 \<le> 64" using hwfD(1) [OF conjunct1 [OF sub]] by simp
    ultimately have "hamt_index (leaf_code h l) s = Some i" using child_prefix_back(2) p i by blast
    then show ?thesis using IH hfind_step [OF wf] b True by simp
  next
    case False
    then have l': "l = (t, rank (ht_bitmap t) i)" using l by (simp add: piece_slot)
    note at = leaf_at [OF wf b False, folded l']
    have "hamt_index (leaf_code h l) s = Some i" using hwf_leafD [OF wf b False] at(3) by simp
    then show ?thesis
      using hfind_step [OF wf, of "leaf_code h l" i] b False at hwf_leafD [OF wf b False] hwfD(2) [OF wf]
        rank_less_pop [OF b] by (simp add: leaf_entry_def l' shape_def)
  qed
qed

lemma found_leaf:
  "hwf ok h hc s p t \<Longrightarrow> hfind h t s c = Some e \<Longrightarrow>
   \<exists>l\<in>set (leaves t 0). leaf_code h l = c \<and> leaf_entry l = e"
proof (induction "64 - s" arbitrary: s p t rule: less_induct)
  case less
  note wf = less.prems(1)
  have lt: "64 - (s + 5) < 64 - s" using hwfD(1) [OF wf] by simp
  obtain i where ix: "hamt_index c s = Some i" using index_ex [OF hwfD(1) [OF wf]] by blast
  note i = hamt_index_less [OF ix] and step = hfind_step [OF wf ix]
  have b: "bit (ht_bitmap t) i" using less.prems(2) step by (auto split: if_splits)
  show ?case
  proof (cases "HASHTR_SUBTREEP (slot_of t i)")
    case True
    then show ?thesis
      using less.hyps [OF lt] hwf_subD [OF wf b True] less.prems(2) step b set_leaves [OF wf]
      by (metis piece_slot)
  next
    case False
    note at = leaf_at [OF wf b False]
    have "leaf_code h (t, rank (ht_bitmap t) i) = c" "leaf_entry (t, rank (ht_bitmap t) i) = e"
      using step less.prems(2) b False at by (auto simp: leaf_entry_def split: if_splits)
    then show ?thesis using set_leaves [OF wf] b False piece_slot by fastforce
  qed
qed

lemma piece_index:
  assumes wf: "hwf ok h hc s p t" and p: "take_bit s p = p" and b: "bit (ht_bitmap t) i"
    and l: "l \<in> set (piece t (rank (ht_bitmap t) i))"
  shows "hamt_index (leaf_code h l) s = Some i"
proof (cases "HASHTR_SUBTREEP (slot_of t i)")
  case True
  note sub = conjunct1 [OF hwf_subD [OF wf b True]] and p' = child_prefix_proper [OF p bit_less_32 [OF b]]
  have "hfind h (the_node (slot_of t i)) (s + 5) (leaf_code h l) = Some (leaf_entry l)"
    using leaf_found [OF sub p'] l True by (auto simp: piece_slot)
  then have "take_bit (s + 5) (leaf_code h l) = child_prefix p s i" by (rule hfind_prefix [OF sub p'])
  then show ?thesis using child_prefix_back(2) [OF _ p bit_less_32 [OF b]] hwfD(1) [OF sub] by simp
next
  case False
  then show ?thesis using l leaf_at(3) [OF wf b False] hwf_leafD [OF wf b False] by (simp add: piece_slot)
qed

lemma distinct_concat_map:
  assumes "\<And>i. i \<in> set is \<Longrightarrow> distinct (map f (g i))" "distinct is"
    and "\<And>i j x y. i \<in> set is \<Longrightarrow> j \<in> set is \<Longrightarrow> x \<in> set (g i) \<Longrightarrow> y \<in> set (g j) \<Longrightarrow> f x = f y \<Longrightarrow> i = j"
  shows "distinct (map f (concat (map g is)))"
  using assms
proof (induction "is")
  case (Cons i "is")
  have "f ` set (g i) \<inter> f ` (\<Union>j\<in>set is. set (g j)) = {}"
    using Cons.prems(2) Cons.prems(3) [of i] by fastforce
  moreover have "distinct (map f (concat (map g is)))"
    by (rule Cons.IH) (use Cons.prems in auto)
  ultimately show ?case using Cons.prems(1) [of i] by (auto simp: distinct_map)
qed simp

lemma leaves_distinct_codes:
  "hwf ok h hc s p t \<Longrightarrow> take_bit s p = p \<Longrightarrow> distinct (map (leaf_code h) (leaves t 0))"
proof (induction "64 - s" arbitrary: s p t rule: less_induct)
  case less
  note wf = less.prems(1) and p = less.prems(2)
  have lt: "64 - (s + 5) < 64 - s" using hwfD(1) [OF wf] by simp
  have bits: "\<exists>i. bit (ht_bitmap t) i \<and> rank (ht_bitmap t) i = q" if "q \<in> set [0..<length (ht_els t)]" for q
    using that hwfD(2) [OF wf] pos_ex by (auto simp: shape_def)
  have one: "distinct (map (leaf_code h) (piece t (rank (ht_bitmap t) i)))" if b: "bit (ht_bitmap t) i" for i
    using less.hyps [OF lt _ child_prefix_proper [OF p bit_less_32 [OF b]]] hwf_subD [OF wf b]
    by (auto simp: piece_slot)
  show ?case
    unfolding leaves_pieces
  proof (rule distinct_concat_map)
    fix q r x y
    assume q: "q \<in> set [0..<length (ht_els t)]" "r \<in> set [0..<length (ht_els t)]"
      and x: "x \<in> set (piece t q)" "y \<in> set (piece t r)" "leaf_code h x = leaf_code h y"
    obtain i j where "bit (ht_bitmap t) i" "rank (ht_bitmap t) i = q" "bit (ht_bitmap t) j" "rank (ht_bitmap t) j = r"
      using bits q by blast
    then show "q = r" using piece_index [OF wf p, of i x] piece_index [OF wf p, of j y] x by auto
  qed (use bits one in \<open>blast, simp\<close>)
qed

section \<open>Entries\<close>

definition cell_entry :: "(obj \<Rightarrow> code) \<Rightarrow> hnode \<times> nat \<Rightarrow> obj \<times> obj option \<times> code" where
  "cell_entry h l = (case leaf_slot l of KeyS k \<Rightarrow> (k, leaf_val l, leaf_code h l))"

definition entries :: "(obj \<Rightarrow> code) \<Rightarrow> hnode \<Rightarrow> (obj \<times> obj option \<times> code) list" where
  "entries h t = map (cell_entry h) (cells t 0)"

lemma length_entries: "counted t \<Longrightarrow> int (length (entries h t)) = ht_count t"
  by (simp add: entries_def length_cells)

text \<open>A trie without collision nodes.\<close>

abbreviation plain :: "(obj \<Rightarrow> code) \<Rightarrow> hnode \<Rightarrow> bool" where
  "plain h t \<equiv> hwf (\<lambda>_. False) h True 0 0 t"

lemma plain_counted: "plain h t \<Longrightarrow> counted t"
  by (rule hwf_counted [of "\<lambda>_. False"]) auto

lemma nocoll_leaf:
  "hwf (\<lambda>_. False) h hc s p t \<Longrightarrow> take_bit s p = p \<Longrightarrow> l \<in> set (leaves t 0) \<Longrightarrow> \<exists>k. leaf_slot l = KeyS k"
  using leaf_found [of "\<lambda>_. False" h hc s p t l] by (auto simp: leaf_ok_def split: hslot.splits)

lemma nocoll_cells:
  assumes wf: "hwf (\<lambda>_. False) h hc s p t" and p: "take_bit s p = p"
  shows "cells t 0 = leaves t 0"
proof -
  have cnt: "counted t" using wf by (rule hwf_counted [rotated]) simp
  have "map (\<lambda>l. case leaf_slot l of NodeS n \<Rightarrow> cells n 0 | _ \<Rightarrow> [l]) (leaves t 0) = map (\<lambda>l. [l]) (leaves t 0)"
    using nocoll_leaf [OF wf p] by (intro map_cong) fastforce+
  from arg_cong [OF this, of concat] show ?thesis
    unfolding cells_expand [OF cnt, of 0] by (simp only: concat_map_singleton map_ident)
qed

lemma plain_leaf: "plain h t \<Longrightarrow> l \<in> set (leaves t 0) \<Longrightarrow> \<exists>k. leaf_slot l = KeyS k"
  by (rule nocoll_leaf) auto

lemma plain_cells: "plain h t \<Longrightarrow> cells t 0 = leaves t 0"
  by (rule nocoll_cells) auto

text \<open>A trie whose codes all fit in one index has its entries in the root node.\<close>

lemma flat_slots:
  assumes wf: "plain h t" and flat: "\<And>d. hfind h t 0 d \<noteq> None \<Longrightarrow> take_bit 5 d = d" and b: "bit (ht_bitmap t) i"
  shows "\<not> HASHTR_SUBTREEP (slot_of t i)"
proof
  assume sub: "HASHTR_SUBTREEP (slot_of t i)"
  obtain m where m: "slot_of t i = NodeS m" "hwf (\<lambda>_. False) h True 5 (child_prefix 0 0 i) m" "compact m"
    using hwf_sub [OF wf b sub] by auto
  have p: "take_bit 5 (child_prefix 0 0 i) = child_prefix 0 0 i"
    using child_prefix_proper [of 0 0 i] bit_less_32 [OF b] by simp
  have cnt: "counted m" using m(2) by (rule hwf_counted [rotated]) simp
  have one: "leaf_code h l = child_prefix 0 0 i" if l: "l \<in> set (leaves m 0)" for l
  proof -
    have "l \<in> set (leaves t 0)" using set_leaves [OF wf] b l sub m(1) piece_slot by fastforce
    then have "take_bit 5 (leaf_code h l) = leaf_code h l" using flat leaf_found [OF wf] by fastforce
    moreover have "take_bit 5 (leaf_code h l) = child_prefix 0 0 i"
      using leaf_found [OF m(2) p l] hfind_prefix [OF m(2) p] by blast
    ultimately show ?thesis by simp
  qed
  have "2 \<le> length (leaves m 0)"
    using length_cells [OF cnt] compact_count [OF m(2,3)] nocoll_cells [OF m(2) p] by simp
  then obtain a b ls where "leaves m 0 = a # b # ls" by (cases "leaves m 0"; cases "tl (leaves m 0)") auto
  then show False using leaves_distinct_codes [OF m(2) p] one by auto
qed

lemma plain_entries: "plain h t \<Longrightarrow> (k, v, c) \<in> set (entries h t) \<longleftrightarrow> hfind h t 0 c = Some (KeyS k, v)"
proof
  assume wf: "plain h t" and "(k, v, c) \<in> set (entries h t)"
  then obtain l where l: "l \<in> set (leaves t 0)" "cell_entry h l = (k, v, c)"
    by (auto simp: entries_def plain_cells)
  moreover obtain k' where "leaf_slot l = KeyS k'" using plain_leaf [OF wf l(1)] by blast
  ultimately show "hfind h t 0 c = Some (KeyS k, v)"
    using leaf_found [OF wf _ l(1)] by (auto simp: cell_entry_def leaf_entry_def entry_def)
next
  assume wf: "plain h t" and "hfind h t 0 c = Some (KeyS k, v)"
  then obtain l where "l \<in> set (leaves t 0)" "leaf_code h l = c" "leaf_entry l = (KeyS k, v)"
    using found_leaf [OF wf] by blast
  then show "(k, v, c) \<in> set (entries h t)"
    by (auto simp: entries_def plain_cells [OF wf] cell_entry_def leaf_entry_def entry_def image_iff
        intro!: bexI [of _ l])
qed

lemma plain_distinct: "plain h t \<Longrightarrow> distinct (map (\<lambda>(k, v, c). c) (entries h t))"
proof -
  assume wf: "plain h t"
  have "map (\<lambda>(k, v, c). c) (entries h t) = map (leaf_code h) (leaves t 0)"
    using plain_leaf [OF wf] by (fastforce simp: entries_def plain_cells [OF wf] cell_entry_def)
  then show ?thesis using leaves_distinct_codes [OF wf] by simp
qed

lemma cells_readable:
  assumes "hwf ok h hc 0 0 t" and ok: "\<And>n. ok n \<Longrightarrow> plain h n" and l: "l \<in> set (cells t 0)"
  shows "\<exists>k. rd (ht_els (fst l)) (snd l) = Some (KeyS k) \<and> leaf_slot l = KeyS k
    \<and> mzHAMT_VAL (fst l) (snd l) = Some (leaf_val l) \<and> mzHAMT_CODE h (fst l) (snd l) = Some (leaf_code h l)"
proof -
  have cnt: "counted t" using hwf_counted [OF plain_counted [OF ok] assms(1)] by blast
  obtain m where m: "m \<in> set (leaves t 0)" "l \<in> set (case leaf_slot m of NodeS n \<Rightarrow> cells n 0 | _ \<Rightarrow> [m])"
    using l cells_expand [OF cnt] by auto
  note f = leaf_found [OF assms(1) _ m(1)]
  have "\<exists>n ok' hc. hwf ok' h hc 0 0 n \<and> l \<in> set (leaves n 0) \<and> (\<exists>k. leaf_slot l = KeyS k)"
  proof (cases "leaf_slot m")
    case (NodeS n)
    then have "plain h n" using f ok by (simp add: leaf_ok_def)
    then show ?thesis using m(2) NodeS plain_cells plain_leaf by auto
  qed (use f m assms(1) in \<open>auto simp: leaf_ok_def\<close>)
  then show ?thesis using leaf_found [of _ h _ 0 0 _ l] by (auto simp: leaf_slot_def rd_Some split_beta)
qed

lemma at_index_entries:
  assumes "hwf ok h hc 0 0 t" "\<And>n. ok n \<Longrightarrow> plain h n" "0 \<le> pos" "pos < ht_count t"
  shows "hamt_at_index h t pos = Some (entries h t ! nat pos)"
proof -
  have cnt: "counted t" using hwf_counted [OF plain_counted [OF assms(2)] assms(1)] by blast
  have pos: "nat pos < length (cells t 0)" using length_cells [OF cnt] assms(3,4) by linarith
  obtain n i where c: "cells t 0 ! nat pos = (n, i)" by (meson surj_pair)
  then have "(n, i) \<in> set (cells t 0)" using pos by (metis nth_mem)
  from cells_readable [OF assms(1,2) this] obtain k where
    "rd (ht_els n) i = Some (KeyS k)" "leaf_slot (n, i) = KeyS k" "mzHAMT_VAL n i = Some (leaf_val (n, i))"
    "mzHAMT_CODE h n i = Some (leaf_code h (n, i))" by auto
  then show ?thesis
    using at_index_loop_cells [OF cnt assms(3) pos] pos c
    by (simp add: hamt_at_index_def entries_def cell_entry_def)
qed


section \<open>Unused codes\<close>

lemma rank_full: "(\<And>j. j < i \<Longrightarrow> bit bm j) \<Longrightarrow> rank bm i = i"
  by (induction i) (auto simp: rank_Suc)

text \<open>What the scan of a full node returns, once it has seen a subtree.\<close>

lemma ffc_scan_acc:
  assumes "\<And>i. i \<in> set is \<Longrightarrow> i < length (ht_els t) \<and> 0 \<le> weight (ht_els t ! i)"
    and "0 \<le> mc" "mc = weight (ht_els t ! mp)"
  shows "case ffc_scan t is mc mp of
      None \<Rightarrow> False
    | Some (Inl i) \<Rightarrow> i \<in> set is \<and> \<not> HASHTR_SUBTREEP (ht_els t ! i)
    | Some (Inr m) \<Rightarrow> m \<in> insert mp (set is) \<and> weight (ht_els t ! m) \<le> mc
        \<and> (\<forall>i\<in>set is. HASHTR_SUBTREEP (ht_els t ! i) \<and> weight (ht_els t ! m) \<le> weight (ht_els t ! i))"
  using assms
proof (induction "is" arbitrary: mc mp)
  case (Cons i "is")
  have rd: "rd (ht_els t) i = Some (ht_els t ! i)" using Cons.prems(1) [of i] by (simp add: rd_Some)
  have lt: "\<And>j. j \<in> set is \<Longrightarrow> j < length (ht_els t) \<and> 0 \<le> weight (ht_els t ! j)" using Cons.prems(1) by simp
  show ?case
  proof (cases "HASHTR_SUBTREEP (ht_els t ! i)")
    case True
    then obtain n where n: "ht_els t ! i = NodeS n" by (auto elim: HASHTR_SUBTREEP.elims)
    note IH = Cons.IH [OF lt, of "ht_count n" i] Cons.IH [OF lt Cons.prems(2,3)]
    show ?thesis
      using IH True n rd Cons.prems(1) [of i] Cons.prems(2)
      by (cases "ht_count n < mc") (fastforce split: option.splits sum.splits)+
  qed (simp add: rd)
qed simp

lemma ffc_scan_spec:
  assumes "\<And>i. i \<in> set is \<Longrightarrow> i < length (ht_els t) \<and> 0 \<le> weight (ht_els t ! i)" "is \<noteq> []"
  obtains i where "ffc_scan t is (-1) mp = Some (Inl i)" "i \<in> set is" "\<not> HASHTR_SUBTREEP (ht_els t ! i)"
  | m where "ffc_scan t is (-1) mp = Some (Inr m)" "m \<in> set is" "HASHTR_SUBTREEP (ht_els t ! m)"
      "\<And>i. i \<in> set is \<Longrightarrow> weight (ht_els t ! m) \<le> weight (ht_els t ! i)"
proof -
  obtain i js where js: "is = i # js" using assms(2) by (cases "is") auto
  have rd: "rd (ht_els t) i = Some (ht_els t ! i)" using assms(1) [of i] js by (simp add: rd_Some)
  show thesis
  proof (cases "HASHTR_SUBTREEP (ht_els t ! i)")
    case True
    then obtain n where n: "ht_els t ! i = NodeS n" by (auto elim: HASHTR_SUBTREEP.elims)
    have "case ffc_scan t is (-1) mp of
      None \<Rightarrow> False
    | Some (Inl j) \<Rightarrow> j \<in> set is \<and> \<not> HASHTR_SUBTREEP (ht_els t ! j)
    | Some (Inr m) \<Rightarrow> m \<in> set is \<and> HASHTR_SUBTREEP (ht_els t ! m) \<and> (\<forall>i\<in>set is. weight (ht_els t ! m) \<le> weight (ht_els t ! i))"
      using ffc_scan_acc [of js t "ht_count n" i] assms(1) True n rd
      by (fastforce simp: js split: option.splits sum.splits)
    then show thesis using that by (auto split: option.splits sum.splits)
  next
    case False
    then show thesis using that(1) [of i] rd by (simp add: js)
  qed
qed

lemma bit_index_bound: "i < 32 \<Longrightarrow> bit (word_of_nat i :: 'a::len word) n \<Longrightarrow> n < 5"
proof (rule ccontr)
  assume "i < 32" "bit (word_of_nat i :: 'a word) n" "\<not> n < 5"
  then have "take_bit 5 i = i" "bit i n" by (auto simp: take_bit_nat_eq_self_iff bit_simps)
  then show False using \<open>\<not> n < 5\<close> by (metis bit_take_bit_iff)
qed

lemma child_prefix_32:
  fixes base :: "32 word"
  assumes s: "s + 5 \<le> 30" and base: "unsigned base = (p :: code)" and p: "take_bit s p = p" and i: "i < 32"
  shows "unsigned (push_bit s (word_of_nat i) + base) = child_prefix p s i"
    "signed (push_bit s (word_of_nat i) + base) = child_prefix p s i"
proof -
  let ?i = "word_of_nat i :: 32 word"
  have lo: "bit base n \<Longrightarrow> n < s" for n
    using p bit_take_bit_iff [of s p n] bit_imp_le_length [of base n] by (auto simp: base [symmetric] bit_simps)
  have "push_bit s ?i AND base = 0"
    by (rule bit_word_eqI) (use lo in \<open>force simp: bit_simps\<close>)
  then have sum: "push_bit s ?i + base = push_bit s ?i OR base" by (rule disjunctive_add_eq_or)
  have same: "bit (word_of_nat i :: code) m = bit ?i m" if "m < 32" for m
    using that by (simp add: bit_simps)
  show u: "unsigned (push_bit s ?i + base) = child_prefix p s i"
    unfolding sum child_prefix_def base [symmetric]
    by (rule bit_word_eqI) (use s bit_index_bound [OF i, where 'a = 64] bit_index_bound [OF i, where 'a = 32] lo
      in \<open>fastforce simp: bit_simps same\<close>)
  have "\<not> bit (push_bit s ?i + base) 31"
    unfolding sum using s lo [of 31] bit_index_bound [OF i, of "31 - s", where 'a = 32] by (auto simp: bit_simps)
  then have "\<not> bit (push_bit s ?i + base) n" if "31 \<le> n" for n
    using that bit_imp_le_length [of "push_bit s ?i + base" n] by (cases "n = 31") auto
  then show "signed (push_bit s ?i + base) = child_prefix p s i"
    unfolding u [symmetric] by (intro bit_word_eqI) (auto simp: bit_simps min_def not_less)
qed

lemma plus_next_level:
  assumes "take_bit (s + 5) c = c" "s + 5 < 32"
  shows "take_bit (s + 5) (c + unsigned (push_bit (s + 5) (1 :: 32 word))) = (c :: code)"
    "c + unsigned (push_bit (s + 5) (1 :: 32 word)) \<noteq> c"
proof -
  have b: "bit c n \<Longrightarrow> n < s + 5" for n using assms(1) by (metis bit_take_bit_iff)
  have one: "(unsigned (push_bit (s + 5) (1 :: 32 word)) :: code) = push_bit (s + 5) 1"
    using assms(2) by (intro bit_word_eqI) (auto simp: bit_simps)
  have "c AND push_bit (s + 5) 1 = 0"
    by (rule bit_word_eqI) (use b in \<open>force simp: bit_simps\<close>)
  then have sum: "c + push_bit (s + 5) 1 = c OR push_bit (s + 5) 1" by (rule disjunctive_add_eq_or)
  show "take_bit (s + 5) (c + unsigned (push_bit (s + 5) (1 :: 32 word))) = c"
    unfolding one sum by (rule bit_word_eqI) (use b in \<open>force simp: bit_simps\<close>)
  have "bit (c OR push_bit (s + 5) 1) (s + 5)" using assms(2) by (simp add: bit_simps)
  then show "c + unsigned (push_bit (s + 5) (1 :: 32 word)) \<noteq> c" unfolding one sum using b by fastforce
qed

lemma take_child_prefix:
  assumes "take_bit s p = p" "i < 32" "s + 5 \<le> 64"
  shows "take_bit s (child_prefix p s i) = p" "hamt_index (child_prefix p s i) s = Some i"
  using child_prefix_back [of s p i "child_prefix p s i"] child_prefix_proper assms by simp_all

lemma find_free_slot:
  assumes "shape t" "List.find (\<lambda>i. ht_bitmap t AND push_bit i 1 = 0) [0..<mzHAMT_WORD_SIZE] = r"
  shows "case r of Some i \<Rightarrow> i < 32 \<and> \<not> bit (ht_bitmap t) i \<and> length (ht_els t) < 32
    | None \<Rightarrow> (\<forall>i<32. bit (ht_bitmap t) i) \<and> length (ht_els t) = 32 \<and> (\<forall>i<32. rank (ht_bitmap t) i = i)"
proof (cases r)
  case None
  then have "\<forall>i<32. bit (ht_bitmap t) i"
    using assms(2) and_hamt_bit by (auto simp: find_None_iff mzHAMT_WORD_SIZE_def mzHAMT_LOG_WORD_SIZE_def hamt_bit_def)
  moreover from this have "\<forall>i\<le>32. rank (ht_bitmap t) i = i" by (auto intro: rank_full)
  ultimately show ?thesis using assms(1) None by (simp add: shape_def hamt_popcount_rank)
next
  case (Some i)
  then have i: "i < 32" "\<not> bit (ht_bitmap t) i"
    using assms(2) and_hamt_bit [of i "ht_bitmap t"] by (auto simp: find_Some_iff mzHAMT_WORD_SIZE_def mzHAMT_LOG_WORD_SIZE_def hamt_bit_def)
  have "rank (ht_bitmap t) 32 \<noteq> 32"
    using i length_filter_less [of i "[0..<32]" "bit (ht_bitmap t)"] by (simp add: rank_def)
  moreover have "rank (ht_bitmap t) 32 \<le> 32" using length_filter_le [of _ "[0..<32]"] by (simp add: rank_def)
  ultimately show ?thesis using assms(1) i Some by (simp add: shape_def hamt_popcount_rank)
qed

lemma sum_list_min:
  fixes f :: "'a \<Rightarrow> int"
  shows "(\<And>x. x \<in> set xs \<Longrightarrow> m \<le> f x) \<Longrightarrow> int (length xs) * m \<le> sum_list (map f xs)"
  by (induction xs) (auto simp: distrib_right intro: add_mono)

lemma hwf_weights:
  assumes wf: "hwf ok h hc s p t" and x: "x \<in> set (ht_els t)"
  shows "1 \<le> weight x"
  using slots_positions [OF hwfD(2) [OF wf] x] slot_weight_pos [OF wf] hwf_subD [OF wf] compact_count by blast

text \<open>
  A code that is not in use, at every depth the loop can reach: while a node at level \<open>s\<close> is full,
  its smallest subtree has at most a 32nd of its keys.
\<close>

lemma hamt_find_free_code_spec:
  "hwf ok h True s p t \<Longrightarrow> take_bit s p = p \<Longrightarrow> unsigned base = p \<Longrightarrow>
   s \<le> 25 \<Longrightarrow> ht_count t * 2 ^ s < 2 ^ 30 \<Longrightarrow> s mod 5 = 0 \<Longrightarrow>
   \<exists>c. hamt_find_free_code h t base s = Some c \<and> hfind h t s c = None \<and> take_bit s c = p
     \<and> (length (ht_els t) < 32 \<longrightarrow> take_bit (s + 5) c = c)"
proof (induction "32 - s" arbitrary: s p t base rule: less_induct)
  case less
  note wf = less.prems(1) and p = less.prems(2) and base = less.prems(3) and s = less.prems(4)
  note code = child_prefix_32 [OF _ base p] and tk = take_child_prefix [OF p]
  note simps = hamt_find_free_code.simps [of h t base s] mzHAMT_LOG_WORD_SIZE_def
  have s': "s + 5 \<le> 30" "s + 5 \<le> 64" "\<not> 32 \<le> s + 5" "s + 5 < 32" using s by auto
  define r where "r = List.find (\<lambda>i. ht_bitmap t AND push_bit i 1 = 0) [0..<mzHAMT_WORD_SIZE]"
  note free = find_free_slot [OF hwfD(2) [OF wf] r_def [symmetric]]
  show ?case
  proof (cases r)
    case (Some i)
    then have i: "i < 32" "\<not> bit (ht_bitmap t) i" using free by auto
    have "hfind h t s (child_prefix p s i) = None" using hfind_step [OF wf tk(2) [OF i(1) s'(2)]] i(2) by simp
    then show ?thesis
      using s'(3) Some code(2) [OF s'(1) i(1)] tk(1) [OF i(1) s'(2)] child_prefix_proper [OF p i(1)]
      by (simp del: push_bit_of_1 add: simps r_def [symmetric])
  next
    case None
    then have bits: "\<And>i. i < 32 \<Longrightarrow> bit (ht_bitmap t) i" and len: "length (ht_els t) = 32"
      and slot: "\<And>i. i < 32 \<Longrightarrow> slot_of t i = ht_els t ! i" and rk: "\<And>i. i < 32 \<Longrightarrow> rank (ht_bitmap t) i = i"
      using free by (auto simp: slot_of_def)
    have w: "\<And>i. i < 32 \<Longrightarrow> 1 \<le> weight (ht_els t ! i)" using hwf_weights [OF wf] len by simp
    have is32: "\<And>i. i \<in> set (rev [0..<mzHAMT_WORD_SIZE]) \<Longrightarrow> i < length (ht_els t) \<and> 0 \<le> weight (ht_els t ! i)"
      "rev [0..<mzHAMT_WORD_SIZE] \<noteq> []"
      using len w by (force simp: mzHAMT_WORD_SIZE_def mzHAMT_LOG_WORD_SIZE_def)+
    show ?thesis
    proof (rule ffc_scan_spec [OF is32, of mzHAMT_WORD_SIZE])
      fix i assume 1: "ffc_scan t (rev [0..<mzHAMT_WORD_SIZE]) (-1) mzHAMT_WORD_SIZE = Some (Inl i)"
        "i \<in> set (rev [0..<mzHAMT_WORD_SIZE])" "\<not> HASHTR_SUBTREEP (ht_els t ! i)"
      have i: "i < 32" using 1(2) by (simp add: mzHAMT_WORD_SIZE_def mzHAMT_LOG_WORD_SIZE_def)
      define c where "c = child_prefix p s i"
      have lf: "\<not> HASHTR_SUBTREEP (slot_of t i)" using 1(3) slot i by simp
      obtain cd where cd: "code_of h t i = Some cd" using hwf_leafD [OF wf bits [OF i] lf] by blast
      have rdc: "mzHAMT_CODE h t i = Some cd" using shape_reads(3) [OF hwfD(2) [OF wf] bits [OF i]] rk [OF i] cd by simp
      define c' where "c' = (if cd = c then c + unsigned (push_bit (s + 5) (1 :: 32 word)) else c)"
      have c': "take_bit (s + 5) c' = c" "c' \<noteq> cd"
        using plus_next_level [of s c] child_prefix_proper [OF p i] s'(4) by (auto simp: c'_def c_def)
      have ix: "take_bit s c' = p" "hamt_index c' s = Some i"
        using child_prefix_back [OF s'(2) p i] c'(1) by (auto simp: c_def)
      have "hfind h t s c' = None" using hfind_step [OF wf ix(2)] lf cd c'(2) by simp
      moreover have "hamt_find_free_code h t base s = Some c'"
        using s'(3) None 1(1) rdc code(1) [OF s'(1) i, folded c_def]
        by (simp del: push_bit_of_1 add: simps r_def [symmetric] c'_def Let_def)
      ultimately show ?thesis using ix(1) len by simp
    next
      fix m assume 2: "ffc_scan t (rev [0..<mzHAMT_WORD_SIZE]) (-1) mzHAMT_WORD_SIZE = Some (Inr m)"
        "m \<in> set (rev [0..<mzHAMT_WORD_SIZE])" "HASHTR_SUBTREEP (ht_els t ! m)"
        "\<And>i. i \<in> set (rev [0..<mzHAMT_WORD_SIZE]) \<Longrightarrow> weight (ht_els t ! m) \<le> weight (ht_els t ! i)"
      have m: "m < 32" using 2(2) by (simp add: mzHAMT_WORD_SIZE_def mzHAMT_LOG_WORD_SIZE_def)
      obtain n where n: "slot_of t m = NodeS n" "hwf ok h True (s + 5) (child_prefix p s m) n" "compact n"
        using hwf_sub [OF wf bits [OF m]] 2(3) slot [OF m] by metis
      have "int (length (ht_els t)) * weight (ht_els t ! m) \<le> ht_count t"
        using sum_list_min [of "ht_els t" "weight (ht_els t ! m)" weight] 2(4) len hwfD(4) [OF wf]
        by (auto simp: in_set_conv_nth mzHAMT_WORD_SIZE_def mzHAMT_LOG_WORD_SIZE_def)
      then have le: "32 * ht_count n \<le> ht_count t" using n(1) slot [OF m] len by simp
      have cnt: "ht_count n * 2 ^ (s + 5) < 2 ^ 30"
      proof -
        have "32 * ht_count n * 2 ^ s \<le> ht_count t * 2 ^ s" using le by (rule mult_right_mono) simp
        also note less.prems(5)
        finally show ?thesis by (simp only: power_add mult_ac) simp
      qed
      have s25: "s + 5 \<le> 25"
      proof (rule ccontr)
        assume "\<not> s + 5 \<le> 25"
        then have "s = 25" using s less.prems(6) by presburger
        then show False using less.prems(5) le compact_count [OF n(2,3)] by simp
      qed
      have lt: "32 - (s + 5) < 32 - s" and s5: "(s + 5) mod 5 = 0" using s less.prems(6) by auto
      have "\<exists>c. hamt_find_free_code h n (push_bit s (word_of_nat m) + base) (s + 5) = Some c
          \<and> hfind h n (s + 5) c = None \<and> take_bit (s + 5) c = child_prefix p s m"
        using less.hyps [OF lt n(2) child_prefix_proper [OF p m] code(1) [OF s'(1) m] s25 cnt s5] by blast
      then obtain c where c: "hamt_find_free_code h n (push_bit s (word_of_nat m) + base) (s + 5) = Some c"
        "hfind h n (s + 5) c = None" "take_bit (s + 5) c = child_prefix p s m" by blast
      have ix: "take_bit s c = p" "hamt_index c s = Some m" using child_prefix_back [OF s'(2) p m c(3)] .
      have "hfind h t s c = None" using hfind_step [OF wf ix(2)] n(1) 2(3) slot [OF m] c(2) by simp
      moreover have "rd (ht_els t) m = Some (NodeS n)" using n(1) slot [OF m] m len by (simp add: rd_Some)
      ultimately show ?thesis
        using s'(3) None 2(1) c(1) ix(1) len by (simp del: push_bit_of_1 add: simps r_def [symmetric])
    qed
  qed
qed


end
