(* ===== verification/HashTreeTable.thy ===== *)
theory HashTreeTable
  imports HashTreeProps
begin

text \<open>
  The immutable hash tables as finite maps. The laws that the key comparison and the key
  hash of a table have to obey are the locale \<open>key_laws\<close>; under them every operation of
  \<open>hash.c\<close> on immutable tables keeps the table well formed, is memory safe, and acts as a
  lookup, an update or a removal of a map whose keys are compared by \<open>same\<close>.
\<close>

section \<open>Keys, collision nodes, tables\<close>

definition same :: "key_env \<Rightarrow> htype \<Rightarrow> obj \<Rightarrow> obj \<Rightarrow> bool" where
  "same env ty k k' \<longleftrightarrow> key_same env ty k k' None"

definition table_type :: "htype \<Rightarrow> bool" where
  "table_type ty \<longleftrightarrow> ty = scheme_eq_hash_tree_type \<or> ty = scheme_hash_tree_type \<or> ty = scheme_eqv_hash_tree_type"

text \<open>A collision node for the code \<open>c\<close>: all its keys have that code, and no two are the same key.\<close>

definition coll_ok :: "key_env \<Rightarrow> htype \<Rightarrow> code \<Rightarrow> hnode \<Rightarrow> bool" where
  "coll_ok env ty c n \<longleftrightarrow> plain (ptr_to_long env) n
     \<and> (\<forall>d k v. hfind (ptr_to_long env) n 0 d = Some (KeyS k, v) \<longrightarrow> tree_hash env ty k = c)
     \<and> (\<forall>d k v d' k' v'. hfind (ptr_to_long env) n 0 d = Some (KeyS k, v) \<longrightarrow>
          hfind (ptr_to_long env) n 0 d' = Some (KeyS k', v') \<longrightarrow> same env ty k k' \<longrightarrow> d = d')
     \<and> (ty = scheme_eq_hash_tree_type \<longrightarrow> (\<forall>d. hfind (ptr_to_long env) n 0 d \<noteq> None \<longrightarrow> take_bit 5 d = d))"

definition coll_any :: "key_env \<Rightarrow> htype \<Rightarrow> hnode \<Rightarrow> bool" where
  "coll_any env ty n \<longleftrightarrow> (\<exists>c. coll_ok env ty c n)"

text \<open>An entry that may be stored under the code \<open>c\<close>.\<close>

definition slot_fits :: "key_env \<Rightarrow> htype \<Rightarrow> code \<Rightarrow> hslot \<Rightarrow> bool" where
  "slot_fits env ty c x \<longleftrightarrow> (case x of NullS \<Rightarrow> False | KeyS k \<Rightarrow> tree_hash env ty k = c
     | NodeS n \<Rightarrow> coll_ok env ty c n \<and> ht_type n = scheme_hash_tree_collision_type \<and> 2 \<le> ht_count n)"

definition tree_wf :: "key_env \<Rightarrow> hnode \<Rightarrow> bool" where
  "tree_wf env t \<longleftrightarrow> table_type (ht_type t)
     \<and> hwf (coll_any env (ht_type t)) (ptr_to_long env) (ht_type t \<noteq> scheme_eq_hash_tree_type) 0 0 t
     \<and> (\<forall>c k v. hfind (ptr_to_long env) t 0 c = Some (KeyS k, v) \<longrightarrow> tree_hash env (ht_type t) k = c)
     \<and> (\<forall>c n v. hfind (ptr_to_long env) t 0 c = Some (NodeS n, v) \<longrightarrow> coll_ok env (ht_type t) c n)"

section \<open>Lookup as a function on entries\<close>

definition coll_lookup :: "key_env \<Rightarrow> htype \<Rightarrow> hnode \<Rightarrow> obj \<Rightarrow> obj option" where
  "coll_lookup env ty n key =
     (case List.find (\<lambda>(k, v, c). same env ty key k) (entries (ptr_to_long env) n) of
        None \<Rightarrow> None | Some (k, v, c) \<Rightarrow> v)"

definition slot_lookup :: "key_env \<Rightarrow> htype \<Rightarrow> (hslot \<times> obj option) option \<Rightarrow> obj \<Rightarrow> obj option" where
  "slot_lookup env ty e key =
     (case e of
        Some (KeyS k, v) \<Rightarrow> if same env ty key k then v else None
      | Some (NodeS n, v) \<Rightarrow> coll_lookup env ty n key
      | _ \<Rightarrow> None)"

definition tree_lookup :: "key_env \<Rightarrow> hnode \<Rightarrow> obj \<Rightarrow> obj option" where
  "tree_lookup env t key =
     slot_lookup env (ht_type t) (hfind (ptr_to_long env) t 0 (tree_hash env (ht_type t) key)) key"

text \<open>The number of keys of a table that have the same code as \<open>key\<close>.\<close>

definition crowd :: "key_env \<Rightarrow> hnode \<Rightarrow> obj \<Rightarrow> nat" where
  "crowd env t key =
     length (filter (\<lambda>(k, v, c). tree_hash env (ht_type t) k = tree_hash env (ht_type t) key)
       (entries (ptr_to_long env) t))"

text \<open>What an update with \<open>val = Some v\<close>, or a removal with \<open>val = None\<close>, has to achieve.\<close>

definition updated :: "key_env \<Rightarrow> hnode \<Rightarrow> obj \<Rightarrow> obj option \<Rightarrow> hnode \<Rightarrow> bool" where
  "updated env t key val t' \<longleftrightarrow> tree_wf env t' \<and> ht_type t' = ht_type t
     \<and> (\<forall>key'. tree_lookup env t' key' = (if same env (ht_type t) key key' then val else tree_lookup env t key'))
     \<and> ht_count t' = ht_count t + of_bool (val \<noteq> None) - of_bool (tree_lookup env t key \<noteq> None)"

lemma hfind_leaf_ok:
  assumes wf: "hwf ok h hc s p t" and p: "take_bit s p = p" and f: "hfind h t s c = Some (x, v)"
  shows "\<exists>w. leaf_ok ok x w \<and> (x, v) = entry x w"
proof -
  obtain l where l: "l \<in> set (leaves t 0)" "leaf_entry l = (x, v)" using found_leaf [OF wf f] by blast
  have "leaf_ok ok (leaf_slot l) (leaf_val l)" using leaf_found [OF wf p l(1)] by blast
  moreover have "leaf_slot l = x" using l(2) by (simp add: leaf_entry_def entry_def)
  ultimately show ?thesis using l(2) by (auto simp: leaf_entry_def)
qed

lemma hfind_kinds:
  assumes "hwf ok h hc s p t" "take_bit s p = p"
  shows "hfind h t s c = Some (KeyS k, v) \<Longrightarrow> v \<noteq> None"
    "hfind h t s c = Some (NodeS n, v) \<Longrightarrow>
       v = None \<and> ht_type n = scheme_hash_tree_collision_type \<and> 2 \<le> ht_count n \<and> ok n"
    "hfind h t s c \<noteq> Some (NullS, v)"
  using hfind_leaf_ok [OF assms] by (fastforce simp: leaf_ok_def entry_def)+

lemmas hfind_val = hfind_kinds(1) and hfind_node = hfind_kinds(2) and hfind_NullS = hfind_kinds(3)

lemma find_hit: "List.find P xs = Some x \<Longrightarrow> x \<in> set xs \<and> P x"
  by (induction xs) (auto split: if_splits)

lemma coll_lookup_iff:
  assumes "plain (ptr_to_long env) n"
    and "\<And>d k v d' k' v'. hfind (ptr_to_long env) n 0 d = Some (KeyS k, v) \<Longrightarrow>
          hfind (ptr_to_long env) n 0 d' = Some (KeyS k', v') \<Longrightarrow> same env ty key k \<Longrightarrow> same env ty key k' \<Longrightarrow> d = d'"
  shows "coll_lookup env ty n key = Some v \<longleftrightarrow>
    (\<exists>d k. hfind (ptr_to_long env) n 0 d = Some (KeyS k, Some v) \<and> same env ty key k)"
proof
  assume "coll_lookup env ty n key = Some v"
  then obtain k c where "List.find (\<lambda>(k, v, c). same env ty key k) (entries (ptr_to_long env) n) = Some (k, Some v, c)"
    by (auto simp: coll_lookup_def split: option.splits prod.splits)
  from find_hit [OF this] show "\<exists>d k. hfind (ptr_to_long env) n 0 d = Some (KeyS k, Some v) \<and> same env ty key k"
    using plain_entries [OF assms(1)] by auto
next
  assume "\<exists>d k. hfind (ptr_to_long env) n 0 d = Some (KeyS k, Some v) \<and> same env ty key k"
  then obtain d k where d: "hfind (ptr_to_long env) n 0 d = Some (KeyS k, Some v)" "same env ty key k" by blast
  then have "(k, Some v, d) \<in> set (entries (ptr_to_long env) n)" using plain_entries [OF assms(1)] by blast
  then obtain k' v' d' where f: "List.find (\<lambda>(k, v, c). same env ty key k) (entries (ptr_to_long env) n) = Some (k', v', d')"
    using d(2) by (cases "List.find (\<lambda>(k, v, c). same env ty key k) (entries (ptr_to_long env) n)") (auto simp: find_None_iff)
  have "hfind (ptr_to_long env) n 0 d' = Some (KeyS k', v')" "same env ty key k'"
    using find_hit [OF f] plain_entries [OF assms(1)] by auto
  then show "coll_lookup env ty n key = Some v" using f d assms(2) [OF d(1)] by (auto simp: coll_lookup_def)
qed

section \<open>Searching a collision node\<close>

lemma linear_search_from:
  assumes wf: "plain (ptr_to_long env) n"
  shows "i \<le> length (entries (ptr_to_long env) n) \<Longrightarrow>
    (\<forall>j\<in>{i..<length (entries (ptr_to_long env) n)}. \<not> same env ty key (fst (entries (ptr_to_long env) n ! j)))
      \<and> hamt_linear_search_from env n ty key None (int i) = Some None
    \<or> (\<exists>j\<in>{i..<length (entries (ptr_to_long env) n)}. \<exists>k v c. entries (ptr_to_long env) n ! j = (k, Some v, c) \<and> same env ty key k
        \<and> hamt_linear_search_from env n ty key None (int i) = Some (Some (v, int j, c)))"
proof (induction "length (entries (ptr_to_long env) n) - i" arbitrary: i)
  case 0
  then show ?case using length_entries [OF plain_counted [OF wf], of "ptr_to_long env"]
    by (subst hamt_linear_search_from.simps) simp
next
  case (Suc m)
  let ?es = "entries (ptr_to_long env) n"
  have i: "i < length ?es" using Suc.hyps(2) by simp
  have cnt: "int (length ?es) = ht_count n" by (rule length_entries [OF plain_counted [OF wf]])
  obtain k v c where e: "?es ! i = (k, v, c)" by (metis prod_cases3)
  have at: "hamt_at_index (ptr_to_long env) n (int i) = Some (k, v, c)"
    using at_index_entries [OF wf _, of "int i"] i cnt e by simp
  have "(k, v, c) \<in> set ?es" using i e by (metis nth_mem)
  then have v: "v \<noteq> None" using plain_entries [OF wf] hfind_val [OF wf] by auto
  show ?case
  proof (cases "same env ty key k")
    case True
    then show ?thesis using at v e i cnt
      by (intro disjI2 bexI [of _ i]) (auto simp: hamt_linear_search_from.simps [of _ _ _ _ _ "int i"] same_def)
  next
    case False
    have "hamt_linear_search_from env n ty key None (int i) = hamt_linear_search_from env n ty key None (int (Suc i))"
      using at False i cnt by (subst hamt_linear_search_from.simps) (simp add: same_def add.commute)
    moreover have "{i..<length ?es} = insert i {Suc i..<length ?es}" using i by auto
    ultimately show ?thesis using Suc.hyps(1) [of "Suc i"] Suc.hyps(2) i False e by auto
  qed
qed

lemma linear_search_cases:
  assumes wf: "plain (ptr_to_long env) n"
  obtains (missing) "hamt_linear_search env n ty key None = Some None"
    "\<And>d k v. hfind (ptr_to_long env) n 0 d = Some (KeyS k, v) \<Longrightarrow> \<not> same env ty key k"
  | (found) j k v c where "hamt_linear_search env n ty key None = Some (Some (v, int j, c))"
    "j < length (entries (ptr_to_long env) n)" "entries (ptr_to_long env) n ! j = (k, Some v, c)"
    "hfind (ptr_to_long env) n 0 c = Some (KeyS k, Some v)" "same env ty key k"
proof -
  let ?es = "entries (ptr_to_long env) n"
  have "(\<forall>j<length ?es. \<not> same env ty key (fst (?es ! j))) \<and> hamt_linear_search env n ty key None = Some None
    \<or> (\<exists>j<length ?es. \<exists>k v c. ?es ! j = (k, Some v, c) \<and> same env ty key k
        \<and> hamt_linear_search env n ty key None = Some (Some (v, int j, c)))"
    using linear_search_from [OF wf, of 0 ty key] by (auto simp: hamt_linear_search_def)
  then show thesis
  proof
    assume *: "(\<forall>j<length ?es. \<not> same env ty key (fst (?es ! j))) \<and> hamt_linear_search env n ty key None = Some None"
    have "\<not> same env ty key k" if "hfind (ptr_to_long env) n 0 d = Some (KeyS k, v)" for d k v
    proof -
      have "(k, v, d) \<in> set ?es" using that plain_entries [OF wf] by blast
      then show ?thesis using * by (metis fst_conv in_set_conv_nth)
    qed
    then show thesis using * missing by blast
  next
    assume "\<exists>j<length ?es. \<exists>k v c. ?es ! j = (k, Some v, c) \<and> same env ty key k
        \<and> hamt_linear_search env n ty key None = Some (Some (v, int j, c))"
    then obtain j k v c where *: "j < length ?es" "?es ! j = (k, Some v, c)" "same env ty key k"
      "hamt_linear_search env n ty key None = Some (Some (v, int j, c))" by blast
    then have "(k, Some v, c) \<in> set ?es" by (metis nth_mem)
    then show thesis using found [OF *(4,1,2) _ *(3)] plain_entries [OF wf] by blast
  qed
qed


text \<open>The search specialised to \<open>eq\<close> tables finds the same value.\<close>

lemma hamt_eq_search_from:
  "hamt_eq_linear_search_from env n key i =
   map_option (map_option fst) (hamt_linear_search_from env n scheme_eq_hash_tree_type key kw i)"
proof (induction env n key i rule: hamt_eq_linear_search_from.induct)
  case (1 env n key i)
  then show ?case
    by (subst hamt_eq_linear_search_from.simps, subst hamt_linear_search_from.simps)
       (auto simp: key_same_def map_option_bind split_beta intro!: Option.bind_cong split: option.split)
qed

lemma hamt_eq_search:
  "hamt_eq_linear_search env n key =
   map_option (map_option fst) (hamt_linear_search env n scheme_eq_hash_tree_type key None)"
  by (simp add: hamt_eq_linear_search_def hamt_linear_search_def hamt_eq_search_from [where kw = None])

text \<open>Lookup by code, and the entry it finds.\<close>

lemma assoc_hit:
  "hwf ok h hc s p t \<Longrightarrow> hfind h t s c = Some e \<Longrightarrow>
   \<exists>n pos x v. hamt_assoc h t c s = Some (Some (n, pos)) \<and> rd (ht_els n) pos = Some x
     \<and> mzHAMT_VAL n pos = Some v \<and> e = entry x v"
proof (induction "64 - s" arbitrary: s p t rule: less_induct)
  case less
  note wf = less.prems(1)
  have lt: "64 - (s + 5) < 64 - s" using hwfD(1) [OF wf] by simp
  obtain i where ix: "hamt_index c s = Some i" using index_ex [OF hwfD(1) [OF wf]] by blast
  note step = hfind_step [OF wf ix] and astep = hamt_assoc_step [OF hwfD(2) [OF wf] ix, of h]
  have b: "bit (ht_bitmap t) i" using less.prems(2) step by (auto split: if_splits)
  show ?case
  proof (cases "HASHTR_SUBTREEP (slot_of t i)")
    case True
    then show ?thesis
      using less.hyps [OF lt conjunct1 [OF hwf_subD [OF wf b True]]] less.prems(2) step astep b by simp
  next
    case False
    then show ?thesis
      using less.prems(2) step astep b shape_reads [OF hwfD(2) [OF wf] b] by (auto split: if_splits)
  qed
qed

lemma assoc_miss:
  assumes "hwf ok h hc s p t" "hfind h t s c = None"
  shows "hamt_assoc h t c s = Some None"
  using hamt_assoc_safe [OF assms(1), of c] assms(2) by (auto simp: hfind_def split: option.splits)

section \<open>The laws of keys\<close>

locale key_laws =
  fixes env :: key_env and ty :: htype
  assumes ty: "table_type ty"
    and same_refl: "same env ty k k"
    and same_sym: "same env ty k k' \<Longrightarrow> same env ty k' k"
    and same_trans: "same env ty k k' \<Longrightarrow> same env ty k' k'' \<Longrightarrow> same env ty k k''"
    and same_hash: "same env ty k k' \<Longrightarrow> tree_hash env ty k = tree_hash env ty k'"
begin

abbreviation "P \<equiv> ptr_to_long env"
abbreviation "H \<equiv> tree_hash env ty"
abbreviation "sm \<equiv> same env ty"

lemma same_left: "sm k k' \<Longrightarrow> sm k k'' \<longleftrightarrow> sm k' k''"
  using same_sym same_trans by blast

lemma same_right: "sm k' k \<Longrightarrow> sm x k' \<longleftrightarrow> sm x k"
  using same_sym same_trans by blast

lemma coll_unique:
  assumes "coll_ok env ty c n" "hfind P n 0 d = Some (KeyS k, v)" "hfind P n 0 d' = Some (KeyS k', v')" "sm k k'"
  shows "d = d'"
  using assms unfolding coll_ok_def by blast

lemma coll_lookup_Some:
  assumes "coll_ok env ty c n"
  shows "coll_lookup env ty n key = Some v \<longleftrightarrow> (\<exists>d k. hfind P n 0 d = Some (KeyS k, Some v) \<and> sm key k)"
proof (rule coll_lookup_iff)
  show "plain P n" using assms by (simp add: coll_ok_def)
  fix d k v d' k' v'
  assume "hfind P n 0 d = Some (KeyS k, v)" "hfind P n 0 d' = Some (KeyS k', v')" "sm key k" "sm key k'"
  then show "d = d'" using coll_unique [OF assms] same_left by blast
qed

lemma coll_lookup_eqI:
  assumes "coll_ok env ty c n" "\<And>v. x = Some v \<longleftrightarrow> (\<exists>d k. hfind P n 0 d = Some (KeyS k, Some v) \<and> sm key k)"
  shows "coll_lookup env ty n key = x"
  using coll_lookup_Some [OF assms(1)] assms(2) by (metis option.exhaust)

lemma coll_keys_hash: "coll_ok env ty c n \<Longrightarrow> hfind P n 0 d = Some (KeyS k, v) \<Longrightarrow> H k = c"
  unfolding coll_ok_def by blast

lemma coll_lookup_hash:
  assumes "coll_ok env ty c n" "coll_lookup env ty n key = Some v"
  shows "H key = c"
  using coll_lookup_Some [OF assms(1)] assms(2) coll_keys_hash [OF assms(1)] same_hash by metis

text \<open>A collision node changed at one code.\<close>

lemma coll_update:
  assumes n: "coll_ok env ty c n" and n': "plain P n'" and key: "H key = c"
    and f: "\<And>d'. hfind P n' 0 d' = (if d' = d then e else hfind P n 0 d')"
    and e: "e = None \<or> (\<exists>v. e = Some (KeyS key, Some v))"
    and old: "\<And>d' k v. hfind P n 0 d' = Some (KeyS k, v) \<Longrightarrow> sm key k \<Longrightarrow> d' = d"
    and hit: "\<And>k v. hfind P n 0 d = Some (KeyS k, v) \<Longrightarrow> sm key k"
    and flat: "ty = scheme_eq_hash_tree_type \<Longrightarrow> e \<noteq> None \<Longrightarrow> take_bit 5 d = d"
  shows "coll_ok env ty c n'"
    "coll_lookup env ty n' key' =
       (if sm key key' then (case e of None \<Rightarrow> None | Some (_, v) \<Rightarrow> v) else coll_lookup env ty n key')"
proof -
  show ok': "coll_ok env ty c n'"
    unfolding coll_ok_def
  proof (intro conjI allI impI)
    fix d1 k1 v1 d2 k2 v2
    assume a: "hfind P n' 0 d1 = Some (KeyS k1, v1)" "hfind P n' 0 d2 = Some (KeyS k2, v2)" "sm k1 k2"
    show "d1 = d2"
    proof (cases "d1 = d \<or> d2 = d")
      case True
      then show ?thesis using a e old same_sym by (auto simp: f split: if_splits)
    next
      case False
      then show ?thesis using a coll_unique [OF n] by (simp add: f)
    qed
  next
    fix d1 k1 v1
    assume "hfind P n' 0 d1 = Some (KeyS k1, v1)"
    then show "H k1 = c" using e key coll_keys_hash [OF n] by (auto simp: f split: if_splits)
  next
    fix d1 assume "ty = scheme_eq_hash_tree_type" "hfind P n' 0 d1 \<noteq> None"
    then show "take_bit 5 d1 = d1" using flat n by (auto simp: f coll_ok_def split: if_splits)
  qed (rule n')
  show "coll_lookup env ty n' key' =
       (if sm key key' then (case e of None \<Rightarrow> None | Some (_, v) \<Rightarrow> v) else coll_lookup env ty n key')"
  proof (cases "sm key key'")
    case True
    have "(\<exists>d1 k. hfind P n' 0 d1 = Some (KeyS k, Some v) \<and> sm key' k) \<longleftrightarrow> e = Some (KeyS key, Some v)" for v
      using True old e same_left [OF True] same_refl by (auto simp: f split: if_splits) blast+
    then show ?thesis using True e by (intro coll_lookup_eqI [OF ok']) auto
  next
    case False
    have "\<not> sm key' k" if "hfind P n 0 d = Some (KeyS k, v)" for k v
      using hit [OF that] False same_right same_sym by blast
    moreover have "\<not> sm key' key" using False same_sym by blast
    ultimately have "(\<exists>d1 k. hfind P n' 0 d1 = Some (KeyS k, Some v) \<and> sm key' k) \<longleftrightarrow>
        (\<exists>d1 k. hfind P n 0 d1 = Some (KeyS k, Some v) \<and> sm key' k)" for v
      using e by (auto simp: f split: if_splits) metis+
    then show ?thesis using False coll_lookup_Some [OF n] by (intro coll_lookup_eqI [OF ok']) simp
  qed
qed

section \<open>Storing a slot\<close>

lemma coll_first:
  assumes n: "coll_ok env ty c n" "2 \<le> ht_count n" and eq: "ty = scheme_eq_hash_tree_type"
  obtains k where "rd (ht_els n) 0 = Some (KeyS k)" "H k = c"
proof -
  have pl: "plain P n" using n(1) by (simp add: coll_ok_def)
  have ne: "ht_els n \<noteq> []" using hwfD(4) [OF pl] n(2) by auto
  then have "0 < hamt_popcount (ht_bitmap n)" using hwfD(2) [OF pl] by (simp add: shape_def flip: length_greater_0_conv)
  then obtain i where i: "bit (ht_bitmap n) i" "ht_els n ! 0 = slot_of n i" "rank (ht_bitmap n) i = 0"
    using pos_ex [of 0 "ht_bitmap n"] by (auto simp: slot_of_def)
  have lf: "\<not> HASHTR_SUBTREEP (slot_of n i)"
    using flat_slots [OF pl _ i(1)] n(1) eq by (simp add: coll_ok_def)
  obtain d where "hfind P n 0 d = Some (entry (slot_of n i) (val_of n i))"
    using hwf_leafD [OF pl i(1) lf] hfind_step [OF pl] i(1) lf by metis
  moreover obtain k where k: "slot_of n i = KeyS k"
    using hwf_leafD [OF pl i(1) lf] by (auto simp: leaf_ok_def split: hslot.splits)
  ultimately have "H k = c" using coll_keys_hash [OF n(1)] by (simp add: entry_def)
  then show thesis using that ne i(2) k by (simp add: rd_Some)
qed

lemma slot_fits_code:
  assumes "slot_fits env ty c x" "ty = scheme_eq_hash_tree_type"
  shows "mzHAMT_KEY_CODE P x = Some c"
proof (cases x)
  case (NodeS n)
  then obtain k where "rd (ht_els n) 0 = Some (KeyS k)" "H k = c"
    using coll_first assms by (auto simp: slot_fits_def)
  then show ?thesis using NodeS assms by (simp add: tree_hash_def slot_fits_def)
qed (use assms in \<open>auto simp: slot_fits_def tree_hash_def\<close>)

lemma found_fits:
  assumes "tree_wf env t" "ht_type t = ty" "hfind P t 0 c = Some (x, v)"
  shows "slot_fits env ty c x"
  using assms hfind_kinds [of "coll_any env ty" P "ty \<noteq> scheme_eq_hash_tree_type" 0 0 t c]
  by (cases x) (auto simp: tree_wf_def slot_fits_def)

lemma tree_wf_intro:
  assumes "ht_type t = ty" "hwf (coll_any env ty) P (ty \<noteq> scheme_eq_hash_tree_type) 0 0 t"
    and "\<And>c x v. hfind P t 0 c = Some (x, v) \<Longrightarrow> slot_fits env ty c x"
  shows "tree_wf env t"
  using assms(1,2) ty assms(3) [of _ "KeyS _"] assms(3) [of _ "NodeS _"] by (auto simp: tree_wf_def slot_fits_def)

lemma store_slot:
  assumes t: "tree_wf env t" "ht_type t = ty" and x: "slot_fits env ty c x" "\<And>k. x = KeyS k \<Longrightarrow> v \<noteq> None"
    and inc: "inc = weight x - found_weight (hfind P t 0 c)"
  obtains t' where "hamt_set P t c 0 x v inc = Some t'" "tree_wf env t'" "ht_type t' = ty"
    "ht_count t' = ht_count t + inc"
    "\<And>key. tree_lookup env t' key =
       (if H key = c then slot_lookup env ty (Some (entry x v)) key else tree_lookup env t key)"
proof -
  have wf: "hwf (coll_any env ty) P (ty \<noteq> scheme_eq_hash_tree_type) 0 0 t" using t by (simp add: tree_wf_def)
  have lf: "leaf_ok (coll_any env ty) x v"
    using x by (auto simp: leaf_ok_def slot_fits_def coll_any_def split: hslot.splits)
  have "ty \<noteq> scheme_eq_hash_tree_type \<or> mzHAMT_KEY_CODE P x = Some c" using slot_fits_code [OF x(1)] by blast
  from hamt_set_spec [OF lf this wf _ inc] obtain t' where t': "hamt_set P t c 0 x v inc = Some t'"
    "set_result (coll_any env ty) P (ty \<noteq> scheme_eq_hash_tree_type) 0 0 t c x v inc t'" by auto
  then have r: "hwf (coll_any env ty) P (ty \<noteq> scheme_eq_hash_tree_type) 0 0 t'" "ht_type t' = ty"
    "ht_count t' = ht_count t + inc" "\<And>c'. hfind P t' 0 c' = (if c' = c then Some (entry x v) else hfind P t 0 c')"
    using t(2) by (auto simp: set_result_def)
  have "tree_wf env t'"
    by (rule tree_wf_intro [OF r(2,1)])
       (use x(1) found_fits [OF t] in \<open>auto simp: r(4) entry_def split: if_splits\<close>)
  then show thesis using that t'(1) r t(2) by (auto simp: tree_lookup_def)
qed

lemma weight_found:
  assumes t: "tree_wf env t" "ht_type t = ty" and f: "hfind P t 0 c = Some (x, v)"
  shows "found_weight (hfind P t 0 c) = weight x"
  by (simp add: f found_weight_def)

lemma lookup_other:
  assumes t: "tree_wf env t" "ht_type t = ty" and "H key' = H key" "hfind P t 0 (H key) = e"
  shows "tree_lookup env t key' = slot_lookup env ty e key'"
  using assms by (simp add: tree_lookup_def)

section \<open>Lookup\<close>

lemma tree_resolve: "tree_wf env t \<Longrightarrow> resolve_placeholder t = Some t"
  by (auto simp: resolve_placeholder_def tree_wf_def table_type_def)

lemma tree_hwf:
  "tree_wf env t \<Longrightarrow> ht_type t = ty \<Longrightarrow> hwf (coll_any env ty) P (ty \<noteq> scheme_eq_hash_tree_type) 0 0 t"
  by (simp add: tree_wf_def)

lemma coll_plain: "coll_ok env ty c n \<Longrightarrow> plain P n"
  by (simp add: coll_ok_def)

lemma coll_any_plain: "coll_any env ty n \<Longrightarrow> plain P n"
  by (auto simp: coll_any_def coll_ok_def)

lemma tree_counted: "tree_wf env t \<Longrightarrow> ht_type t = ty \<Longrightarrow> counted t"
  using hwf_counted [of "coll_any env ty" P] tree_hwf plain_counted coll_any_plain by blast

lemma empty_lookup:
  assumes t: "tree_wf env t" "ht_type t = ty" "ht_count t = 0"
  shows "hfind P t 0 c = None"
proof -
  have "ht_els t = []"
    using hwf_weights [OF tree_hwf [OF t(1,2)]] sum_list_ge_length [of "ht_els t" weight] hwfD(4) [OF tree_hwf [OF t(1,2)]] t(3)
    by auto
  then have "leaves t 0 = []" by (simp add: leaves_pieces)
  then show ?thesis using found_leaf [OF tree_hwf [OF t(1,2)], of c] by (cases "hfind P t 0 c") auto
qed

lemma search_lookup:
  assumes n: "coll_ok env ty c n"
  shows "map_option (map_option fst) (hamt_linear_search env n ty key None) = Some (coll_lookup env ty n key)"
proof (cases rule: linear_search_cases [OF coll_plain [OF n], of ty key])
  case 1
  then have "coll_lookup env ty n key = None" by (intro coll_lookup_eqI [OF n]) auto
  then show ?thesis using 1 by simp
next
  case (2 j k v c')
  then have "coll_lookup env ty n key = Some v" using coll_lookup_Some [OF n] by blast
  then show ?thesis using 2 by simp
qed

lemma get_unfold:
  assumes t: "tree_wf env t" "ht_type t = ty" and ne: "ht_count t \<noteq> 0"
  shows "scheme_hash_tree_get env t key = do {
    r \<leftarrow> hamt_assoc P t (H key) 0;
    (case r of
       None \<Rightarrow> Some None
     | Some (n, pos) \<Rightarrow> do {
         s \<leftarrow> rd (ht_els n) pos;
         if HASHTR_COLLISIONP s then do {
           sub \<leftarrow> as_node s;
           map_option (map_option fst) (hamt_linear_search env sub ty key None)
         } else do {
           k \<leftarrow> as_key s;
           if sm key k then mzHAMT_VAL n pos else Some None
         } }) }"
proof -
  have H: "HAMT_REORDER (P key) = tree_hash env scheme_eq_hash_tree_type key" by (simp add: tree_hash_def)
  have bnd: "Option.bind x (\<lambda>f. Some (g f)) = map_option g x" for x :: "'a option" and g :: "'a \<Rightarrow> 'b"
    by (cases x) auto
  have "ty = scheme_eq_hash_tree_type \<or> ty = scheme_hash_tree_type \<or> ty = scheme_eqv_hash_tree_type"
    using ty by (simp add: table_type_def)
  then show ?thesis
    using t(2) ne tree_resolve [OF t(1)]
    by (elim disjE)
       (simp_all add: scheme_hash_tree_get_def scheme_hash_tree_get_w_key_wraps_def scheme_eq_hash_tree_get_def
         same_def key_same_def equal_w_key_wraps_def apply_equal_key_wraps_def H hamt_eq_search bnd
         cong: option.case_cong if_cong)
qed

lemma get_spec:
  assumes t: "tree_wf env t" "ht_type t = ty"
  shows "scheme_hash_tree_get env t key = Some (tree_lookup env t key)"
proof (cases "ht_count t = 0")
  case True
  then show ?thesis using empty_lookup [OF t True] tree_resolve [OF t(1)]
    by (simp add: scheme_hash_tree_get_def scheme_hash_tree_get_w_key_wraps_def tree_lookup_def slot_lookup_def)
next
  case False
  note wf = tree_hwf [OF t] and unfold = get_unfold [OF t False]
  show ?thesis
  proof (cases "hfind P t 0 (H key)")
    case None
    then show ?thesis using assoc_miss [OF wf None] t(2) by (simp add: unfold tree_lookup_def slot_lookup_def)
  next
    case (Some e)
    obtain n pos x v where a: "hamt_assoc P t (H key) 0 = Some (Some (n, pos))" "rd (ht_els n) pos = Some x"
      "mzHAMT_VAL n pos = Some v" "e = entry x v" using assoc_hit [OF wf Some] by blast
    have fits: "slot_fits env ty (H key) x" using found_fits [OF t] Some a(4) by (simp add: entry_def)
    show ?thesis
    proof (cases x)
      case (KeyS k)
      then show ?thesis using a t(2) by (simp add: unfold tree_lookup_def slot_lookup_def Some entry_def)
    next
      case (NodeS m)
      then show ?thesis using a t(2) fits search_lookup [of "H key" m key]
        by (simp add: unfold tree_lookup_def slot_lookup_def Some entry_def slot_fits_def)
    qed (use fits in \<open>simp add: slot_fits_def\<close>)
  qed
qed

end

end
