(* ===== verification/HashTreeUpdate.thy ===== *)
theory HashTreeUpdate
  imports HashTreeTable
begin

text \<open>
  Update and removal in immutable hash tables: each branch of \<open>scheme_hash_tree_set\<close>, and
  the laws of the tables as finite maps.
\<close>

lemma set_two:
  assumes "length xs = 2" "j < 2"
  shows "set xs = {xs ! j, xs ! (1 - j)}"
proof -
  obtain a b where "xs = [a, b]" using assms(1) by (auto simp: numeral_2_eq_2 length_Suc_conv)
  then show ?thesis using assms(2) by (cases j rule: nat.exhaust) auto
qed

context key_laws begin

section \<open>Update and removal\<close>

text \<open>What the update function does for each kind of entry it finds.\<close>

lemma set_same:
  "(if ty = scheme_eq_hash_tree_type then key = k
    else if ty = scheme_hash_tree_type then equal_w_key_wraps env key k None else scheme_eqv env key k) = sm key k"
  by (simp add: same_def key_same_def)

lemma set_miss:
  assumes t: "tree_wf env t" "ht_type t = ty" and f: "hfind P t 0 (H key) = None"
  shows "scheme_hash_tree_set env t key val =
    (if val = None then Some t else hamt_set P t (H key) 0 (KeyS key) val 1)"
  using t(2) tree_resolve [OF t(1)] assoc_miss [OF tree_hwf [OF t] f]
  by (simp add: scheme_hash_tree_set_def scheme_hash_tree_set_w_key_wraps_def apply_equal_key_wraps_def
      cong: if_cong)

lemma set_key:
  assumes t: "tree_wf env t" "ht_type t = ty" and f: "hfind P t 0 (H key) = Some (KeyS k, v)"
  obtains n where "scheme_hash_tree_set env t key val =
    (if sm key k then
       if val = None then do {
         r \<leftarrow> hamt_remove P t (H key) 0;
         Some (case r of None \<Rightarrow> set_flags (SCHEME_HASHTR_KIND t) (set_type ty (hamt_alloc (SCHEME_HASHTR_KIND t) 0))
               | Some t \<Rightarrow> t) }
       else if val = v then Some t else hamt_set P t (H key) 0 (KeyS key) val 0
     else if val = None then Some t
     else do {
       coll \<leftarrow> hamt_make2 (SCHEME_HASHTR_KIND n OR HASHTR_HAS_VAL OR HASHTR_HAS_CODE) 0 0 (KeyS k) v 1 (KeyS key) val;
       hamt_set P t (H key) 0 (NodeS (set_type scheme_hash_tree_collision_type coll)) None 1 })"
proof -
  obtain n pos x w where a: "hamt_assoc P t (H key) 0 = Some (Some (n, pos))" "rd (ht_els n) pos = Some x"
    "mzHAMT_VAL n pos = Some w" "(KeyS k, v) = entry x w" using assoc_hit [OF tree_hwf [OF t] f] by blast
  have x: "x = KeyS k" "w = v" using a(4) by (auto simp: entry_def split: hslot.splits)
  have "as_key (KeyS k) = Some k" "\<not> HASHTR_COLLISIONP (KeyS k)" by auto
  then show thesis
    using that [of n] a(1-3) t(2) tree_resolve [OF t(1)] unfolding x
    by (simp add: scheme_hash_tree_set_def scheme_hash_tree_set_w_key_wraps_def apply_equal_key_wraps_def
        set_same Let_def cong: if_cong option.case_cong)
qed

lemma set_coll:
  assumes t: "tree_wf env t" "ht_type t = ty" and f: "hfind P t 0 (H key) = Some (NodeS m, v)"
  shows "scheme_hash_tree_set env t key val = do {
    f \<leftarrow> hamt_linear_search env m ty key None;
    (case f of
       Some (_, i, code) \<Rightarrow>
         if val = None then
           if ht_count m = 2 then do {
             (other_key, other_val, _) \<leftarrow> hamt_at_index P m (1 - i);
             hamt_set P t (H key) 0 (KeyS other_key) other_val (-1)
           } else do {
             coll' \<leftarrow> hamt_remove P m code 0;
             coll' \<leftarrow> coll';
             hamt_set P t (H key) 0 (NodeS coll') None (-1)
           }
         else do {
           coll' \<leftarrow> hamt_set P m code 0 (KeyS key) val 0;
           hamt_set P t (H key) 0 (NodeS coll') None 0
         }
     | None \<Rightarrow>
         if val = None then Some t
         else do {
           code \<leftarrow> hamt_find_free_code P m 0 0;
           coll' \<leftarrow> hamt_set P m code 0 (KeyS key) val 1;
           hamt_set P t (H key) 0 (NodeS coll') None 1
         }) }"
proof -
  obtain n pos x w where a: "hamt_assoc P t (H key) 0 = Some (Some (n, pos))" "rd (ht_els n) pos = Some x"
    "mzHAMT_VAL n pos = Some w" "(NodeS m, v) = entry x w" using assoc_hit [OF tree_hwf [OF t] f] by blast
  have x: "x = NodeS m" using a(4) by (simp add: entry_def)
  have "HASHTR_COLLISIONP (NodeS m)" using found_fits [OF t f] by (simp add: slot_fits_def)
  then show ?thesis
    using a(1-3) t(2) tree_resolve [OF t(1)] unfolding x
    by (simp add: scheme_hash_tree_set_def scheme_hash_tree_set_w_key_wraps_def apply_equal_key_wraps_def
        Let_def cong: if_cong option.case_cong)
qed

lemma lookup_same:
  assumes t: "tree_wf env t" "ht_type t = ty" and k: "sm key key'"
  shows "tree_lookup env t key = tree_lookup env t key'"
proof -
  have "slot_lookup env ty (hfind P t 0 (H key')) key = slot_lookup env ty (hfind P t 0 (H key')) key'"
  proof (cases "hfind P t 0 (H key')")
    case (Some e)
    obtain x v where e: "e = (x, v)" by force
    show ?thesis
    proof (cases x)
      case (NodeS n)
      then have n: "coll_ok env ty (H key') n" using found_fits [OF t, of "H key'" "NodeS n" v] Some e by (simp add: slot_fits_def)
      have "coll_lookup env ty n key = coll_lookup env ty n key'"
        using coll_lookup_Some [OF n] same_left [OF k] by (intro coll_lookup_eqI [OF n]) simp
      then show ?thesis by (simp add: Some e NodeS slot_lookup_def)
    qed (use same_left [OF k] in \<open>auto simp: Some e slot_lookup_def\<close>)
  qed (simp add: slot_lookup_def)
  then show ?thesis using same_hash [OF k] t(2) by (simp add: tree_lookup_def)
qed

lemma unchanged:
  assumes t: "tree_wf env t" "ht_type t = ty" and v: "val = tree_lookup env t key"
  shows "updated env t key val t"
  using assms lookup_same [OF t] by (auto simp: updated_def)

lemma stored:
  assumes t: "tree_wf env t" "ht_type t = ty" and x: "slot_fits env ty (H key) x" "\<And>k. x = KeyS k \<Longrightarrow> v \<noteq> None"
    and w: "inc = weight x - found_weight (hfind P t 0 (H key))"
    and inc: "inc = of_bool (val \<noteq> None) - of_bool (tree_lookup env t key \<noteq> None)"
    and l: "\<And>key'. H key' = H key \<Longrightarrow> slot_lookup env ty (Some (entry x v)) key' =
        (if sm key key' then val else slot_lookup env ty (hfind P t 0 (H key)) key')"
  shows "\<exists>t'. hamt_set P t (H key) 0 x v inc = Some t' \<and> updated env t key val t'"
proof (rule store_slot [OF t x w])
  fix t'
  assume t': "hamt_set P t (H key) 0 x v inc = Some t'" "tree_wf env t'" "ht_type t' = ty"
    "ht_count t' = ht_count t + inc"
    "\<And>key'. tree_lookup env t' key' =
       (if H key' = H key then slot_lookup env ty (Some (entry x v)) key' else tree_lookup env t key')"
  have "tree_lookup env t' key' = (if sm key key' then val else tree_lookup env t key')" for key'
    using t'(5) [of key'] l [of key'] same_hash [of key key'] lookup_other [OF t, of key' key] by auto
  then show ?thesis using t' t(2) inc by (auto simp: updated_def)
qed

lemma slot_lookup_key [simp]: "slot_lookup env ty (Some (entry (KeyS k) v)) key' = (if sm key' k then v else None)"
  by (simp add: slot_lookup_def entry_def)

lemma slot_lookup_node [simp]: "slot_lookup env ty (Some (entry (NodeS n) v)) key' = coll_lookup env ty n key'"
  by (simp add: slot_lookup_def entry_def)

lemma hash_lookup: "ht_type t = ty \<Longrightarrow> tree_lookup env t key = slot_lookup env ty (hfind P t 0 (H key)) key"
  by (simp add: tree_lookup_def)

text \<open>A new entry, and an entry that holds one key.\<close>

lemma set_miss_spec:
  assumes t: "tree_wf env t" "ht_type t = ty" and f: "hfind P t 0 (H key) = None"
  shows "\<exists>t'. scheme_hash_tree_set env t key val = Some t' \<and> updated env t key val t'"
proof (cases val)
  case None
  then show ?thesis using unchanged [OF t, of val key] f t(2) by (simp add: set_miss [OF t f] hash_lookup slot_lookup_def)
next
  case (Some v)
  have "\<exists>t'. hamt_set P t (H key) 0 (KeyS key) val 1 = Some t' \<and> updated env t key val t'"
    by (rule stored [OF t]) (use Some f t(2) same_sym in \<open>auto simp: slot_fits_def hash_lookup slot_lookup_def [of _ _ None]\<close>)
  then show ?thesis using Some by (simp add: set_miss [OF t f])
qed

lemma empty_tree:
  "hwf ok h hc 0 0 (set_flags kind (set_type ty' (hamt_alloc kind 0))) \<longleftrightarrow> bit kind 1 = hc \<and> (hc \<longrightarrow> bit kind 0)"
  "hfind h (set_flags kind (set_type ty' (hamt_alloc kind 0))) 0 c = None"
proof -
  let ?e = "set_flags kind (set_type ty' (hamt_alloc kind 0))"
  have e: "ht_bitmap ?e = 0" "ht_els ?e = []" "ht_vals ?e = []" "ht_codes ?e = []" "ht_count ?e = 0" "ht_flags ?e = kind"
    by (simp_all add: hamt_alloc_def)
  then show "hwf ok h hc 0 0 ?e \<longleftrightarrow> bit kind 1 = hc \<and> (hc \<longrightarrow> bit kind 0)"
    by (subst hwf.simps) (auto simp: shape_def hamt_popcount_rank has_bits)
  obtain i where "hamt_index c 0 = Some i" "i < 32" using index_ex by force
  then show "hfind h ?e 0 c = None"
    by (subst hfind_def, subst hamt_assoc.simps) (simp add: e and_hamt_bit)
qed

lemma remove_key:
  assumes t: "tree_wf env t" "ht_type t = ty" and f: "hfind P t 0 (H key) = Some (KeyS k, v)" and k: "sm key k"
  shows "\<exists>t'. do { r \<leftarrow> hamt_remove P t (H key) 0;
         Some (case r of None \<Rightarrow> set_flags (SCHEME_HASHTR_KIND t) (set_type ty (hamt_alloc (SCHEME_HASHTR_KIND t) 0))
               | Some t \<Rightarrow> t) } = Some t' \<and> updated env t key None t'"
proof -
  note wf = tree_hwf [OF t]
  have v: "v \<noteq> None" using hfind_val [OF wf _ f] by simp
  have cnt: "tree_lookup env t key \<noteq> None" using f t(2) k v by (simp add: tree_lookup_def slot_lookup_def)
  obtain r where r: "hamt_remove P t (H key) 0 = Some r"
    "remove_result (coll_any env ty) P (ty \<noteq> scheme_eq_hash_tree_type) 0 0 t (H key) r"
    using hamt_remove_spec [OF wf _ f] by auto
  define t' where "t' = (case r of None \<Rightarrow> set_flags (SCHEME_HASHTR_KIND t) (set_type ty (hamt_alloc (SCHEME_HASHTR_KIND t) 0))
      | Some t \<Rightarrow> t)"
  have kind: "bit (SCHEME_HASHTR_KIND t) 1 = (ty \<noteq> scheme_eq_hash_tree_type)"
    "ty \<noteq> scheme_eq_hash_tree_type \<Longrightarrow> bit (SCHEME_HASHTR_KIND t) 0"
    using hwfD(2,3) [OF wf] by (auto simp: has_bits shape_def simp del: One_nat_def)
  have t': "hwf (coll_any env ty) P (ty \<noteq> scheme_eq_hash_tree_type) 0 0 t'" "ht_type t' = ty"
    "ht_count t' = ht_count t - 1" "\<And>c. hfind P t' 0 c = (if c = H key then None else hfind P t 0 c)"
    using r(2) t(2) kind empty_tree
    by (auto simp: t'_def remove_result_def hamt_alloc_def split: option.splits simp del: One_nat_def)
  have "tree_wf env t'"
    by (rule tree_wf_intro [OF t'(2,1)]) (use found_fits [OF t] in \<open>auto simp: t'(4) split: if_splits\<close>)
  moreover have "tree_lookup env t' key' = (if sm key key' then None else tree_lookup env t key')" for key'
    using t'(2,4) t(2) f same_hash [of key key'] same_left [OF k] same_sym [of k key'] same_sym [of key' k]
    by (auto simp: tree_lookup_def slot_lookup_def)
  ultimately show ?thesis using t'(2,3) t(2) cnt r(1) by (auto simp: updated_def t'_def [symmetric])
qed

lemma set_type_fields [simp]:
  "ht_els (set_type ty' n) = ht_els n" "ht_vals (set_type ty' n) = ht_vals n" "ht_codes (set_type ty' n) = ht_codes n"
  "ht_bitmap (set_type ty' n) = ht_bitmap n" "ht_flags (set_type ty' n) = ht_flags n"
  "ht_count (set_type ty' n) = ht_count n" "ht_type (set_type ty' n) = ty'"
  by (cases n; simp)+

lemma hwf_set_type: "hwf ok h hc s p (set_type ty' n) = hwf ok h hc s p n"
  by (subst (1 2) hwf.simps)
     (simp add: shape_def has_val_def has_code_def slot_of_def val_of_def code_of_def)

lemma hfind_set_type:
  assumes "hwf ok h hc s p n"
  shows "hfind h (set_type ty' n) s c = hfind h n s c"
proof -
  obtain i where i: "hamt_index c s = Some i" using index_ex [OF hwfD(1) [OF assms]] by blast
  show ?thesis
    using hfind_step [OF assms i] hfind_step [of ok h hc s p "set_type ty' n", OF _ i] assms
    by (simp add: hwf_set_type slot_of_def val_of_def code_of_def has_val_def has_code_def)
qed

lemma new_collision:
  assumes t: "tree_wf env t" "ht_type t = ty" and f: "hfind P t 0 (H key) = Some (KeyS k, v)"
    and k: "\<not> sm key k" "val \<noteq> None"
  shows "\<exists>t'. do {
       coll \<leftarrow> hamt_make2 (SCHEME_HASHTR_KIND n OR HASHTR_HAS_VAL OR HASHTR_HAS_CODE) 0 0 (KeyS k) v 1 (KeyS key) val;
       hamt_set P t (H key) 0 (NodeS (set_type scheme_hash_tree_collision_type coll)) None 1 } = Some t'
     \<and> updated env t key val t'"
proof -
  let ?kind = "SCHEME_HASHTR_KIND n OR HASHTR_HAS_VAL OR HASHTR_HAS_CODE"
  have hk: "H k = H key" and v: "v \<noteq> None"
    using found_fits [OF t f] hfind_val [OF tree_hwf [OF t] _ f] by (auto simp: slot_fits_def)
  have "\<exists>m. hamt_make2 ?kind 0 0 (KeyS k) v 1 (KeyS key) val = Some m \<and> hwf (\<lambda>_. False) P (bit ?kind 1) 0 0 m
      \<and> compact m \<and> ht_count m = weight (KeyS k) + weight (KeyS key)
      \<and> (\<forall>c. hfind P m 0 c = (if c = 0 then Some (entry (KeyS k) v)
              else if c = 1 then Some (entry (KeyS key) val) else None))"
    by (rule make2_spec) (use v k(2) in \<open>auto simp: leaf_ok_def bit_or_iff simp del: One_nat_def\<close>)
  then obtain m where m: "hamt_make2 ?kind 0 0 (KeyS k) v 1 (KeyS key) val = Some m" "plain P m" "ht_count m = 2"
    "\<And>c. hfind P m 0 c = (if c = 0 then Some (KeyS k, v) else if c = 1 then Some (KeyS key, val) else None)"
    by (auto simp: bit_or_iff entry_def simp del: One_nat_def)
  define c where "c = set_type scheme_hash_tree_collision_type m"
  have c: "plain P c" "ht_count c = 2" "ht_type c = scheme_hash_tree_collision_type"
    "\<And>d. hfind P c 0 d = (if d = 0 then Some (KeyS k, v) else if d = 1 then Some (KeyS key, val) else None)"
    using m hfind_set_type [OF m(2)] by (simp_all add: c_def hwf_set_type)
  have ok: "coll_ok env ty (H key) c"
    using c k(1) hk same_sym by (auto simp: coll_ok_def split: if_splits)
  have look: "coll_lookup env ty c key' = (if sm key key' then val else if sm key' k then v else None)" for key'
    using c(4) same_sym [of key key'] same_sym [of key' key] same_left [of key key' k] k v
    by (intro coll_lookup_eqI [OF ok]) (auto split: if_splits, (rule exI [of _ 0], simp)?)
  have "\<exists>t'. hamt_set P t (H key) 0 (NodeS c) None 1 = Some t' \<and> updated env t key val t'"
    by (rule stored [OF t])
       (use ok c look f k t(2) in \<open>auto simp: slot_fits_def found_weight_def slot_lookup_def [of _ _ "Some (KeyS _, _)"]
          tree_lookup_def\<close>)
  then show ?thesis using m(1) by (simp add: c_def)
qed

lemma set_key_spec:
  assumes t: "tree_wf env t" "ht_type t = ty" and f: "hfind P t 0 (H key) = Some (KeyS k, v)"
  shows "\<exists>t'. scheme_hash_tree_set env t key val = Some t' \<and> updated env t key val t'"
proof -
  have hk: "H k = H key" and v: "v \<noteq> None"
    using found_fits [OF t f] hfind_val [OF tree_hwf [OF t] _ f] by (auto simp: slot_fits_def)
  have look: "tree_lookup env t key' = (if sm key' k then v else None)" if "H key' = H key" for key'
    using that f t(2) by (simp add: tree_lookup_def slot_lookup_def)
  show ?thesis
  proof (rule set_key [OF t f])
    fix n assume u: "scheme_hash_tree_set env t key val =
    (if sm key k then
       if val = None then do {
         r \<leftarrow> hamt_remove P t (H key) 0;
         Some (case r of None \<Rightarrow> set_flags (SCHEME_HASHTR_KIND t) (set_type ty (hamt_alloc (SCHEME_HASHTR_KIND t) 0))
               | Some t \<Rightarrow> t) }
       else if val = v then Some t else hamt_set P t (H key) 0 (KeyS key) val 0
     else if val = None then Some t
     else do {
       coll \<leftarrow> hamt_make2 (SCHEME_HASHTR_KIND n OR HASHTR_HAS_VAL OR HASHTR_HAS_CODE) 0 0 (KeyS k) v 1 (KeyS key) val;
       hamt_set P t (H key) 0 (NodeS (set_type scheme_hash_tree_collision_type coll)) None 1 })"
    consider (remove) "sm key k" "val = None" | (shortcut) "sm key k" "val \<noteq> None" "val = v"
      | (replace) "sm key k" "val \<noteq> None" "val \<noteq> v" | (absent) "\<not> sm key k" "val = None"
      | (collide) "\<not> sm key k" "val \<noteq> None" by blast
    then show ?thesis
    proof cases
      case remove
      then show ?thesis using remove_key [OF t f] u by simp
    next
      case shortcut
      then show ?thesis using unchanged [OF t, of val key] look [of key] u by auto
    next
      case replace
      have "\<exists>t'. hamt_set P t (H key) 0 (KeyS key) val 0 = Some t' \<and> updated env t key val t'"
        by (rule stored [OF t])
           (use replace v look f hk same_sym same_right [OF replace(1)] in
             \<open>auto simp: slot_fits_def found_weight_def slot_lookup_def [of _ _ "Some _"] entry_def\<close>)
      then show ?thesis using u replace by simp
    next
      case absent
      then show ?thesis using unchanged [OF t, of val key] look [of key] u by simp
    next
      case collide
      then show ?thesis using new_collision [OF t f collide, of n] u by auto
    qed
  qed
qed

text \<open>An entry that is a collision node.\<close>

lemma coll_within:
  assumes t: "tree_wf env t" "ht_type t = ty" and f: "hfind P t 0 c = Some (NodeS m, v)"
  shows "ht_count m \<le> ht_count t" "c = H key \<Longrightarrow> ht_count m \<le> int (crowd env t key)"
proof -
  note wf = tree_hwf [OF t] and cnt = tree_counted [OF t]
  have m: "coll_ok env ty c m" using found_fits [OF t f] by (simp add: slot_fits_def)
  obtain l where l: "l \<in> set (leaves t 0)" "leaf_entry l = (NodeS m, v)" using found_leaf [OF wf f] by blast
  then have lm: "leaf_slot l = NodeS m" by (simp add: leaf_entry_def entry_def)
  obtain xs ys where "leaves t 0 = xs @ l # ys" using split_list [OF l(1)] by blast
  then obtain as bs where es: "entries P t = as @ entries P m @ bs"
    using cells_expand [OF cnt, of 0] lm by (auto simp: entries_def)
  have len: "int (length (entries P m)) = ht_count m" by (rule length_entries [OF plain_counted [OF coll_plain [OF m]]])
  show "ht_count m \<le> ht_count t" using len length_entries [OF cnt, of P] es by simp
  assume c: "c = H key"
  have "filter (\<lambda>(k, v, d). H k = H key) (entries P m) = entries P m"
    using coll_keys_hash [OF m] plain_entries [OF coll_plain [OF m]] c by (auto simp: filter_id_conv)
  then show "ht_count m \<le> int (crowd env t key)" using es len t(2) by (simp add: crowd_def)
qed

lemma coll_set:
  assumes m: "coll_ok env ty (H key) m" "ht_type m = scheme_hash_tree_collision_type" "2 \<le> ht_count m"
    and d: "hfind P m 0 d = None \<or> (\<exists>k v. hfind P m 0 d = Some (KeyS k, v) \<and> sm key k)"
    and miss: "hfind P m 0 d = None \<Longrightarrow> coll_lookup env ty m key = None"
    and flat: "ty = scheme_eq_hash_tree_type \<Longrightarrow> take_bit 5 d = d"
    and inc: "inc = 1 - of_bool (hfind P m 0 d \<noteq> None)"
  shows "\<exists>m'. hamt_set P m d 0 (KeyS key) (Some v) inc = Some m' \<and> slot_fits env ty (H key) (NodeS m')
    \<and> ht_count m' = ht_count m + inc
    \<and> (\<forall>key'. coll_lookup env ty m' key' = (if sm key key' then Some v else coll_lookup env ty m key'))"
proof -
  note pl = coll_plain [OF m(1)]
  have w: "inc = weight (KeyS key) - found_weight (hfind P m 0 d)" using inc d by (auto simp: found_weight_def)
  have "leaf_ok (\<lambda>_. False) (KeyS key) (Some v)" by (simp add: leaf_ok_def)
  from hamt_set_spec [OF this _ pl _ w] obtain m' where m': "hamt_set P m d 0 (KeyS key) (Some v) inc = Some m'"
    "set_result (\<lambda>_. False) P True 0 0 m d (KeyS key) (Some v) inc m'" by auto
  then have r: "plain P m'" "ht_type m' = ht_type m" "ht_count m' = ht_count m + inc"
    "\<And>d'. hfind P m' 0 d' = (if d' = d then Some (KeyS key, Some v) else hfind P m 0 d')"
    by (auto simp: set_result_def entry_def)
  have old: "d' = d" if h: "hfind P m 0 d' = Some (KeyS k, w)" "sm key k" for d' k w
  proof (cases "hfind P m 0 d = None")
    case True
    obtain w' where "w = Some w'" using hfind_val [OF pl _ h(1)] by auto
    then show ?thesis using miss [OF True] coll_lookup_Some [OF m(1), of key w'] h by auto
  next
    case False
    then obtain k0 v0 where "hfind P m 0 d = Some (KeyS k0, v0)" "sm key k0" using d by auto
    then show ?thesis using coll_unique [OF m(1) h(1)] same_left [of key k0 k] h(2) same_sym by blast
  qed
  have hit: "sm key k" if "hfind P m 0 d = Some (KeyS k, w)" for k w using d that by auto
  have up: "coll_ok env ty (H key) m'"
    "coll_lookup env ty m' key' = (if sm key key' then (case Some (KeyS key, Some v) of None \<Rightarrow> None | Some (_, v) \<Rightarrow> v)
      else coll_lookup env ty m key')" for key'
    by (rule coll_update [OF m(1) r(1) refl r(4)]; use old hit flat in blast)+
  then show ?thesis using m' r m inc by (auto simp: slot_fits_def)
qed

lemma coll_remove:
  assumes m: "coll_ok env ty (H key) m" "ht_type m = scheme_hash_tree_collision_type" "3 \<le> ht_count m"
    and d: "hfind P m 0 d = Some (KeyS k, v)" "sm key k"
  shows "\<exists>m'. hamt_remove P m d 0 = Some (Some m') \<and> slot_fits env ty (H key) (NodeS m')
    \<and> ht_count m' = ht_count m - 1
    \<and> (\<forall>key'. coll_lookup env ty m' key' = (if sm key key' then None else coll_lookup env ty m key'))"
proof -
  note pl = coll_plain [OF m(1)]
  obtain r where r: "hamt_remove P m d 0 = Some r" "remove_result (\<lambda>_. False) P True 0 0 m d r"
    using hamt_remove_spec [OF pl _ d(1)] by auto
  obtain m' where m': "r = Some m'" using r(2) m(3) by (cases r) (auto simp: remove_result_def)
  have p: "plain P m'" "ht_type m' = ht_type m" "ht_count m' = ht_count m - 1"
    "\<And>d'. hfind P m' 0 d' = (if d' = d then None else hfind P m 0 d')"
    using r(2) by (auto simp: m' remove_result_def)
  have old: "d' = d" if h: "hfind P m 0 d' = Some (KeyS k', w)" "sm key k'" for d' k' w
    using d h coll_unique [OF m(1)] same_left by blast
  have hit: "sm key k'" if "hfind P m 0 d = Some (KeyS k', w)" for k' w using d that by auto
  have up: "coll_ok env ty (H key) m'"
    "coll_lookup env ty m' key' = (if sm key key' then (case None :: (hslot \<times> obj option) option of None \<Rightarrow> None | Some (_, v) \<Rightarrow> v)
      else coll_lookup env ty m key')" for key'
    by (rule coll_update [OF m(1) p(1) refl p(4)]; use old hit in blast)+
  then show ?thesis using r(1) m' p m by (auto simp: slot_fits_def)
qed

lemma coll_last:
  assumes m: "coll_ok env ty (H key) m" "ht_count m = 2" and j: "j < 2" "entries P m ! j = (k, Some v, c)" "sm key k"
  obtains ok ov oc where "hamt_at_index P m (1 - int j) = Some (ok, Some ov, oc)" "H ok = H key"
    "\<And>key'. (if sm key' ok then Some ov else None) = (if sm key key' then None else coll_lookup env ty m key')"
proof -
  let ?es = "entries P m"
  note pl = coll_plain [OF m(1)]
  have len: "length ?es = 2" using length_entries [OF plain_counted [OF pl], of P] m(2) by simp
  obtain ok w oc where o: "?es ! (1 - j) = (ok, w, oc)" by (metis prod_cases3)
  have at: "hamt_at_index P m (1 - int j) = Some (ok, w, oc)"
    using at_index_entries [OF pl _, of "1 - int j"] m(2) j(1) o by (auto simp: nat_diff_distrib')
  have set: "set ?es = {?es ! j, ?es ! (1 - j)}" using len j(1) by (rule set_two)
  have e: "(ok, w, oc) \<in> set ?es" "(k, Some v, c) \<in> set ?es" using set o j(2) by auto
  have f: "hfind P m 0 oc = Some (KeyS ok, w)" "hfind P m 0 c = Some (KeyS k, Some v)" using e plain_entries [OF pl] by blast+
  obtain ov where w: "w = Some ov" using hfind_val [OF pl _ f(1)] by auto
  have "distinct (map (\<lambda>(k, v, c). c) ?es)" by (rule plain_distinct [OF pl])
  then have "oc \<noteq> c" using len o j by (auto simp: distinct_conv_nth less_2_cases_iff)
  then have ns: "\<not> sm k ok" using coll_unique [OF m(1) f(2,1)] by blast
  have mem: "hfind P m 0 d = Some (KeyS x, y) \<longleftrightarrow> (x, y, d) = (k, Some v, c) \<or> (x, y, d) = (ok, Some ov, oc)" for d x y
    using plain_entries [OF pl, symmetric] set o j(2) w by simp
  have "(if sm key' ok then Some ov else None) = (if sm key key' then None else coll_lookup env ty m key')" for key'
  proof -
    have iff: "(\<exists>d x. hfind P m 0 d = Some (KeyS x, Some y) \<and> sm key' x) \<longleftrightarrow> y = v \<and> sm key' k \<or> y = ov \<and> sm key' ok" for y
      by (auto simp: mem)
    have kk: "sm key' k \<longleftrightarrow> sm key key'" using same_right [OF j(3), of key'] same_sym by blast
    show ?thesis
    proof (cases "sm key key'")
      case True
      then have "\<not> sm key' ok" using kk ns same_left [of key' k ok] by blast
      then show ?thesis using True by simp
    next
      case False
      have "coll_lookup env ty m key' = (if sm key' ok then Some ov else None)"
        by (rule coll_lookup_eqI [OF m(1)], subst iff) (use False kk in auto)
      then show ?thesis using False by simp
    qed
  qed
  then show thesis using that [of ok ov oc] at w coll_keys_hash [OF m(1) f(1)] by blast
qed

lemma set_coll_spec:
  assumes t: "tree_wf env t" "ht_type t = ty" and f: "hfind P t 0 (H key) = Some (NodeS m, v)"
    and small: "ht_count t < 2 ^ 30" and room: "ty = scheme_eq_hash_tree_type \<Longrightarrow> crowd env t key < 32"
  shows "\<exists>t'. scheme_hash_tree_set env t key val = Some t' \<and> updated env t key val t'"
proof -
  note u = set_coll [OF t f, of val]
  have m: "coll_ok env ty (H key) m" "ht_type m = scheme_hash_tree_collision_type" "2 \<le> ht_count m"
    using found_fits [OF t f] by (auto simp: slot_fits_def)
  note pl = coll_plain [OF m(1)]
  have e: "Some (NodeS m, v) = Some (entry (NodeS m) v)" using hfind_node [OF tree_hwf [OF t] _ f] by (simp add: entry_def)
  have look: "tree_lookup env t key = coll_lookup env ty m key" using f e t(2) by (simp add: hash_lookup)
  have put: "\<exists>t'. hamt_set P t (H key) 0 x w inc = Some t' \<and> updated env t key val t'"
    if "slot_fits env ty (H key) x" "\<And>k. x = KeyS k \<Longrightarrow> w \<noteq> None" "inc = weight x - ht_count m"
      "inc = of_bool (val \<noteq> None) - of_bool (coll_lookup env ty m key \<noteq> None)"
      "\<And>key'. slot_lookup env ty (Some (entry x w)) key' = (if sm key key' then val else coll_lookup env ty m key')"
    for x w inc
    by (rule stored [OF t]) (use that f e look weight_found [OF t f] in auto)
  show ?thesis
  proof (cases rule: linear_search_cases [OF pl, of ty key])
    case 1
    then have none: "coll_lookup env ty m key = None" by (intro coll_lookup_eqI [OF m(1)]) auto
    show ?thesis
    proof (cases val)
      case None
      then show ?thesis using unchanged [OF t, of val key] 1(1) none look u by simp
    next
      case (Some w)
      have cm: "ht_count m < 2 ^ 30" using coll_within(1) [OF t f] small by simp
      obtain d where d: "hamt_find_free_code P m 0 0 = Some d" "hfind P m 0 d = None"
        "length (ht_els m) < 32 \<Longrightarrow> take_bit 5 d = d"
        using hamt_find_free_code_spec [OF pl, of 0] cm by auto
      have "ty = scheme_eq_hash_tree_type \<Longrightarrow> length (ht_els m) < 32"
        using room coll_within(2) [OF t f refl] sum_list_ge_length [of "ht_els m" weight] hwf_weights [OF pl] hwfD(4) [OF pl]
        by force
      then obtain m' where m': "hamt_set P m d 0 (KeyS key) val 1 = Some m'" "slot_fits env ty (H key) (NodeS m')"
        "ht_count m' = ht_count m + 1"
        "\<And>key'. coll_lookup env ty m' key' = (if sm key key' then val else coll_lookup env ty m key')"
        using coll_set [OF m, of d 1 w] d none Some by auto
      have "scheme_hash_tree_set env t key val = hamt_set P t (H key) 0 (NodeS m') None 1"
        unfolding u using 1(1) d(1) m'(1) Some by simp
      moreover have "\<exists>t'. hamt_set P t (H key) 0 (NodeS m') None 1 = Some t' \<and> updated env t key val t'"
        by (rule put) (simp_all add: m' Some none)
      ultimately show ?thesis by simp
    qed
  next
    case (2 j k w c)
    have some: "coll_lookup env ty m key = Some w" using coll_lookup_Some [OF m(1)] 2(4,5) by blast
    have len: "int (length (entries P m)) = ht_count m" by (rule length_entries [OF plain_counted [OF pl]])
    consider (two) "val = None" "ht_count m = 2" | (more) "val = None" "3 \<le> ht_count m" | (replace) x where "val = Some x" using m(3) by fastforce
    then show ?thesis
    proof cases
      case two
      have j2: "j < 2" using 2(2) len two(2) by simp
      show ?thesis
      proof (rule coll_last [OF m(1) two(2) j2 2(3,5)])
        fix ok ov oc
        assume oth: "hamt_at_index P m (1 - int j) = Some (ok, Some ov, oc)" "H ok = H key"
          "\<And>key'. (if sm key' ok then Some ov else None) = (if sm key key' then None else coll_lookup env ty m key')"
        have "scheme_hash_tree_set env t key val = hamt_set P t (H key) 0 (KeyS ok) (Some ov) (- 1)"
          unfolding u using 2(1) oth(1) two by simp
        moreover have "\<exists>t'. hamt_set P t (H key) 0 (KeyS ok) (Some ov) (- 1) = Some t' \<and> updated env t key val t'"
          by (rule put) (simp_all only: slot_lookup_key oth(3) two, simp_all add: slot_fits_def oth(2) some)
        ultimately show ?thesis by simp
      qed
    next
      case more
      obtain m' where m': "hamt_remove P m c 0 = Some (Some m')" "slot_fits env ty (H key) (NodeS m')"
        "ht_count m' = ht_count m - 1"
        "\<And>key'. coll_lookup env ty m' key' = (if sm key key' then None else coll_lookup env ty m key')"
        using coll_remove [OF m(1,2) more(2) 2(4,5)] by blast
      have "scheme_hash_tree_set env t key val = hamt_set P t (H key) 0 (NodeS m') None (- 1)"
        unfolding u using 2(1) m'(1) more by simp
      moreover have "\<exists>t'. hamt_set P t (H key) 0 (NodeS m') None (- 1) = Some t' \<and> updated env t key val t'"
        by (rule put) (simp_all add: m' more some)
      ultimately show ?thesis by simp
    next
      case replace
      have "ty = scheme_eq_hash_tree_type \<Longrightarrow> take_bit 5 c = c" using m(1) 2(4) by (auto simp: coll_ok_def)
      then obtain m' where m': "hamt_set P m c 0 (KeyS key) val 0 = Some m'" "slot_fits env ty (H key) (NodeS m')"
        "ht_count m' = ht_count m"
        "\<And>key'. coll_lookup env ty m' key' = (if sm key key' then val else coll_lookup env ty m key')"
        using coll_set [OF m, of c 0 x] 2(4,5) replace by auto
      have "scheme_hash_tree_set env t key val = hamt_set P t (H key) 0 (NodeS m') None 0"
        unfolding u using 2(1) m'(1) replace by simp
      moreover have "\<exists>t'. hamt_set P t (H key) 0 (NodeS m') None 0 = Some t' \<and> updated env t key val t'"
        by (rule put) (simp_all add: m' replace some)
      ultimately show ?thesis by simp
    qed
  qed
qed

theorem set_spec:
  assumes t: "tree_wf env t" "ht_type t = ty"
    and small: "ht_count t < 2 ^ 30" and room: "ty = scheme_eq_hash_tree_type \<Longrightarrow> crowd env t key < 32"
  shows "\<exists>t'. scheme_hash_tree_set env t key val = Some t' \<and> updated env t key val t'"
proof (cases "hfind P t 0 (H key)")
  case None
  then show ?thesis by (rule set_miss_spec [OF t])
next
  case (Some e)
  obtain x v where e: "e = (x, v)" by force
  show ?thesis
  proof (cases x)
    case (KeyS k)
    then show ?thesis using set_key_spec [OF t] Some e by simp
  next
    case (NodeS m)
    then show ?thesis using set_coll_spec [OF t _ small room] Some e by simp
  qed (use found_fits [OF t, of "H key" NullS v] Some e in \<open>simp add: slot_fits_def\<close>)
qed

lemma empty_wf:
  "tree_wf env (scheme_make_hash_tree_of_type ty) \<and> ht_type (scheme_make_hash_tree_of_type ty) = ty
   \<and> ht_count (scheme_make_hash_tree_of_type ty) = 0 \<and> tree_lookup env (scheme_make_hash_tree_of_type ty) key = None"
proof -
  define kind where "kind = (if ty = scheme_eq_hash_tree_type then 0 else HASHTR_HAS_CODE OR HASHTR_HAS_VAL)"
  define t where "t = set_flags kind (set_type ty (hamt_alloc kind 0))"
  have mk: "scheme_make_hash_tree_of_type ty = t"
    using ty by (auto simp: scheme_make_hash_tree_of_type_def scheme_make_hash_tree_def make_hash_tree_def t_def kind_def
        table_type_def Let_def SCHEME_hashtr_eq_def SCHEME_hashtr_equal_def SCHEME_hashtr_eqv_def)
  have ht: "ht_type t = ty" "ht_count t = 0" by (simp_all add: t_def hamt_alloc_def)
  have wf: "hwf (coll_any env ty) P (ty \<noteq> scheme_eq_hash_tree_type) 0 0 t"
    unfolding t_def empty_tree by (auto simp: kind_def bit_or_iff simp del: One_nat_def)
  have none: "hfind P t 0 c = None" for c unfolding t_def by (rule empty_tree)
  have "tree_wf env t" by (rule tree_wf_intro [OF ht(1) wf]) (simp add: none)
  then show ?thesis using ht none by (simp add: mk tree_lookup_def slot_lookup_def)
qed

section \<open>Iteration\<close>

text \<open>The entries below one leaf.\<close>

definition leaf_entries :: "hnode \<times> nat \<Rightarrow> (obj \<times> obj option \<times> code) list" where
  "leaf_entries l = map (cell_entry P) (case leaf_slot l of NodeS n \<Rightarrow> cells n 0 | _ \<Rightarrow> [l])"

lemma entries_leaves:
  "tree_wf env t \<Longrightarrow> ht_type t = ty \<Longrightarrow> entries P t = concat (map leaf_entries (leaves t 0))"
  using cells_expand [OF tree_counted, of t 0] by (simp add: entries_def leaf_entries_def [abs_def] map_concat comp_def)

lemma leaf_entries_cases:
  assumes t: "tree_wf env t" "ht_type t = ty" and l: "l \<in> set (leaves t 0)"
  obtains k where "leaf_slot l = KeyS k" "leaf_entries l = [(k, leaf_val l, leaf_code P l)]"
      "hfind P t 0 (leaf_code P l) = Some (KeyS k, leaf_val l)" "H k = leaf_code P l"
  | n where "leaf_slot l = NodeS n" "leaf_entries l = entries P n" "coll_ok env ty (leaf_code P l) n"
      "hfind P t 0 (leaf_code P l) = Some (NodeS n, None)"
proof -
  note f = leaf_found [OF tree_hwf [OF t] _ l]
  have fits: "slot_fits env ty (leaf_code P l) (leaf_slot l)"
    using found_fits [OF t] f by (auto simp: leaf_entry_def entry_def)
  show thesis
  proof (cases "leaf_slot l")
    case (KeyS k)
    then show thesis using that(1) [OF KeyS] fits f
      by (simp add: leaf_entries_def cell_entry_def slot_fits_def leaf_entry_def entry_def)
  next
    case (NodeS n)
    then show thesis using that(2) [OF NodeS] fits f
      by (simp add: leaf_entries_def entries_def slot_fits_def leaf_entry_def entry_def)
  qed (use fits in \<open>simp add: slot_fits_def\<close>)
qed

lemma leaf_entries_hash:
  assumes t: "tree_wf env t" "ht_type t = ty" and l: "l \<in> set (leaves t 0)" and e: "(k, v, d) \<in> set (leaf_entries l)"
  shows "H k = leaf_code P l" "tree_lookup env t k = v" "v \<noteq> None"
proof -
  have "H k = leaf_code P l \<and> tree_lookup env t k = v \<and> v \<noteq> None"
  proof (cases rule: leaf_entries_cases [OF t l])
    case (1 k')
    then show ?thesis using e t(2) hfind_val [OF tree_hwf [OF t] _ 1(3)] same_refl
      by (auto simp: tree_lookup_def slot_lookup_def)
  next
    case (2 n)
    have f: "hfind P n 0 d = Some (KeyS k, v)" using e 2 plain_entries [OF coll_plain [OF 2(3)]] by simp
    obtain w where w: "v = Some w" using hfind_val [OF coll_plain [OF 2(3)] _ f] by auto
    have h: "H k = leaf_code P l" using coll_keys_hash [OF 2(3) f] .
    have "coll_lookup env ty n k = Some w" using coll_lookup_Some [OF 2(3)] f w same_refl by blast
    then show ?thesis using h 2(4) t(2) w by (simp add: tree_lookup_def slot_lookup_def)
  qed
  then show "H k = leaf_code P l" "tree_lookup env t k = v" "v \<noteq> None" by auto
qed

lemma lookup_entry:
  assumes t: "tree_wf env t" "ht_type t = ty"
  shows "tree_lookup env t key = Some v \<longleftrightarrow> (\<exists>k d. (k, Some v, d) \<in> set (entries P t) \<and> sm key k)"
proof
  assume "\<exists>k d. (k, Some v, d) \<in> set (entries P t) \<and> sm key k"
  then obtain k d l where "l \<in> set (leaves t 0)" "(k, Some v, d) \<in> set (leaf_entries l)" "sm key k"
    using entries_leaves [OF t] by auto
  then show "tree_lookup env t key = Some v" using leaf_entries_hash(2) [OF t] lookup_same [OF t] by metis
next
  assume look: "tree_lookup env t key = Some v"
  then obtain x w where f: "hfind P t 0 (H key) = Some (x, w)" using t(2)
    by (auto simp: tree_lookup_def slot_lookup_def split: option.splits)
  obtain l where l: "l \<in> set (leaves t 0)" "leaf_code P l = H key" "leaf_entry l = (x, w)"
    using found_leaf [OF tree_hwf [OF t] f] by blast
  have "\<exists>k d. (k, Some v, d) \<in> set (leaf_entries l) \<and> sm key k"
  proof (cases rule: leaf_entries_cases [OF t l(1)])
    case (1 k)
    then show ?thesis using look l f t(2) by (auto simp: tree_lookup_def slot_lookup_def split: if_splits)
  next
    case (2 n)
    then have "coll_lookup env ty n key = Some v" using look l t(2) by (simp add: tree_lookup_def slot_lookup_def)
    then show ?thesis using coll_lookup_Some [OF 2(3)] plain_entries [OF coll_plain [OF 2(3)]] 2(2) by auto
  qed
  then show "\<exists>k d. (k, Some v, d) \<in> set (entries P t) \<and> sm key k" using l(1) entries_leaves [OF t] by auto
qed

lemma entries_distinct:
  assumes t: "tree_wf env t" "ht_type t = ty"
  shows "sorted_wrt (\<lambda>e e'. \<not> sm (fst e) (fst e')) (entries P t)"
proof -
  have one: "sorted_wrt (\<lambda>e e'. \<not> sm (fst e) (fst e')) (leaf_entries l)" if l: "l \<in> set (leaves t 0)" for l
  proof (cases rule: leaf_entries_cases [OF t l])
    case (2 n)
    note pl = coll_plain [OF 2(3)]
    show ?thesis
      unfolding 2(2) sorted_wrt_iff_nth_less
    proof (intro allI impI notI)
      fix i j assume ij: "i < j" "j < length (entries P n)" and sm: "sm (fst (entries P n ! i)) (fst (entries P n ! j))"
      obtain k v d k' v' d' where e: "entries P n ! i = (k, v, d)" "entries P n ! j = (k', v', d')"
        by (metis prod_cases3)
      have "(k, v, d) \<in> set (entries P n)" "(k', v', d') \<in> set (entries P n)"
        using ij nth_mem [of i "entries P n"] nth_mem [of j "entries P n"] by (auto simp: e)
      then have "hfind P n 0 d = Some (KeyS k, v)" "hfind P n 0 d' = Some (KeyS k', v')"
        using plain_entries [OF pl] by blast+
      then have "d = d'" using coll_unique [OF 2(3)] sm by (simp add: e)
      moreover have "d \<noteq> d'" using plain_distinct [OF pl] ij e nth_eq_iff_index_eq [of "map (\<lambda>(k, v, c). c) (entries P n)" i j] by simp
      ultimately show False by simp
    qed
  qed simp
  have "sorted_wrt (\<lambda>e e'. \<not> sm (fst e) (fst e')) (concat (map leaf_entries ls))"
    if "set ls \<subseteq> set (leaves t 0)" "distinct (map (leaf_code P) ls)" for ls
    using that
  proof (induction ls)
    case (Cons l ls)
    have "\<not> sm (fst e) (fst e')" if e: "e \<in> set (leaf_entries l)" "l' \<in> set ls" "e' \<in> set (leaf_entries l')" for e e' l'
    proof -
      have "H (fst e) = leaf_code P l" "H (fst e') = leaf_code P l'"
        using leaf_entries_hash(1) [OF t, of l "fst e" "fst (snd e)" "snd (snd e)"]
          leaf_entries_hash(1) [OF t, of l' "fst e'" "fst (snd e')" "snd (snd e')"] e Cons.prems(1) by auto
      moreover have "leaf_code P l \<noteq> leaf_code P l'" using Cons.prems(2) e(2) by auto
      ultimately show ?thesis using same_hash by metis
    qed
    then show ?case using Cons one by (auto simp: sorted_wrt_append)
  qed simp
  then show ?thesis using leaves_distinct_codes [OF tree_hwf [OF t]] entries_leaves [OF t] by simp
qed

end

end
