(* ===== verification/HashTreeLaws.thy ===== *)
theory HashTreeLaws
  imports HashTreeUpdate
begin

text \<open>
  The theorems about immutable hash tables, stated over the functions of \<open>hash.c\<close>: lookup,
  update and removal, counting, iteration, reachable tables, and the bit-level helpers.
\<close>

section \<open>Tables compared with \<open>eq?\<close>\<close>


section \<open>Positions\<close>

context key_laws begin

lemma index_nth:
  assumes t: "tree_wf env t" "ht_type t = ty" and pos: "0 \<le> pos" "pos < ht_count t"
  shows "\<exists>k v d. scheme_hash_tree_index P t pos = Some (Some (k, Some v)) \<and> entries P t ! nat pos = (k, Some v, d)
    \<and> (k, Some v, d) \<in> set (entries P t)"
proof -
  obtain k v d where e: "entries P t ! nat pos = (k, v, d)" by (metis prod_cases3)
  have len: "nat pos < length (entries P t)" using pos length_entries [OF tree_counted [OF t], of P] by linarith
  have mem: "(k, v, d) \<in> set (entries P t)" using nth_mem [OF len] e by simp
  then obtain l where "l \<in> set (leaves t 0)" "(k, v, d) \<in> set (leaf_entries l)" using entries_leaves [OF t] by auto
  then obtain w where "v = Some w" using leaf_entries_hash(3) [OF t] by blast
  moreover have "scheme_hash_tree_index P t pos = Some (Some (k, v))"
    using tree_resolve [OF t(1)] pos at_index_entries [OF tree_hwf [OF t] coll_any_plain, of pos] e
    by (simp add: scheme_hash_tree_index_def)
  ultimately show ?thesis using e mem by blast
qed

lemma index_entry:
  assumes t: "tree_wf env t" "ht_type t = ty" and pos: "0 \<le> pos" "pos < ht_count t"
  shows "\<exists>k v. scheme_hash_tree_index P t pos = Some (Some (k, Some v)) \<and> scheme_hash_tree_get env t k = Some (Some v)"
proof -
  obtain k v d where e: "scheme_hash_tree_index P t pos = Some (Some (k, Some v))" "(k, Some v, d) \<in> set (entries P t)"
    using index_nth [OF assms] by blast
  then have "tree_lookup env t k = Some v" using lookup_entry [OF t] same_refl by blast
  then show ?thesis using e get_spec [OF t] by simp
qed

lemma index_past:
  assumes t: "tree_wf env t" "ht_type t = ty" and pos: "ht_count t \<le> pos"
  shows "scheme_hash_tree_index P t pos = Some None"
  using tree_resolve [OF t(1)] pos by (simp add: scheme_hash_tree_index_def)

lemma index_unique:
  assumes t: "tree_wf env t" "ht_type t = ty" and g: "scheme_hash_tree_get env t key = Some (Some v)"
  shows "\<exists>!pos. 0 \<le> pos \<and> pos < ht_count t
    \<and> (\<exists>k. sm key k \<and> scheme_hash_tree_index P t pos = Some (Some (k, Some v)))"
proof -
  let ?es = "entries P t"
  have len: "int (length ?es) = ht_count t" using length_entries [OF tree_counted [OF t], of P] .
  obtain k d where "(k, Some v, d) \<in> set ?es" "sm key k" using g get_spec [OF t] lookup_entry [OF t] by auto
  then obtain i where i: "i < length ?es" "?es ! i = (k, Some v, d)" "sm key k" by (auto simp: in_set_conv_nth)
  have pos: "0 \<le> int i" "int i < ht_count t" using i(1) len by auto
  show ?thesis
  proof (rule ex1I [of _ "int i"])
    show "0 \<le> int i \<and> int i < ht_count t \<and> (\<exists>k. sm key k \<and> scheme_hash_tree_index P t (int i) = Some (Some (k, Some v)))"
      using index_nth [OF t pos] i pos by auto
  next
    fix q assume q: "0 \<le> q \<and> q < ht_count t \<and> (\<exists>k. sm key k \<and> scheme_hash_tree_index P t q = Some (Some (k, Some v)))"
    then obtain k' w d' where k': "?es ! nat q = (k', w, d')" "sm key k'" using index_nth [OF t, of q] by auto
    have "sm k k'" "sm k' k" using same_left [OF i(3)] k'(2) same_sym by blast+
    moreover have "nat q < length ?es" using q len by linarith
    ultimately have "nat q = i"
      using i(1,2) k'(1) sorted_wrt_nth_less [OF entries_distinct [OF t], of i "nat q"]
        sorted_wrt_nth_less [OF entries_distinct [OF t], of "nat q" i]
      by (cases "nat q" i rule: linorder_cases) auto
    then show "q = int i" using q by auto
  qed
qed

end

section \<open>Reachable tables\<close>



section \<open>Concrete keys\<close>

text \<open>
  Two ways to hash keys that are compared by identity, at which the theorems below are
  evaluated: a fixnum or an address hashes to itself, or all keys hash to the same code.
\<close>

fun word_of_obj :: "obj \<Rightarrow> code" where
  "word_of_obj (Fixnum i) = word_of_int i"
| "word_of_obj (Ptr a) = word_of_nat a"
| "word_of_obj scheme_true = 1"
| "word_of_obj scheme_false = 2"
| "word_of_obj scheme_null = 3"
| "word_of_obj scheme_void = 4"

definition word_env :: key_env where
  "word_env = \<lparr>ptr_to_long = word_of_obj, equal_hash_key = word_of_obj, equal_hash_key2 = word_of_obj, eqv_hash_key = word_of_obj,
     scheme_equal = (=), scheme_eqv = (=)\<rparr>"

definition clash_env :: key_env where
  "clash_env = \<lparr>ptr_to_long = (\<lambda>_. 0), equal_hash_key = (\<lambda>_. 0), equal_hash_key2 = (\<lambda>_. 0), eqv_hash_key = (\<lambda>_. 0),
     scheme_equal = (=), scheme_eqv = (=)\<rparr>"

lemma concrete_same [simp]: "same word_env ty k k' \<longleftrightarrow> k = k'" "same clash_env ty k k' \<longleftrightarrow> k = k'"
  by (simp_all add: same_def key_same_def word_env_def clash_env_def equal_w_key_wraps_def apply_equal_key_wraps_def)

lemma concrete_laws [simp]: "table_type ty \<Longrightarrow> key_laws word_env ty" "table_type ty \<Longrightarrow> key_laws clash_env ty"
  by (auto simp: key_laws_def)

lemmas empty_table [simp] = key_laws.empty_wf [OF concrete_laws(1)] key_laws.empty_wf [OF concrete_laws(2)]

lemma table_types [simp]:
  "table_type scheme_eq_hash_tree_type" "table_type scheme_hash_tree_type" "table_type scheme_eqv_hash_tree_type"
  by (simp_all add: table_type_def)

section \<open>Properties\<close>






text \<open>
  C3. Iteration by position visits every entry of an immutable hash table exactly once: each position
  below the count gives a key and the value a lookup of that key finds, no other position gives
  anything, and the key of every successful lookup is found at exactly one position.
\<close>

theorem hash_tree_iteration:
  assumes "key_laws env (ht_type t)" "tree_wf env t"
  shows "(\<forall>pos. 0 \<le> pos \<and> pos < ht_count t \<longrightarrow>
      (\<exists>k v. scheme_hash_tree_index (ptr_to_long env) t pos = Some (Some (k, Some v))
        \<and> scheme_hash_tree_get env t k = Some (Some v)))
    \<and> (\<forall>pos. ht_count t \<le> pos \<longrightarrow> scheme_hash_tree_index (ptr_to_long env) t pos = Some None)
    \<and> (\<forall>key v. scheme_hash_tree_get env t key = Some (Some v) \<longrightarrow>
         (\<exists>!pos. 0 \<le> pos \<and> pos < ht_count t \<and> (\<exists>k. same env (ht_type t) key k
            \<and> scheme_hash_tree_index (ptr_to_long env) t pos = Some (Some (k, Some v)))))"
  using key_laws.index_entry [OF assms refl] key_laws.index_past [OF assms refl] key_laws.index_unique [OF assms refl]
  by blast


theorem hash_tree_iteration_witness:
  "scheme_hash_tree_index (ptr_to_long word_env) (scheme_make_hash_tree_of_type scheme_eqv_hash_tree_type) 0 = Some None"
  using hash_tree_iteration [of word_env "scheme_make_hash_tree_of_type scheme_eqv_hash_tree_type"] by simp



text \<open>C5. The word-parallel population count of a bitmap is the number of its set bits.\<close>

theorem hamt_popcount_correct: "hamt_popcount x = card {i. bit x i}"
proof -
  have "{i. bit x i} = set (filter (bit x) [0..<32])" using bit_less_32 by auto
  moreover have "distinct (filter (bit x) [0..<32])" by simp
  ultimately show ?thesis using hamt_popcount_filter distinct_card by metis
qed

text \<open>
  C6. The code chosen for a new key of a collision node of fewer than \<open>2 ^ 30\<close> keys is in use nowhere
  in the node, at whatever depth of subtrees it is found.
\<close>

theorem hamt_find_free_code_fresh:
  assumes "plain h n" "ht_count n < 2 ^ 30"
  shows "\<exists>c. hamt_find_free_code h n 0 0 = Some c \<and> hamt_assoc h n c 0 = Some None"
  using hamt_find_free_code_spec [OF assms(1), of 0] assms(2) assoc_miss [OF assms(1)] by auto

theorem hamt_find_free_code_fresh_witness:
  "\<exists>c. hamt_find_free_code word_of_obj (scheme_make_hash_tree_of_type scheme_hash_tree_type) 0 0 = Some c
    \<and> hamt_assoc word_of_obj (scheme_make_hash_tree_of_type scheme_hash_tree_type) c 0 = Some None"
proof -
  have "plain word_of_obj (scheme_make_hash_tree_of_type scheme_hash_tree_type)"
    by (simp add: scheme_make_hash_tree_of_type_def scheme_make_hash_tree_def make_hash_tree_def Let_def
        SCHEME_hashtr_equal_def key_laws.empty_tree [OF concrete_laws(1) [OF table_types(1)]] bit_or_iff del: One_nat_def)
  then show ?thesis using hamt_find_free_code_fresh by simp
qed

text \<open>
  The reordering exchanges the upper two bits of each of the four low nibbles with those of the
  nibble 16 bits above.
\<close>

definition reorder_bit :: "nat \<Rightarrow> nat" where
  "reorder_bit n = (if n < 16 \<and> n mod 4 \<ge> 2 then n + 16 else if 16 \<le> n \<and> n < 32 \<and> n mod 4 \<ge> 2 then n - 16 else n)"

lemma upt_64: "[0..<64] = 0 # Suc 0 # [2..<64]"
  by (simp add: upt_conv_Cons numeral_2_eq_2)

lemma bit_HAMT_REORDER: "n < 64 \<Longrightarrow> bit (HAMT_REORDER h) n = bit h (reorder_bit n)"
proof -
  have "list_all (\<lambda>n. bit (HAMT_REORDER h) n = bit h (reorder_bit n)) [0..<64]"
    unfolding upt_64 by (simp add: upt_rec_numeral HAMT_REORDER_def HIGH_PART_def LOW_LOW_PARTS_def HIGH_LOW_PARTS_def PART_BIT_COUNT_def
        reorder_bit_def bit_simps)
  then show "n < 64 \<Longrightarrow> bit (HAMT_REORDER h) n = bit h (reorder_bit n)" by (simp add: list_all_iff)
qed

lemma reorder_twice: "n < 64 \<Longrightarrow> reorder_bit n < 64 \<and> reorder_bit (reorder_bit n) = n"
proof -
  have "list_all (\<lambda>n. reorder_bit n < 64 \<and> reorder_bit (reorder_bit n) = n) [0..<64]"
    unfolding upt_64 by (simp add: upt_rec_numeral reorder_bit_def)
  then show "n < 64 \<Longrightarrow> reorder_bit n < 64 \<and> reorder_bit (reorder_bit n) = n" by (simp add: list_all_iff)
qed

text \<open>
  C7. Reordering the bits of a hash code for the trie loses nothing: doing it twice gives the code back,
  so distinct codes stay distinct.
\<close>

theorem HAMT_REORDER_involution: "HAMT_REORDER (HAMT_REORDER h) = h"
proof (rule bit_word_eqI)
  fix n assume n: "n < LENGTH(64)"
  then show "bit (HAMT_REORDER (HAMT_REORDER h)) n = bit h n"
    using reorder_twice [of n] by (simp add: bit_HAMT_REORDER)
qed

text \<open>
  C8. A placeholder, made to build cyclic tables and tied to a table later, answers every lookup and
  every positional access as the table it is tied to, and so does the result of updating it.
\<close>

theorem hash_tree_placeholder:
  assumes "table_type (ht_type base)"
  shows "\<exists>t t'. scheme_make_hash_tree_placeholder eql_kind = Some t \<and> scheme_hash_tree_tie_placeholder t base = Some t'
    \<and> ht_count t' = ht_count base
    \<and> (\<forall>key. scheme_hash_tree_get env t' key = scheme_hash_tree_get env base key)
    \<and> (\<forall>pos. scheme_hash_tree_index h t' pos = scheme_hash_tree_index h base pos)"
proof -
  have b: "resolve_placeholder base = Some base" using assms by (auto simp: resolve_placeholder_def table_type_def)
  obtain t where t: "scheme_make_hash_tree_placeholder eql_kind = Some t"
    "ht_type t = scheme_hash_tree_indirection_type" "length (ht_els t) = 1"
    by (auto simp: scheme_make_hash_tree_placeholder_def make_hash_tree_def hamt_alloc_def hamt_set_slot_def wr_def Let_def)
  define t' where "t' = set_els [NodeS base] (set_count (ht_count base) t)"
  have tie: "scheme_hash_tree_tie_placeholder t base = Some t'"
    using t(3) by (cases t) (auto simp: scheme_hash_tree_tie_placeholder_def hamt_set_slot_def wr_def t'_def length_Suc_conv)
  have r: "resolve_placeholder t' = Some base" using t(2) by (cases t) (simp add: t'_def resolve_placeholder_def rd_def)
  have "ht_count t' = ht_count base" by (cases t) (simp add: t'_def)
  then show ?thesis using t(1) tie r b
    by (simp add: scheme_hash_tree_get_def scheme_hash_tree_get_w_key_wraps_def scheme_hash_tree_index_def)
qed

theorem hash_tree_placeholder_witness:
  "\<exists>t t'. scheme_make_hash_tree_placeholder 1 = Some t
    \<and> scheme_hash_tree_tie_placeholder t (scheme_make_hash_tree_of_type scheme_hash_tree_type) = Some t' \<and> ht_count t' = 0"
  using hash_tree_placeholder [of "scheme_make_hash_tree_of_type scheme_hash_tree_type" 1 word_env word_of_obj]
    key_laws.empty_wf [OF concrete_laws(1) [OF table_types(2)]] by auto




end
