(* ===== verification/Probe.thy ===== *)
theory Probe
  imports Prelude
begin

text \<open>
  Open addressing with double hashing, the scheme that the mutable hash tables and the
  bucket tables of \<open>hash.c\<close> and the symbol table of \<open>symbol.c\<close> share: a table of
  \<open>2 ^ e\<close> slots, a first slot from one hash of the key, a step from a second one made odd,
  and slots that have never been used, hold a key, or are left over from a removed key.
\<close>

section \<open>Slots\<close>

datatype 'k slot = Null | Gone | Key 'k

text \<open>The slot visited after \<open>n\<close> steps from slot \<open>a\<close> with step \<open>d\<close>.\<close>

definition visit :: "nat \<Rightarrow> nat \<Rightarrow> nat \<Rightarrow> nat \<Rightarrow> nat" where
  "visit e a d n = (a + n * d) mod 2 ^ e"

lemma visit_less [simp]: "visit e a d n < 2 ^ e"
  by (simp add: visit_def)

lemma visit_0: "visit e a d 0 = a mod 2 ^ e"
  by (simp add: visit_def)

lemma visit_Suc: "visit e a d (Suc n) = (visit e a d n + d) mod 2 ^ e"
  by (simp add: visit_def add.commute add.left_commute mod_simps)

text \<open>An odd step visits every slot within the first \<open>2 ^ e\<close> steps.\<close>

lemma visit_inj:
  assumes d: "odd d" and mn: "m < 2 ^ e" "n < 2 ^ e" "visit e a d m = visit e a d n"
  shows "m = n"
proof -
  have less: "x = y" if "x \<le> y" "y < 2 ^ e" "(a + x * d) mod 2 ^ e = (a + y * d) mod 2 ^ e" for x y
  proof -
    have "2 ^ e dvd (a + y * d) - (a + x * d)"
      using that(1,3) by (metis add_left_mono mod_eq_dvd_iff_nat mult_le_mono1)
    then have "2 ^ e dvd (y - x) * d" by (simp add: diff_mult_distrib)
    moreover have "coprime (2 ^ e) d" using d by (simp add: coprime_power_left_iff)
    ultimately have "2 ^ e dvd y - x" by (simp add: coprime_dvd_mult_left_iff)
    then show "x = y" using that(1,2) by (meson diff_is_0_eq dual_order.antisym dvd_imp_le less_imp_diff_less not_less zero_less_diff)
  qed
  show ?thesis using less [of m n] less [of n m] mn by (cases "m \<le> n") (auto simp: visit_def)
qed

lemma visit_surj:
  assumes "odd d" "i < 2 ^ e"
  shows "\<exists>n<2 ^ e. visit e a d n = i"
proof -
  have "visit e a d ` {..<2 ^ e} = {..<2 ^ e}"
    by (rule card_subset_eq) (use visit_inj [OF assms(1)] in \<open>auto simp: card_image inj_on_def\<close>)
  then show ?thesis using assms(2) by (metis (no_types, lifting) image_iff lessThan_iff)
qed

text \<open>The same step on machine words.\<close>

lemma mask_and: "e < 64 \<Longrightarrow> x AND (word_of_nat (2 ^ e) - 1) = take_bit e (x :: 64 word)"
  by (simp add: take_bit_eq_mask mask_eq_exp_minus_1)

lemma unat_take_bit_64: "unat (take_bit e (x :: 64 word)) = unat x mod 2 ^ e"
  by (simp add: unsigned_take_bit_eq take_bit_nat_def)

lemma word_step:
  fixes h d :: "64 word"
  assumes e: "e < 63" and h: "unat h < 2 ^ e" and d: "unat d < 2 ^ e"
  shows "unat (take_bit e (h + d)) = (unat h + unat d) mod 2 ^ e"
proof -
  have "(2::nat) ^ e \<le> 2 ^ 62" using e by (intro power_increasing) auto
  then have "unat h + unat d < 2 ^ LENGTH(64)" using h d by simp
  then have "unat (h + d) = unat h + unat d" by (rule unat_add_lem [THEN iffD1])
  then show ?thesis by (simp add: unat_take_bit_64)
qed

lemma odd_step:
  fixes x :: "64 word"
  assumes "0 < e" "e < 64"
  shows "odd (unat (take_bit e x OR 1))" "unat (take_bit e x OR 1) < 2 ^ e" "take_bit e x OR 1 \<noteq> 0"
proof -
  have "bit (unat (take_bit e x OR 1)) 0" by (simp add: bit_unsigned_iff bit_or_iff)
  then show "odd (unat (take_bit e x OR 1))" using bit_0 by blast
  have "take_bit e (take_bit e x OR 1) = take_bit e x OR 1" using assms by (simp add: take_bit_or)
  then show "unat (take_bit e x OR 1) < 2 ^ e" by (metis unat_take_bit_64 mod_less_divisor zero_less_numeral zero_less_power)
  show "take_bit e x OR 1 \<noteq> 0" by (metis bit_1_0 bit_or_iff bit_0_eq bot_apply bot_bool_def)
qed


section \<open>Tables\<close>

text \<open>
  Two hash codes and a comparison of keys; equivalent keys have the same codes. A table
  is a list of slots in which every key can be reached from its own first slot without
  passing an unused slot.
\<close>

definition first_slot :: "nat \<Rightarrow> 64 word \<Rightarrow> nat" where
  "first_slot e hx = unat (take_bit e hx)"

definition slot_step :: "nat \<Rightarrow> 64 word \<Rightarrow> nat" where
  "slot_step e h2x = unat (take_bit e h2x OR 1)"

locale open_table =
  fixes hash1 hash2 :: "'k \<Rightarrow> 64 word" and equiv :: "'k \<Rightarrow> 'k \<Rightarrow> bool"
  assumes refl: "equiv k k"
    and sym: "equiv k k' \<Longrightarrow> equiv k' k"
    and trans: "equiv k k' \<Longrightarrow> equiv k' k'' \<Longrightarrow> equiv k k''"
    and hashes: "equiv k k' \<Longrightarrow> hash1 k = hash1 k' \<and> hash2 k = hash2 k'"
begin

definition at :: "nat \<Rightarrow> 'k \<Rightarrow> nat \<Rightarrow> nat" where
  "at e k n = visit e (first_slot e (hash1 k)) (slot_step e (hash2 k)) n"

definition table_ok :: "nat \<Rightarrow> 'k slot list \<Rightarrow> bool" where
  "table_ok e ks \<longleftrightarrow> 0 < e \<and> e < 63 \<and> length ks = 2 ^ e \<and> Null \<in> set ks
     \<and> (\<forall>i<2 ^ e. \<forall>k. ks ! i = Key k \<longrightarrow> (\<exists>n. at e k n = i \<and> (\<forall>m<n. ks ! at e k m \<noteq> Null)))
     \<and> (\<forall>i<2 ^ e. \<forall>j<2 ^ e. \<forall>k k'. ks ! i = Key k \<longrightarrow> ks ! j = Key k' \<longrightarrow> equiv k k' \<longrightarrow> i = j)"

text \<open>A search stops at an unused slot or at an equivalent key.\<close>

definition stops :: "'k slot list \<Rightarrow> 'k \<Rightarrow> nat \<Rightarrow> bool" where
  "stops ks k i \<longleftrightarrow> (case ks ! i of Null \<Rightarrow> True | Gone \<Rightarrow> False | Key k' \<Rightarrow> equiv k k')"

lemma at_less [simp]: "at e k n < 2 ^ e"
  by (simp add: at_def)

lemma at_equiv: "equiv k k' \<Longrightarrow> at e k n = at e k' n"
  using hashes by (simp add: at_def)

lemma table_okD:
  assumes "table_ok e ks"
  shows "0 < e" "e < 63" "length ks = 2 ^ e" "Null \<in> set ks"
    "\<And>i k. i < 2 ^ e \<Longrightarrow> ks ! i = Key k \<Longrightarrow> \<exists>n. at e k n = i \<and> (\<forall>m<n. ks ! at e k m \<noteq> Null)"
    "\<And>i j k k'. i < 2 ^ e \<Longrightarrow> j < 2 ^ e \<Longrightarrow> ks ! i = Key k \<Longrightarrow> ks ! j = Key k' \<Longrightarrow> equiv k k' \<Longrightarrow> i = j"
  using assms unfolding table_ok_def by blast+

lemma at_surj: "0 < e \<Longrightarrow> e < 63 \<Longrightarrow> i < 2 ^ e \<Longrightarrow> \<exists>n<2 ^ e. at e k n = i"
  unfolding at_def slot_step_def using visit_surj [OF odd_step(1)] by simp

lemma stop_exists:
  assumes "table_ok e ks"
  shows "\<exists>n<2 ^ e. stops ks k (at e k n) \<and> (\<forall>m<n. \<not> stops ks k (at e k m))"
proof -
  note D = table_okD [OF assms]
  obtain i where i: "i < 2 ^ e" "ks ! i = Null" using D(3,4) by (metis in_set_conv_nth)
  obtain n where n: "n < 2 ^ e" "at e k n = i" using at_surj [OF D(1,2) i(1)] by blast
  then have st: "stops ks k (at e k n)" using i by (simp add: stops_def)
  define m where "m = (LEAST m. stops ks k (at e k m))"
  have "stops ks k (at e k m)" "m \<le> n" "\<And>j. j < m \<Longrightarrow> \<not> stops ks k (at e k j)"
    unfolding m_def using st by (auto intro: LeastI Least_le dest: not_less_Least)
  then show ?thesis using n(1) by (meson le_less_trans)
qed

text \<open>The search finds an equivalent key exactly if there is one.\<close>

lemma stop_found:
  assumes ok: "table_ok e ks" and n: "stops ks k (at e k n)" "\<And>m. m < n \<Longrightarrow> \<not> stops ks k (at e k m)"
    and i: "i < 2 ^ e" "ks ! i = Key k'" "equiv k k'"
  shows "at e k n = i"
proof -
  obtain m where m: "at e k' m = i" "\<forall>j<m. ks ! at e k' j \<noteq> Null" using table_okD(5) [OF ok i(1,2)] by blast
  have at: "at e k j = at e k' j" for j using at_equiv [OF i(3)] .
  have "stops ks k (at e k m)" using m(1) i by (simp add: at stops_def)
  then have "n \<le> m" using n(2) by (meson not_less)
  show ?thesis
  proof (cases "ks ! at e k n")
    case Null
    then have "\<not> n < m" using m(2) at by auto
    then show ?thesis using \<open>n \<le> m\<close> m(1) at by simp
  next
    case (Key k'')
    then have "equiv k k''" using n(1) by (simp add: stops_def)
    then have "equiv k'' k'" using i(3) sym trans by blast
    then show ?thesis using table_okD(6) [OF ok _ i(1) Key i(2)] by simp
  next
    case Gone
    then show ?thesis using n(1) by (simp add: stops_def)
  qed
qed

lemma stop_missing:
  assumes ok: "table_ok e ks" and n: "\<And>m. m < n \<Longrightarrow> \<not> stops ks k (at e k m)" and null: "ks ! at e k n = Null"
    and i: "i < 2 ^ e" "ks ! i = Key k'"
  shows "\<not> equiv k k'"
proof
  assume "equiv k k'"
  then have "at e k n = i" using stop_found [OF ok _ n i] null by (simp add: stops_def)
  then show False using null i by simp
qed

section \<open>Changes of a table\<close>

lemma empty_ok: "0 < e \<Longrightarrow> e < 63 \<Longrightarrow> table_ok e (replicate (2 ^ e) Null)"
  by (auto simp: table_ok_def)

lemma insert_ok:
  assumes ok: "table_ok e ks" and new: "\<And>i k'. i < 2 ^ e \<Longrightarrow> ks ! i = Key k' \<Longrightarrow> \<not> equiv k k'"
    and n: "\<And>m. m < n \<Longrightarrow> ks ! at e k m \<noteq> Null" and room: "Null \<in> set (ks[at e k n := Key k])"
    and free: "\<And>k'. ks ! at e k n \<noteq> Key k'"
  shows "table_ok e (ks[at e k n := Key k])"
proof -
  note D = table_okD [OF ok]
  have nth: "ks[at e k n := Key k] ! i = (if i = at e k n then Key k else ks ! i)" if "i < 2 ^ e" for i
    using that D(3) by (simp add: nth_list_update)
  have reach: "\<exists>m. at e k' m = i \<and> (\<forall>j<m. ks[at e k n := Key k] ! at e k' j \<noteq> Null)"
    if i: "i < 2 ^ e" "ks[at e k n := Key k] ! i = Key k'" for i k'
  proof (cases "i = at e k n")
    case True
    then show ?thesis using i n nth by (intro exI [of _ n]) auto
  next
    case False
    then obtain m where "at e k' m = i" "\<forall>j<m. ks ! at e k' j \<noteq> Null" using D(5) [OF i(1)] i(2) nth [OF i(1)] by auto
    then show ?thesis using nth by (intro exI [of _ m]) auto
  qed
  have unique: "i = j" if "i < 2 ^ e" "j < 2 ^ e" "ks[at e k n := Key k] ! i = Key a" "ks[at e k n := Key k] ! j = Key b"
    "equiv a b" for i j a b
    using that new sym [OF that(5)] D(6) [OF that(1,2)] nth [OF that(1)] nth [OF that(2)] by (auto split: if_splits)
  show ?thesis unfolding table_ok_def using D(1-3) room reach unique by auto
qed

lemma delete_ok:
  assumes ok: "table_ok e ks" and i: "i < 2 ^ e" "ks ! i = Key k"
  shows "table_ok e (ks[i := Gone])"
proof -
  note D = table_okD [OF ok]
  obtain z where z: "z < length ks" "ks ! z = Null" using D(4) by (metis in_set_conv_nth)
  then have "z \<noteq> i" using i by auto
  then have null: "Null \<in> set (ks[i := Gone])" using z by (metis length_list_update nth_list_update_neq nth_mem)
  have nth: "ks[i := Gone] ! j = (if j = i then Gone else ks ! j)" if "j < 2 ^ e" for j
    using that D(3) by (simp add: nth_list_update)
  have reach: "\<exists>n. at e k' n = j \<and> (\<forall>m<n. ks[i := Gone] ! at e k' m \<noteq> Null)"
    if j: "j < 2 ^ e" "ks[i := Gone] ! j = Key k'" for j k'
  proof -
    obtain n where "at e k' n = j" "\<forall>m<n. ks ! at e k' m \<noteq> Null" using D(5) [OF j(1)] j(2) nth [OF j(1)] by (auto split: if_splits)
    then show ?thesis using nth by (intro exI [of _ n]) auto
  qed
  show ?thesis unfolding table_ok_def using D(1-3,6) null reach nth by (auto split: if_splits)
qed

end

end
