(* ===== verification/HashTable.thy ===== *)
theory HashTable
  imports Probe HashTree
begin

text \<open>
  The mutable hash tables of \<open>hash.c\<close> (\<open>Scheme_Hash_Table\<close>): two parallel arrays of keys
  and values, probed with double hashing, where \<open>GONE\<close> marks the slot of a removed key.
  A result \<open>None\<close> stands for an access outside of an array, for a signed overflow, or for a
  search that never ends. The probing loops are given as many steps as the table has
  slots: the visited slots then repeat, so a search that has not ended by then never does.
\<close>

section \<open>Tables\<close>

text \<open>
  The \<open>compare\<close> field is \<open>NULL\<close>, the address of \<open>scheme_compare_equal\<close>, or another
  procedure; of such a procedure the code only uses whether it returns 0.
\<close>

datatype compare_proc = NoCompare | CompareEqual | CompareProc "obj \<Rightarrow> obj \<Rightarrow> bool"

record hash_table =
  tb_size :: nat
  tb_count :: int
  tb_keys :: "obj slot list"
  tb_vals :: "obj option list option"
  tb_make_hash_indices :: "(obj \<Rightarrow> code \<times> code) option"
  tb_compare :: compare_proc
  tb_mutex :: "obj option"
  tb_mcount :: int

text \<open>
  \<open>FILL_FACTOR\<close> is the constant 1.4. The products it is used in are compared with powers
  of two, from which \<open>1.4 * n\<close> differs by at least a fifth, so the rounding of the
  floating-point product does not matter and the comparison is that of \<open>7 * n\<close>
  with \<open>5 * size\<close>.
\<close>

definition over_fill :: "int \<Rightarrow> nat \<Rightarrow> bool" where
  "over_fill n sz \<longleftrightarrow> 5 * int sz \<le> 7 * n"

text \<open>
  The hash codes of a C string, given by its bytes before the terminating zero; \<open>char\<close> is
  signed, so that a byte is sign-extended when it is added.
\<close>

definition string_hash_step :: "8 word \<Rightarrow> code \<times> code \<Rightarrow> code \<times> code" where
  "string_hash_step b hh = (let c = scast b in (fst hh + (push_bit 5 (fst hh) + fst hh + c), snd hh + c))"

definition string_hash_indices :: "8 word list \<Rightarrow> code \<times> code" where
  "string_hash_indices key = fold string_hash_step key (0, 0)"

text \<open>
  A new table. The keys of a string table are pointers to C strings; \<open>c_string\<close> stands for
  the memory they point to.
\<close>

datatype hash_type = SCHEME_hash_string | SCHEME_hash_ptr | SCHEME_hash_weak_ptr | SCHEME_hash_late_weak_ptr

definition scheme_make_hash_table :: "(obj \<Rightarrow> 8 word list) \<Rightarrow> hash_type \<Rightarrow> hash_table" where
  "scheme_make_hash_table c_string ty =
     (let table = \<lparr>tb_size = 0, tb_count = 0, tb_keys = [], tb_vals = None, tb_make_hash_indices = None,
                   tb_compare = NoCompare, tb_mutex = None, tb_mcount = 0\<rparr>
      in if ty = SCHEME_hash_string
         then table\<lparr>tb_make_hash_indices := Some (\<lambda>key. string_hash_indices (c_string key)),
                tb_compare := CompareProc (\<lambda>a b. c_string a = c_string b)\<rparr>
         else table)"

text \<open>The tables of \<open>make-hash\<close> and \<open>make-hasheqv\<close> (\<open>list.c\<close>); \<open>sema\<close> is a new semaphore.\<close>

definition scheme_make_hash_table_equal :: "key_env \<Rightarrow> obj \<Rightarrow> hash_table" where
  "scheme_make_hash_table_equal env sema =
     (scheme_make_hash_table (\<lambda>_. []) SCHEME_hash_ptr)
       \<lparr>tb_mutex := Some sema, tb_compare := CompareEqual,
        tb_make_hash_indices := Some (\<lambda>v. (equal_hash_key env v, equal_hash_key2 env v))\<rparr>"

definition scheme_make_hash_table_eqv :: "key_env \<Rightarrow> (obj \<Rightarrow> code) \<Rightarrow> hash_table" where
  "scheme_make_hash_table_eqv env eqv_hash_key2 =
     (scheme_make_hash_table (\<lambda>_. []) SCHEME_hash_ptr)
       \<lparr>tb_compare := CompareProc (scheme_eqv env),
        tb_make_hash_indices := Some (\<lambda>v. (eqv_hash_key env v, eqv_hash_key2 v))\<rparr>"

definition scheme_clear_hash_table :: "hash_table \<Rightarrow> hash_table" where
  "scheme_clear_hash_table ht = ht\<lparr>tb_size := 0, tb_count := 0, tb_keys := [], tb_vals := None, tb_mcount := 0\<rparr>"

section \<open>Searching\<close>

text \<open>
  The loop over the slots. \<open>same\<close> is the comparison of a stored key with the key that is
  looked for, \<open>h2x\<close> the second hash code, taken when \<open>h2\<close> is still 0. The result is the
  slot where the loop ended, whether it holds the key, and the variables \<open>set\<close> and \<open>useme\<close>.
\<close>

fun hash_loop :: "obj slot list \<Rightarrow> (obj \<Rightarrow> bool) \<Rightarrow> code \<Rightarrow> code \<Rightarrow> nat \<Rightarrow> code \<Rightarrow> code \<Rightarrow> nat \<Rightarrow> code
    \<Rightarrow> (code \<times> bool \<times> nat \<times> code) option" where
  "hash_loop keys same h2x msk 0 h h2 st useme = None"
| "hash_loop keys same h2x msk (Suc fuel) h h2 st useme = do {
     tkey \<leftarrow> rd keys (unat h);
     (case tkey of
        Null \<Rightarrow> Some (h, False, st, useme)
      | Gone \<Rightarrow>
          let (st, useme) = (if 1 < st then (1, h) else (st, useme));
              h2 = (if h2 = 0 then h2x AND msk OR 1 else h2)
          in hash_loop keys same h2x msk fuel ((h + h2) AND msk) h2 st useme
      | Key k \<Rightarrow>
          if same k then Some (h, True, st, useme)
          else
            let h2 = (if h2 = 0 then h2x AND msk OR 1 else h2)
            in hash_loop keys same h2x msk fuel ((h + h2) AND msk) h2 st useme) }"

text \<open>
  The hash codes of a key, whether the second one is computed on demand, and the comparison
  that the loop uses.
\<close>

definition hash_codes :: "key_env \<Rightarrow> hash_table \<Rightarrow> obj \<Rightarrow> key_wraps
    \<Rightarrow> (code \<times> code \<times> bool \<times> (obj \<Rightarrow> bool)) option" where
  "hash_codes env table key kw =
     (case tb_make_hash_indices table of
        Some indices \<Rightarrow>
          (case tb_compare table of
             CompareEqual \<Rightarrow>
               let ekey = apply_equal_key_wraps key kw
               in Some (equal_hash_key env ekey, equal_hash_key2 env ekey, True,
                    \<lambda>tkey. equal_w_key_wraps env ekey tkey kw)
           | CompareProc cmp \<Rightarrow> Some (fst (indices key), snd (indices key), True, \<lambda>tkey. cmp tkey key)
           | NoCompare \<Rightarrow> Some (fst (indices key), snd (indices key), False, \<lambda>tkey. tkey = key))
      | None \<Rightarrow>
          let lkey = ptr_to_long env key
          in (case tb_compare table of
                CompareEqual \<Rightarrow> None
              | CompareProc cmp \<Rightarrow> Some (lkey, drop_bit 1 lkey, False, \<lambda>tkey. cmp tkey key)
              | NoCompare \<Rightarrow> Some (lkey, drop_bit 1 lkey, False, \<lambda>tkey. tkey = key)))"

definition table_mask :: "hash_table \<Rightarrow> code" where
  "table_mask table = word_of_nat (tb_size table) - 1"

definition hash_search :: "key_env \<Rightarrow> hash_table \<Rightarrow> obj \<Rightarrow> nat \<Rightarrow> key_wraps
    \<Rightarrow> (code \<times> bool \<times> nat \<times> code) option" where
  "hash_search env table key st kw = do {
     let msk = table_mask table;
     (hx, h2x, on_demand, same) \<leftarrow> hash_codes env table key kw;
     hash_loop (tb_keys table) same h2x msk (tb_size table) (hx AND msk)
       (if on_demand then 0 else h2x AND msk OR 1) st 0 }"

section \<open>Update\<close>

text \<open>Storing a key and a value at a slot.\<close>

definition set_slot :: "hash_table \<Rightarrow> nat \<Rightarrow> obj slot \<Rightarrow> obj option \<Rightarrow> hash_table option" where
  "set_slot table i k v = do {
     ks \<leftarrow> wr (tb_keys table) i k;
     vals \<leftarrow> tb_vals table;
     vs \<leftarrow> wr vals i v;
     Some (table\<lparr>tb_keys := ks, tb_vals := Some vs\<rparr>) }"

definition set_val :: "hash_table \<Rightarrow> nat \<Rightarrow> obj option \<Rightarrow> hash_table option" where
  "set_val table i v = do {
     vals \<leftarrow> tb_vals table;
     vs \<leftarrow> wr vals i v;
     Some (table\<lparr>tb_vals := Some vs\<rparr>) }"

definition get_val :: "hash_table \<Rightarrow> nat \<Rightarrow> obj option option" where
  "get_val table i = do { vals \<leftarrow> tb_vals table; rd vals i }"

text \<open>The found slot: overwrite the value, or remove the key.\<close>

definition hash_overwrite :: "hash_table \<Rightarrow> nat \<Rightarrow> obj option \<Rightarrow> (hash_table \<times> obj option) option" where
  "hash_overwrite table i val =
     (if val = None
      then do { t \<leftarrow> set_slot table i Gone None; Some (t\<lparr>tb_count := tb_count t - 1\<rparr>, None) }
      else do { t \<leftarrow> set_val table i val; Some (t, val) })"

definition hash_add :: "hash_table \<Rightarrow> nat \<Rightarrow> obj \<Rightarrow> obj option \<Rightarrow> (hash_table \<times> obj option) option" where
  "hash_add table i key val = do {
     t \<leftarrow> set_slot (table\<lparr>tb_count := tb_count table + 1\<rparr>) i (Key key) val;
     Some (t, val) }"

text \<open>The arrays of a table that is about to be rehashed.\<close>

definition hash_resize :: "hash_table \<Rightarrow> hash_table option" where
  "hash_resize table =
     (let oldsize = tb_size table;
          sz = (if tb_mcount table \<le> 2 * tb_count table then 2 * oldsize else oldsize)
      in if 2 ^ 31 \<le> sz then None
         else Some (table\<lparr>tb_size := sz, tb_keys := replicate sz Null, tb_vals := Some (replicate sz None),
                tb_count := 0, tb_mcount := 0\<rparr>))"

fun do_hash :: "key_env \<Rightarrow> nat \<Rightarrow> hash_table \<Rightarrow> obj \<Rightarrow> nat \<Rightarrow> obj option \<Rightarrow> key_wraps
    \<Rightarrow> (hash_table \<times> obj option) option" where
  "do_hash env 0 table key st val kw = None"
| "do_hash env (Suc fuel) table key st val kw = do {
     (h, found, st', useme) \<leftarrow> hash_search env table key st kw;
     if found then
       if st' \<noteq> 0 then hash_overwrite table (unat h) val
       else do { v \<leftarrow> get_val table (unat h); Some (table, v) }
     else if st' = 0 \<or> val = None then Some (table, None)
     else if st' = 1 then hash_add table (unat useme) key val
     else if over_fill (tb_mcount table) (tb_size table) then do {
       let oldkeys = tb_keys table;
       oldvals \<leftarrow> tb_vals table;
       new \<leftarrow> hash_resize table;
       new \<leftarrow> fold (\<lambda>i acc. do {
           t \<leftarrow> acc;
           k \<leftarrow> rd oldkeys i;
           (case k of
              Key k \<Rightarrow> do { v \<leftarrow> rd oldvals i; (t, _) \<leftarrow> do_hash env fuel t k 2 v kw; Some t }
            | _ \<Rightarrow> Some t) }) [0..<tb_size table] (Some new);
       do_hash env fuel new key st' val kw
     } else hash_add (table\<lparr>tb_mcount := tb_mcount table + 1\<rparr>) (unat h) key val }"

declare do_hash.simps [simp del]

text \<open>The variant for tables compared by identity, which falls back on \<open>do_hash\<close> to grow.\<close>

definition do_hash_set :: "key_env \<Rightarrow> nat \<Rightarrow> hash_table \<Rightarrow> obj \<Rightarrow> obj option \<Rightarrow> (hash_table \<times> obj option) option" where
  "do_hash_set env fuel table key val = do {
     let msk = table_mask table;
     let lkey = ptr_to_long env key;
     (h, found, st', useme) \<leftarrow> hash_loop (tb_keys table) (\<lambda>tkey. tkey = key) (drop_bit 1 lkey) msk (tb_size table) (lkey AND msk)
         (drop_bit 1 lkey AND msk OR 1) 2 0;
     if found then hash_overwrite table (unat h) val
     else if val = None then Some (table, None)
     else if st' = 1 then hash_add table (unat useme) key val
     else if over_fill (tb_mcount table) (tb_size table) then do_hash env fuel table key 2 val None
     else hash_add (table\<lparr>tb_mcount := tb_mcount table + 1\<rparr>) (unat h) key val }"

definition do_hash_get :: "key_env \<Rightarrow> hash_table \<Rightarrow> obj \<Rightarrow> obj option option" where
  "do_hash_get env table key = do {
     let msk = table_mask table;
     let lkey = ptr_to_long env key;
     (h, found, _, _) \<leftarrow> hash_loop (tb_keys table) (\<lambda>tkey. tkey = key) (drop_bit 1 lkey) msk (tb_size table) (lkey AND msk)
         (drop_bit 1 lkey AND msk OR 1) 0 0;
     if found then get_val table (unat h) else Some None }"

text \<open>
  Growing a table calls \<open>do_hash\<close> on tables that do not grow again, so a depth of two calls
  is enough; it is the fuel of the entry points.
\<close>

definition hash_fuel :: nat where "hash_fuel = 2"

definition scheme_hash_set_w_key_wraps :: "key_env \<Rightarrow> hash_table \<Rightarrow> obj \<Rightarrow> obj option \<Rightarrow> key_wraps \<Rightarrow> hash_table option" where
  "scheme_hash_set_w_key_wraps env table key val kw = do {
     let table = (if tb_vals table = None
       then table\<lparr>tb_size := 8, tb_vals := Some (replicate 8 None), tb_keys := replicate 8 Null\<rparr> else table);
     (t, _) \<leftarrow> (if tb_make_hash_indices table \<noteq> None then do_hash env hash_fuel table key 2 val kw
                 else do_hash_set env hash_fuel table key val);
     Some t }"

definition scheme_hash_set :: "key_env \<Rightarrow> hash_table \<Rightarrow> obj \<Rightarrow> obj option \<Rightarrow> hash_table option" where
  "scheme_hash_set env table key val = scheme_hash_set_w_key_wraps env table key val None"

definition scheme_hash_get_w_key_wraps :: "key_env \<Rightarrow> hash_table \<Rightarrow> obj \<Rightarrow> key_wraps \<Rightarrow> obj option option" where
  "scheme_hash_get_w_key_wraps env table key kw =
     (if tb_vals table = None then Some None
      else if tb_make_hash_indices table \<noteq> None then map_option snd (do_hash env hash_fuel table key 0 None kw)
      else do_hash_get env table key)"

definition scheme_hash_get :: "key_env \<Rightarrow> hash_table \<Rightarrow> obj \<Rightarrow> obj option option" where
  "scheme_hash_get env table key = scheme_hash_get_w_key_wraps env table key None"

definition scheme_eq_hash_get :: "key_env \<Rightarrow> hash_table \<Rightarrow> obj \<Rightarrow> obj option option" where
  "scheme_eq_hash_get env table key = (if tb_vals table = None then Some None else do_hash_get env table key)"

section \<open>Copying, resetting, iterating\<close>

definition scheme_clone_hash_table :: "obj \<Rightarrow> hash_table \<Rightarrow> hash_table" where
  "scheme_clone_hash_table sema ht = (if tb_mutex ht \<noteq> None then ht\<lparr>tb_mutex := Some sema\<rparr> else ht)"

definition scheme_reset_hash_table :: "hash_table \<Rightarrow> hash_table" where
  "scheme_reset_hash_table table =
     (let keep = tb_size table \<le> 8 \<or> 5 * int (tb_size table div 2) < 7 * tb_count table;
          sz = (if keep then tb_size table else tb_size table div 2);
          keys = (if keep then tb_keys table else replicate sz Null);
          vals = (if keep then tb_vals table else Some (replicate sz None))
      in table\<lparr>tb_size := sz, tb_vals := map_option (\<lambda>vs. replicate sz None @ drop sz vs) vals,
           tb_keys := replicate sz Null @ drop sz keys, tb_count := 0, tb_mcount := 0\<rparr>)"

text \<open>\<open>Inl\<close> is the \<open>NULL\<close> result for a position that does not hold an entry.\<close>

definition scheme_hash_table_next :: "hash_table \<Rightarrow> int \<Rightarrow> (unit + obj) option" where
  "scheme_hash_table_next hash start = do {
     vals \<leftarrow> (case tb_vals hash of Some vs \<Rightarrow> Some vs | None \<Rightarrow> if tb_size hash = 0 then Some [] else None);
     bad \<leftarrow> (if 0 \<le> start then
               if int (tb_size hash) \<le> start then Some True
               else do { v \<leftarrow> rd vals (nat start); Some (v = None) }
             else Some False);
     if bad then Some (Inl ())
     else case List.find (\<lambda>i. vals ! i \<noteq> None) [nat (start + 1)..<tb_size hash] of
            Some i \<Rightarrow> Some (Inr (Fixnum (int i)))
          | None \<Rightarrow> Some (Inr scheme_false) }"

definition scheme_hash_table_index :: "hash_table \<Rightarrow> nat \<Rightarrow> (obj slot \<times> obj) option option" where
  "scheme_hash_table_index hash pos =
     (if pos < tb_size hash then do {
        v \<leftarrow> get_val hash pos;
        (case v of
           None \<Rightarrow> Some None
         | Some v \<Rightarrow> do { k \<leftarrow> rd (tb_keys hash) pos; Some (Some (k, v)) })
      } else Some None)"

end
