(* ===== verification/HashTableProps.thy ===== *)
theory HashTableProps
  imports HashTable
begin

text \<open>
  Correctness of the mutable hash tables: every search ends, the table is a finite map, a
  removed key leaves a slot that is used again, and growing keeps all entries.
\<close>

section \<open>Keys of a table\<close>

definition codes1 :: "key_env \<Rightarrow> (obj \<Rightarrow> code \<times> code) option \<Rightarrow> compare_proc \<Rightarrow> obj \<Rightarrow> code" where
  "codes1 env ind cmp key =
     (case ind of
        None \<Rightarrow> ptr_to_long env key
      | Some f \<Rightarrow> if cmp = CompareEqual then equal_hash_key env key else fst (f key))"

definition codes2 :: "key_env \<Rightarrow> (obj \<Rightarrow> code \<times> code) option \<Rightarrow> compare_proc \<Rightarrow> obj \<Rightarrow> code" where
  "codes2 env ind cmp key =
     (case ind of
        None \<Rightarrow> drop_bit 1 (ptr_to_long env key)
      | Some f \<Rightarrow> if cmp = CompareEqual then equal_hash_key2 env key else snd (f key))"

definition matches :: "key_env \<Rightarrow> compare_proc \<Rightarrow> obj \<Rightarrow> obj \<Rightarrow> bool" where
  "matches env cmp key tkey =
     (case cmp of NoCompare \<Rightarrow> tkey = key | CompareEqual \<Rightarrow> scheme_equal env key tkey | CompareProc f \<Rightarrow> f tkey key)"

lemma hash_codes_plain:
  assumes "ind \<noteq> None \<or> cmp \<noteq> CompareEqual" "tb_make_hash_indices t = ind" "tb_compare t = cmp"
  shows "hash_codes env t key None =
    Some (codes1 env ind cmp key, codes2 env ind cmp key, ind \<noteq> None \<and> cmp \<noteq> NoCompare, matches env cmp key)"
  using assms
  by (cases ind; cases cmp)
     (auto simp: hash_codes_def codes1_def codes2_def matches_def Let_def apply_equal_key_wraps_def equal_w_key_wraps_def)

section \<open>Counting slots\<close>

fun is_key :: "'k slot \<Rightarrow> bool" where
  "is_key (Key k) = True"
| "is_key _ = False"

definition nkeys :: "'k slot list \<Rightarrow> int" where "nkeys ks = int (length (filter is_key ks))"
definition nused :: "'k slot list \<Rightarrow> int" where "nused ks = int (length (filter (\<lambda>s. s \<noteq> Null) ks))"

lemma filter_sum: "int (length (filter P xs)) = sum_list (map (\<lambda>x. of_bool (P x)) xs)"
  by (induction xs) auto

lemma filter_update:
  "i < length xs \<Longrightarrow>
   int (length (filter P (xs[i := x]))) = int (length (filter P xs)) + of_bool (P x) - of_bool (P (xs ! i))"
  by (simp only: filter_sum sum_list_update_int)

lemma nkeys_update: "i < length ks \<Longrightarrow> nkeys (ks[i := x]) = nkeys ks + of_bool (is_key x) - of_bool (is_key (ks ! i))"
  unfolding nkeys_def by (rule filter_update)

lemma nused_update: "i < length ks \<Longrightarrow> nused (ks[i := x]) = nused ks + of_bool (x \<noteq> Null) - of_bool (ks ! i \<noteq> Null)"
  unfolding nused_def by (rule filter_update)

lemma nkeys_le: "nkeys ks \<le> nused ks"
proof -
  have "length (filter is_key ks) \<le> length (filter (\<lambda>s. s \<noteq> Null) ks)"
    by (induction ks) (auto elim: is_key.elims)
  then show ?thesis by (simp add: nkeys_def nused_def)
qed

lemma Gone_count: "Gone \<in> set ks \<Longrightarrow> nkeys ks < nused ks"
proof (induction ks)
  case (Cons x ks)
  then show ?case using nkeys_le [of ks] by (cases x) (auto simp: nkeys_def nused_def)
qed simp

lemma Null_count: "nused ks < int (length ks) \<Longrightarrow> Null \<in> set ks"
proof (rule ccontr)
  assume less: "nused ks < int (length ks)" and "Null \<notin> set ks"
  then have "filter (\<lambda>s. s \<noteq> Null) ks = ks" by (intro filter_True) auto
  then show False using less by (simp add: nused_def)
qed

section \<open>Searching\<close>

context open_table begin

lemma word_at:
  assumes e: "0 < e" "e < 63" and h: "unat h = at e key n" and h2: "h2 = take_bit e (hash2 key) OR 1"
  shows "unat (take_bit e (h + h2)) = at e key (Suc n)"
  using word_step [OF e(2), of h h2] h odd_step(2) [OF e(1), of "hash2 key"] e h2 at_less [of e key n]
  by (simp add: at_def visit_Suc slot_step_def)

lemma stops_Key: "\<not> stops ks key i \<Longrightarrow> ks ! i = Key k \<Longrightarrow> \<not> equiv key k"
  by (simp add: stops_def)

end

text \<open>
  What the loop returns: the first slot that is unused or holds an equivalent key, and, when
  it looks for a place to insert, the first abandoned slot on the way.
\<close>

definition loop_result :: "(nat \<Rightarrow> nat) \<Rightarrow> obj slot list \<Rightarrow> nat \<Rightarrow> nat \<Rightarrow> nat \<Rightarrow> code \<Rightarrow> code \<times> bool \<times> nat \<times> code \<Rightarrow> bool" where
  "loop_result pos ks n N st useme r \<longleftrightarrow>
     (case r of (h', found, st', useme') \<Rightarrow>
        unat h' = pos N \<and> found = is_key (ks ! pos N)
        \<and> (if st \<le> 1 then st' = st \<and> useme' = useme
           else st' = st \<and> (\<forall>m. n \<le> m \<and> m < N \<longrightarrow> ks ! pos m \<noteq> Gone)
             \<or> st' = 1 \<and> (\<exists>m. n \<le> m \<and> m < N \<and> ks ! pos m = Gone \<and> unat useme' = pos m)))"

lemma loop_result_keep:
  "loop_result pos ks (Suc n) N st useme r \<Longrightarrow> ks ! pos n \<noteq> Gone \<Longrightarrow> loop_result pos ks n N st useme r"
proof -
  assume r: "loop_result pos ks (Suc n) N st useme r" and n: "ks ! pos n \<noteq> Gone"
  have "\<forall>m. Suc n \<le> m \<and> m < N \<longrightarrow> ks ! pos m \<noteq> Gone \<Longrightarrow> \<forall>m. n \<le> m \<and> m < N \<longrightarrow> ks ! pos m \<noteq> Gone"
    using n by (metis le_antisym not_less_eq_eq)
  moreover have "\<exists>m. Suc n \<le> m \<and> m < N \<and> ks ! pos m = Gone \<and> unat u = pos m \<Longrightarrow>
      \<exists>m. n \<le> m \<and> m < N \<and> ks ! pos m = Gone \<and> unat u = pos m" for u :: code
    using Suc_leD by blast
  ultimately show ?thesis using r unfolding loop_result_def by (auto split: if_splits)
qed

locale obj_table = open_table hash1 hash2 equiv
  for hash1 hash2 :: "obj \<Rightarrow> code" and equiv :: "obj \<Rightarrow> obj \<Rightarrow> bool"
begin

lemma hash_loop_spec:
  assumes e: "0 < e" "e < 63" and len: "length ks = 2 ^ e"
    and N: "stops ks key (at e key N)" "\<And>m. m < N \<Longrightarrow> \<not> stops ks key (at e key m)"
    and msk: "msk = word_of_nat (2 ^ e) - 1"
  shows "n \<le> N \<Longrightarrow> N - n < fuel \<Longrightarrow> unat h = at e key n \<Longrightarrow> h2 = 0 \<or> h2 = hash2 key AND msk OR 1 \<Longrightarrow>
    \<exists>r. hash_loop ks (equiv key) (hash2 key) msk fuel h h2 st useme = Some r \<and> loop_result (at e key) ks n N st useme r"
proof (induction fuel arbitrary: n h h2 st useme)
  case (Suc fuel)
  have mask: "x AND msk = take_bit e x" for x using mask_and [of e x] e(2) msk by simp
  have rd: "rd ks (unat h) = Some (ks ! at e key n)" using Suc.prems(3) len by (simp add: rd_Some)
  define d where "d = (if h2 = 0 then hash2 key AND msk OR 1 else h2)"
  have d: "d = take_bit e (hash2 key) OR 1" using Suc.prems(4) by (auto simp: d_def mask)
  have next': "unat ((h + d) AND msk) = at e key (Suc n)" using word_at [OF e Suc.prems(3) d] by (simp add: mask)
  have IH: "\<exists>r. hash_loop ks (equiv key) (hash2 key) msk fuel ((h + d) AND msk) d st' useme' = Some r
      \<and> loop_result (at e key) ks (Suc n) N st' useme' r" if "n < N" for st' useme'
    by (rule Suc.IH) (use that Suc.prems next' d mask in auto)
  show ?case
  proof (cases "n = N")
    case True
    then show ?thesis using rd N(1) Suc.prems(3)
      by (cases "ks ! at e key n") (auto simp: stops_def loop_result_def)
  next
    case False
    then have n: "n < N" using Suc.prems(1) by simp
    note ns = N(2) [OF n]
    show ?thesis
    proof (cases "ks ! at e key n")
      case (Key k)
      then have "\<not> equiv key k" using ns by (simp add: stops_def)
      moreover obtain r where "hash_loop ks (equiv key) (hash2 key) msk fuel ((h + d) AND msk) d st useme = Some r"
        "loop_result (at e key) ks (Suc n) N st useme r" using IH [OF n] by blast
      ultimately show ?thesis using rd Key loop_result_keep [of "at e key" ks n N st useme r]
        by (intro exI [of _ r]) (simp add: Let_def d_def)
    next
      case Gone
      define st1 where "st1 = (if 1 < st then 1 else st)"
      define um where "um = (if 1 < st then h else useme)"
      obtain r where r: "hash_loop ks (equiv key) (hash2 key) msk fuel ((h + d) AND msk) d st1 um = Some r"
        "loop_result (at e key) ks (Suc n) N st1 um r" using IH [OF n] by blast
      have "loop_result (at e key) ks n N st useme r"
        using r(2) n Gone Suc.prems(3) by (auto simp: loop_result_def st1_def um_def split: if_splits)
      then show ?thesis using rd Gone r(1) by (intro exI [of _ r]) (simp add: Let_def d_def st1_def um_def split: if_splits)
    qed (use ns in \<open>simp add: stops_def\<close>)
  qed
qed simp

end

section \<open>Well-formed tables\<close>

definition live :: "key_env \<Rightarrow> hash_table \<Rightarrow> nat \<Rightarrow> obj option list \<Rightarrow> bool" where
  "live env t e vs \<longleftrightarrow> 3 \<le> e \<and> e < 31 \<and> tb_size t = 2 ^ e \<and> tb_vals t = Some vs \<and> length vs = 2 ^ e
     \<and> open_table.table_ok (codes1 env (tb_make_hash_indices t) (tb_compare t)) (codes2 env (tb_make_hash_indices t) (tb_compare t))
         (matches env (tb_compare t)) e (tb_keys t)
     \<and> (\<forall>i<2 ^ e. (vs ! i \<noteq> None) = is_key (tb_keys t ! i))
     \<and> tb_count t = nkeys (tb_keys t) \<and> tb_mcount t = nused (tb_keys t) \<and> 7 * tb_mcount t < 5 * 2 ^ e + 7"

text \<open>A table without arrays, or with arrays of a size that is a power of two.\<close>

definition table_wf :: "key_env \<Rightarrow> hash_table \<Rightarrow> bool" where
  "table_wf env t \<longleftrightarrow>
     tb_vals t = None \<and> tb_size t = 0 \<and> tb_count t = 0 \<and> tb_mcount t = 0 \<or> (\<exists>e vs. live env t e vs)"

definition tb_lookup :: "key_env \<Rightarrow> hash_table \<Rightarrow> obj \<Rightarrow> obj option" where
  "tb_lookup env t key =
     (case tb_vals t of
        None \<Rightarrow> None
      | Some vs \<Rightarrow>
          (case List.find (\<lambda>i. case tb_keys t ! i of Key k \<Rightarrow> matches env (tb_compare t) key k | _ \<Rightarrow> False) [0..<tb_size t] of
             None \<Rightarrow> None | Some i \<Rightarrow> vs ! i))"

text \<open>
  A table that grows did so because it was filled, and a new slot is used at most once per
  operation.
\<close>

definition grown :: "hash_table \<Rightarrow> hash_table \<Rightarrow> bool" where
  "grown t t' \<longleftrightarrow> tb_mcount t' \<le> tb_mcount t + 1
     \<and> (tb_size t' \<le> max 8 (tb_size t) \<or> over_fill (tb_mcount t) (tb_size t) \<and> tb_size t' = 2 * tb_size t)"

locale table_keys =
  fixes env :: key_env and ind :: "(obj \<Rightarrow> code \<times> code) option" and cmp :: compare_proc
  assumes kind: "ind \<noteq> None \<or> cmp = NoCompare"
    and m_refl: "matches env cmp k k"
    and m_sym: "matches env cmp k k' \<Longrightarrow> matches env cmp k' k"
    and m_trans: "matches env cmp k k' \<Longrightarrow> matches env cmp k' k'' \<Longrightarrow> matches env cmp k k''"
    and m_hash: "matches env cmp k k' \<Longrightarrow> codes1 env ind cmp k = codes1 env ind cmp k' \<and> codes2 env ind cmp k = codes2 env ind cmp k'"

sublocale table_keys \<subseteq> obj_table "codes1 env ind cmp" "codes2 env ind cmp" "matches env cmp"
  by unfold_locales (use m_refl m_sym m_trans m_hash in blast)+

context table_keys begin

abbreviation "M \<equiv> matches env cmp"

definition of_kind :: "hash_table \<Rightarrow> bool" where
  "of_kind t \<longleftrightarrow> tb_make_hash_indices t = ind \<and> tb_compare t = cmp"

lemma liveD:
  assumes "live env t e vs" "of_kind t"
  shows "3 \<le> e" "e < 31" "tb_size t = 2 ^ e" "tb_vals t = Some vs" "length vs = 2 ^ e" "table_ok e (tb_keys t)"
    "length (tb_keys t) = 2 ^ e" "\<And>i. i < 2 ^ e \<Longrightarrow> (vs ! i \<noteq> None) = is_key (tb_keys t ! i)"
    "tb_count t = nkeys (tb_keys t)" "tb_mcount t = nused (tb_keys t)" "7 * tb_mcount t < 5 * 2 ^ e + 7"
  using assms table_okD(3) unfolding live_def of_kind_def by auto

lemma liveI:
  assumes "of_kind t" "3 \<le> e" "e < 31" "tb_size t = 2 ^ e" "tb_vals t = Some vs" "length vs = 2 ^ e" "table_ok e (tb_keys t)"
    "\<And>i. i < 2 ^ e \<Longrightarrow> (vs ! i \<noteq> None) = is_key (tb_keys t ! i)"
    "tb_count t = nkeys (tb_keys t)" "tb_mcount t = nused (tb_keys t)" "7 * tb_mcount t < 5 * 2 ^ e + 7"
  shows "live env t e vs"
  using assms unfolding live_def of_kind_def by auto

text \<open>Lookup, characterised by the slots.\<close>

lemma lookup_hit:
  assumes L: "live env t e vs" "of_kind t" and i: "i < 2 ^ e" "tb_keys t ! i = Key k" "M key k"
  shows "tb_lookup env t key = vs ! i"
proof -
  note D = liveD [OF L]
  let ?P = "\<lambda>i. case tb_keys t ! i of Key k \<Rightarrow> M key k | _ \<Rightarrow> False"
  have "List.find ?P [0..<2 ^ e] \<noteq> None" using i by (auto simp: find_None_iff)
  then obtain j where j: "List.find ?P [0..<2 ^ e] = Some j" by auto
  then have "j < 2 ^ e" "?P j" by (auto simp: find_Some_iff)
  then obtain k' where "tb_keys t ! j = Key k'" "M key k'" by (auto split: slot.splits)
  then have "i = j" using table_okD(6) [OF D(6) i(1) \<open>j < 2 ^ e\<close> i(2)] i(3) m_sym m_trans by blast
  then show ?thesis using j D(3,4) L(2) by (simp add: tb_lookup_def of_kind_def cong: slot.case_cong)
qed

lemma lookup_miss:
  assumes L: "live env t e vs" "of_kind t" and no: "\<And>i k. i < 2 ^ e \<Longrightarrow> tb_keys t ! i = Key k \<Longrightarrow> \<not> M key k"
  shows "tb_lookup env t key = None"
proof -
  note D = liveD [OF L]
  have "List.find (\<lambda>i. case tb_keys t ! i of Key k \<Rightarrow> M key k | _ \<Rightarrow> False) [0..<2 ^ e] = None"
    using no by (auto simp: find_None_iff split: slot.splits)
  then show ?thesis using D(3,4) L(2) by (simp add: tb_lookup_def of_kind_def cong: slot.case_cong)
qed

lemma lookup_cases:
  assumes L: "live env t e vs" "of_kind t"
  obtains (hit) i k v where "i < 2 ^ e" "tb_keys t ! i = Key k" "M key k" "vs ! i = Some v" "tb_lookup env t key = Some v"
  | (miss) "\<And>i k. i < 2 ^ e \<Longrightarrow> tb_keys t ! i = Key k \<Longrightarrow> \<not> M key k" "tb_lookup env t key = None"
proof (cases "\<exists>i k. i < 2 ^ e \<and> tb_keys t ! i = Key k \<and> M key k")
  case True
  then obtain i k where i: "i < 2 ^ e" "tb_keys t ! i = Key k" "M key k" by blast
  then obtain v where v: "vs ! i = Some v" using liveD(8) [OF L i(1)] by auto
  show thesis by (rule hit [OF i v]) (use lookup_hit [OF L i] v in simp)
next
  case False
  then have no: "\<And>i k. i < 2 ^ e \<Longrightarrow> tb_keys t ! i = Key k \<Longrightarrow> \<not> M key k" by blast
  show thesis by (rule miss [OF no lookup_miss [OF L no]])
qed

text \<open>A table in which one slot has changed.\<close>

lemma lookup_change:
  assumes L: "live env t e vs" "of_kind t" and L': "live env t' e vs'" "of_kind t'"
    and j: "j < 2 ^ e" and rest: "\<And>i. i < 2 ^ e \<Longrightarrow> i \<noteq> j \<Longrightarrow> tb_keys t' ! i = tb_keys t ! i \<and> vs' ! i = vs ! i"
    and new: "vs' ! j = val" "\<And>k. tb_keys t' ! j = Key k \<Longrightarrow> M key k"
    and old: "\<And>i k. i < 2 ^ e \<Longrightarrow> tb_keys t ! i = Key k \<Longrightarrow> M key k \<longleftrightarrow> i = j"
  shows "tb_lookup env t' key' = (if M key key' then val else tb_lookup env t key')"
proof (cases rule: lookup_cases [OF L', of key'])
  case (1 i k v)
  show ?thesis
  proof (cases "i = j")
    case True
    then have "M key key'" using new(2) 1(2,3) m_sym m_trans by blast
    then show ?thesis using 1 True new(1) by simp
  next
    case False
    then have ik: "tb_keys t ! i = Key k" "vs ! i = Some v" using rest 1 by auto
    have "\<not> M key key'" using old [OF 1(1) ik(1)] False 1(3) m_trans by blast
    then show ?thesis using lookup_hit [OF L 1(1) ik(1) 1(3)] 1(5) ik(2) by simp
  qed
next
  case 2
  show ?thesis
  proof (cases "M key key'")
    case True
    have "\<not> is_key (tb_keys t' ! j)"
    proof
      assume "is_key (tb_keys t' ! j)"
      then obtain k where "tb_keys t' ! j = Key k" by (auto elim: is_key.elims)
      then show False using 2(1) [OF j] new(2) True m_sym m_trans by blast
    qed
    then have "vs' ! j = None" using liveD(8) [OF L' j] by auto
    then show ?thesis using 2(2) new(1) True by simp
  next
    case False
    have "tb_lookup env t key' = None"
    proof (rule lookup_miss [OF L])
      fix i k assume i: "i < 2 ^ e" "tb_keys t ! i = Key k"
      show "\<not> M key' k"
      proof (cases "i = j")
        case True
        then show ?thesis using old [OF i] False m_sym m_trans by blast
      next
        case False
        then show ?thesis using 2(1) [OF i(1)] rest [OF i(1)] i(2) by simp
      qed
    qed
    then show ?thesis using 2(2) False by simp
  qed
qed

section \<open>Operations on one slot\<close>

lemma search_spec:
  assumes L: "live env t e vs" "of_kind t"
  obtains N r where "N < 2 ^ e" "stops (tb_keys t) key (at e key N)" "\<And>m. m < N \<Longrightarrow> \<not> stops (tb_keys t) key (at e key m)"
    "hash_search env t key st None = Some r" "loop_result (at e key) (tb_keys t) 0 N st 0 r"
proof -
  note D = liveD [OF L]
  have e: "0 < e" "e < 63" using D(1,2) by auto
  obtain N where N: "N < 2 ^ e" "stops (tb_keys t) key (at e key N)" "\<And>m. m < N \<Longrightarrow> \<not> stops (tb_keys t) key (at e key m)"
    using stop_exists [OF D(6), of key] by blast
  have msk: "table_mask t = word_of_nat (2 ^ e) - 1" using D(3) by (simp add: table_mask_def)
  have "codes1 env ind cmp key AND table_mask t = take_bit e (codes1 env ind cmp key)"
    unfolding msk by (rule mask_and) (use e in simp)
  then have h0: "unat (codes1 env ind cmp key AND table_mask t) = at e key 0"
    by (simp add: at_def visit_0 first_slot_def unat_take_bit_64)
  have hc: "hash_codes env t key None = Some (codes1 env ind cmp key, codes2 env ind cmp key, ind \<noteq> None \<and> cmp \<noteq> NoCompare, M key)"
    by (rule hash_codes_plain) (use kind L(2) in \<open>auto simp: of_kind_def\<close>)
  have "\<exists>r. hash_loop (tb_keys t) (M key) (codes2 env ind cmp key) (table_mask t) (2 ^ e) (codes1 env ind cmp key AND table_mask t)
        (if ind \<noteq> None \<and> cmp \<noteq> NoCompare then 0 else codes2 env ind cmp key AND table_mask t OR 1) st 0 = Some r
      \<and> loop_result (at e key) (tb_keys t) 0 N st 0 r"
    by (rule hash_loop_spec [OF e D(7) N(2,3) msk _ _ h0]) (use N(1) in auto)
  then show thesis using that N hc D(3) by (auto simp: hash_search_def Let_def)
qed

lemma search_cases:
  assumes L: "live env t e vs" "of_kind t"
  obtains (found) h st' um k where "hash_search env t key st None = Some (h, True, st', um)" "unat h < 2 ^ e"
      "tb_keys t ! unat h = Key k" "M key k" "st' = 0 \<longleftrightarrow> st = 0"
  | (missing) h st' um n where "hash_search env t key st None = Some (h, False, st', um)"
      "\<And>i k. i < 2 ^ e \<Longrightarrow> tb_keys t ! i = Key k \<Longrightarrow> \<not> M key k" "st \<le> 1 \<Longrightarrow> st' = st"
      "1 < st \<Longrightarrow> st' = 1 \<and> unat um = at e key n \<and> tb_keys t ! at e key n = Gone
         \<or> st' = st \<and> unat h = at e key n \<and> tb_keys t ! at e key n = Null"
      "\<And>m. m < n \<Longrightarrow> tb_keys t ! at e key m \<noteq> Null" "unat h < 2 ^ e"
proof (rule search_spec [OF L, of key st])
  fix N r
  assume N: "N < 2 ^ e" "stops (tb_keys t) key (at e key N)" "\<And>m. m < N \<Longrightarrow> \<not> stops (tb_keys t) key (at e key m)"
    and r: "hash_search env t key st None = Some r" "loop_result (at e key) (tb_keys t) 0 N st 0 r"
  obtain h f st' um where eq: "r = (h, f, st', um)" by (metis prod_cases4)
  have h: "unat h = at e key N" "f = is_key (tb_keys t ! at e key N)" using r(2) by (auto simp: loop_result_def eq)
  have nn: "tb_keys t ! at e key m \<noteq> Null" if "m < N" for m using N(3) [OF that] by (auto simp: stops_def)
  show thesis
  proof (cases "tb_keys t ! at e key N")
    case (Key k)
    then show thesis using found [of h st' um k] N(2) r h by (auto simp: eq stops_def loop_result_def split: if_splits)
  next
    case Null
    have no: "\<And>i k. i < 2 ^ e \<Longrightarrow> tb_keys t ! i = Key k \<Longrightarrow> \<not> M key k"
      using stop_missing [OF liveD(6) [OF L] N(3) Null] by blast
    have f: "hash_search env t key st None = Some (h, False, st', um)" using r(1) h(2) Null by (simp add: eq)
    show thesis
    proof (cases "1 < st \<and> st' = 1")
      case True
      then obtain m where "m < N" "tb_keys t ! at e key m = Gone" "unat um = at e key m"
        using r(2) by (auto simp: loop_result_def eq)
      then show thesis using missing [where n = m, OF f no] True nn h(1) by auto
    next
      case False
      then have "st' = st" using r(2) by (auto simp: loop_result_def eq split: if_splits)
      then show thesis using missing [where n = N, OF f no] h(1) Null nn by auto
    qed
  next
    case Gone
    then show thesis using N(2) by (simp add: stops_def)
  qed
qed

definition changed :: "hash_table \<Rightarrow> obj \<Rightarrow> obj option \<Rightarrow> hash_table \<Rightarrow> bool" where
  "changed t key val t' \<longleftrightarrow> of_kind t' \<and> (\<exists>e vs. live env t' e vs)
     \<and> (\<forall>key'. tb_lookup env t' key' = (if M key key' then val else tb_lookup env t key'))
     \<and> tb_count t' = tb_count t + of_bool (val \<noteq> None) - of_bool (tb_lookup env t key \<noteq> None) \<and> grown t t'"

lemma overwrite_spec:
  assumes L: "live env t e vs" "of_kind t" and i: "i < 2 ^ e" "tb_keys t ! i = Key k" "M key k"
  shows "\<exists>t' vs'. hash_overwrite t i val = Some (t', val) \<and> changed t key val t' \<and> live env t' e vs'
    \<and> (val \<noteq> None \<longrightarrow> tb_mcount t' = tb_mcount t \<and> tb_count t' = tb_count t)"
proof -
  note D = liveD [OF L]
  have some: "tb_lookup env t key \<noteq> None" using lookup_hit [OF L i] D(8) [OF i(1)] i(2) by simp
  have old: "M key k' \<longleftrightarrow> j = i" if "j < 2 ^ e" "tb_keys t ! j = Key k'" for j k'
    using table_okD(6) [OF D(6) that(1) i(1) that(2) i(2)] that i(2,3) m_sym m_trans by (metis slot.inject)
  define t' where "t' = (if val = None
    then t\<lparr>tb_keys := (tb_keys t)[i := Gone], tb_vals := Some (vs[i := None]), tb_count := tb_count t - 1\<rparr>
    else t\<lparr>tb_vals := Some (vs[i := val])\<rparr>)"
  have k': "of_kind t'" using L(2) by (simp add: t'_def of_kind_def)
  have nk: "nkeys ((tb_keys t)[i := Gone]) = nkeys (tb_keys t) - 1" "nused ((tb_keys t)[i := Gone]) = nused (tb_keys t)"
    using i D(7) by (simp_all add: nkeys_update nused_update)
  have L': "live env t' e (vs[i := val])"
    by (rule liveI [OF k' D(1,2)])
       (use D i nk delete_ok [OF D(6) i(1,2)] in \<open>auto simp: t'_def nth_list_update\<close>)
  have look: "tb_lookup env t' key' = (if M key key' then val else tb_lookup env t key')" for key'
    by (rule lookup_change [OF L L' k' i(1)]) (use D i old in \<open>auto simp: t'_def nth_list_update split: if_splits\<close>)
  have "tb_count t' = tb_count t + of_bool (val \<noteq> None) - of_bool (tb_lookup env t key \<noteq> None)"
    using some by (simp add: t'_def)
  moreover have "grown t t'" by (simp add: grown_def t'_def)
  ultimately have "changed t key val t'" unfolding changed_def using look k' L' by blast
  moreover have "hash_overwrite t i val = Some (t', val)"
    using D i by (auto simp: hash_overwrite_def set_slot_def set_val_def wr_def t'_def)
  ultimately show ?thesis using L' by (auto simp: t'_def)
qed

lemma add_spec:
  assumes L: "live env t e vs" "of_kind t" and no: "\<And>i k. i < 2 ^ e \<Longrightarrow> tb_keys t ! i = Key k \<Longrightarrow> \<not> M key k"
    and n: "\<And>m. m < n \<Longrightarrow> tb_keys t ! at e key m \<noteq> Null"
    and slot: "tb_keys t ! at e key n = Gone \<and> d = 0
      \<or> tb_keys t ! at e key n = Null \<and> d = 1 \<and> \<not> over_fill (tb_mcount t) (tb_size t)"
  shows "\<exists>t' vs'. hash_add (t\<lparr>tb_mcount := tb_mcount t + d\<rparr>) (at e key n) key (Some v) = Some (t', Some v)
    \<and> changed t key (Some v) t' \<and> live env t' e vs' \<and> tb_mcount t' = tb_mcount t + d \<and> tb_count t' = tb_count t + 1"
proof -
  note D = liveD [OF L]
  let ?j = "at e key n"
  let ?ks = "(tb_keys t)[?j := Key key]"
  have none: "tb_lookup env t key = None" by (rule lookup_miss [OF L no])
  define t' where "t' = t\<lparr>tb_mcount := tb_mcount t + d, tb_count := tb_count t + 1, tb_keys := ?ks, tb_vals := Some (vs[?j := Some v])\<rparr>"
  have k': "of_kind t'" using L(2) by (simp add: t'_def of_kind_def)
  have nk: "nkeys ?ks = nkeys (tb_keys t) + 1" "nused ?ks = nused (tb_keys t) + d"
    using slot D(7) by (auto simp: nkeys_update nused_update)
  have fill: "7 * (tb_mcount t + d) < 5 * 2 ^ e + 7" using slot D(3,11) by (auto simp: over_fill_def)
  have e8: "(2::int) ^ 3 \<le> 2 ^ e" using D(1) by (intro power_increasing) auto
  then have "nused ?ks < int (length ?ks)" using fill nk(2) D(7,10) by simp
  then have room: "Null \<in> set ?ks" by (rule Null_count)
  have L': "live env t' e (vs[?j := Some v])"
    by (rule liveI [OF k' D(1,2)])
       (use D slot nk fill insert_ok [OF D(6) no n room] in \<open>auto simp: t'_def nth_list_update\<close>)
  have look: "tb_lookup env t' key' = (if M key key' then Some v else tb_lookup env t key')" for key'
    by (rule lookup_change [OF L L' k', of ?j]) (use D no m_refl slot in \<open>auto simp: t'_def nth_list_update\<close>)
  have "tb_count t' = tb_count t + of_bool (Some v \<noteq> None) - of_bool (tb_lookup env t key \<noteq> None)"
    using none by (simp add: t'_def)
  moreover have "grown t t'" using slot by (auto simp: grown_def t'_def)
  ultimately have "changed t key (Some v) t'" unfolding changed_def using look k' L' by blast
  moreover have "hash_add (t\<lparr>tb_mcount := tb_mcount t + d\<rparr>) ?j key (Some v) = Some (t', Some v)"
    using D by (simp add: hash_add_def set_slot_def wr_def t'_def)
  ultimately show ?thesis using L' by (auto simp: t'_def)
qed

section \<open>Insertion and growth\<close>

lemma do_hash_fits:
  assumes L: "live env t e vs" "of_kind t" and st: "1 < st" and fits: "\<not> over_fill (tb_mcount t) (tb_size t)"
  shows "\<exists>t' vs'. do_hash env (Suc f) t key st (Some v) None = Some (t', Some v) \<and> changed t key (Some v) t'
    \<and> live env t' e vs' \<and> (tb_mcount t = tb_count t \<longrightarrow> tb_mcount t' = tb_count t')"
proof (cases rule: search_cases [OF L, of key st])
  case (1 h st' um k)
  then show ?thesis
    using overwrite_spec [OF L 1(2,3,4), of "Some v"] st by (auto simp: do_hash.simps)
next
  case (2 h st' um n)
  have add: "\<exists>t' vs'. hash_add (t\<lparr>tb_mcount := tb_mcount t + d\<rparr>) (at e key n) key (Some v) = Some (t', Some v)
    \<and> changed t key (Some v) t' \<and> live env t' e vs' \<and> tb_mcount t' = tb_mcount t + d \<and> tb_count t' = tb_count t + 1"
    if "tb_keys t ! at e key n = Gone \<and> d = 0
      \<or> tb_keys t ! at e key n = Null \<and> d = 1 \<and> \<not> over_fill (tb_mcount t) (tb_size t)" for d
    by (rule add_spec [OF L _ _ that]) (use 2(2,5) in blast)+
  consider (reuse) "st' = 1" "unat um = at e key n" "tb_keys t ! at e key n = Gone"
    | (fresh) "st' = st" "unat h = at e key n" "tb_keys t ! at e key n = Null" using 2(4) [OF st] by blast
  then show ?thesis
  proof cases
    case reuse
    have "Gone \<in> set (tb_keys t)" using reuse(3) liveD(7) [OF L] by (metis at_less nth_mem)
    then have "tb_mcount t \<noteq> tb_count t" using Gone_count liveD(9,10) [OF L] by fastforce
    then show ?thesis using add [of 0] reuse 2(1) by (auto simp: do_hash.simps)
  next
    case fresh
    then show ?thesis using add [of 1] 2(1) fits st by (auto simp: do_hash.simps)
  qed
qed

text \<open>Copying the entries of an old table into a new one.\<close>

definition copy_entry :: "(hash_table \<Rightarrow> obj \<Rightarrow> nat \<Rightarrow> obj option \<Rightarrow> (hash_table \<times> obj option) option)
    \<Rightarrow> obj slot list \<Rightarrow> obj option list \<Rightarrow> nat \<Rightarrow> hash_table option \<Rightarrow> hash_table option" where
  "copy_entry add oldkeys oldvals i acc = do {
     t \<leftarrow> acc;
     k \<leftarrow> rd oldkeys i;
     (case k of
        Key k \<Rightarrow> do { v \<leftarrow> rd oldvals i; (t, _) \<leftarrow> add t k 2 v; Some t }
      | _ \<Rightarrow> Some t) }"

definition copied :: "obj slot list \<Rightarrow> obj option list \<Rightarrow> nat \<Rightarrow> nat \<Rightarrow> hash_table \<Rightarrow> bool" where
  "copied ks vs e' i t \<longleftrightarrow> of_kind t \<and> (\<exists>vs'. live env t e' vs') \<and> tb_mcount t = tb_count t
     \<and> tb_count t = nkeys (take i ks)
     \<and> (\<forall>key v. tb_lookup env t key = Some v \<longleftrightarrow> (\<exists>j<i. \<exists>k. ks ! j = Key k \<and> M key k \<and> vs ! j = Some v))"

lemma nkeys_take: "nkeys (take i ks) \<le> nkeys ks"
proof -
  have "filter is_key ks = filter is_key (take i ks) @ filter is_key (drop i ks)"
    by (metis append_take_drop_id filter_append)
  then show ?thesis unfolding nkeys_def by (metis le_add1 length_append of_nat_le_iff)
qed

lemma copy_step:
  assumes L: "live env t e vs" "of_kind t" and i: "i < 2 ^ e" and T: "copied (tb_keys t) vs e' i T"
    and fits: "7 * nkeys (tb_keys t) < 5 * 2 ^ e'"
  shows "\<exists>T'. copy_entry (\<lambda>t k st v. do_hash env (Suc f) t k st v None) (tb_keys t) vs i (Some T) = Some T'
    \<and> copied (tb_keys t) vs e' (Suc i) T'"
proof -
  note D = liveD [OF L]
  let ?ks = "tb_keys t"
  have rd: "rd ?ks i = Some (?ks ! i)" "rd vs i = Some (vs ! i)" using i D(5,7) by (simp_all add: rd_Some)
  have tk: "take (Suc i) ?ks = take i ?ks @ [?ks ! i]" using i D(7) by (simp add: take_Suc_conv_app_nth)
  obtain vT where LT: "live env T e' vT" "of_kind T" using T by (auto simp: copied_def)
  have cT: "tb_mcount T = tb_count T" "tb_count T = nkeys (take i ?ks)"
    and lT: "\<And>key v. tb_lookup env T key = Some v \<longleftrightarrow> (\<exists>j<i. \<exists>k. ?ks ! j = Key k \<and> M key k \<and> vs ! j = Some v)"
    using T by (auto simp: copied_def)
  show ?thesis
  proof (cases "?ks ! i")
    case (Key k)
    then obtain v where v: "vs ! i = Some v" using D(8) [OF i] by auto
    have "\<not> over_fill (tb_mcount T) (tb_size T)"
      using liveD(3) [OF LT] cT nkeys_take [of i ?ks] fits by (simp add: over_fill_def)
    then obtain T' vs' where T': "do_hash env (Suc f) T k 2 (Some v) None = Some (T', Some v)" "changed T k (Some v) T'"
      "live env T' e' vs'" "tb_mcount T' = tb_count T'"
      using do_hash_fits [OF LT, of 2 f k v] cT(1) by auto
    have none: "tb_lookup env T k = None"
    proof (cases "tb_lookup env T k")
      case (Some w)
      then obtain j k' where "j < i" "?ks ! j = Key k'" "M k k'" using lT by blast
      then show ?thesis using table_okD(6) [OF D(6) i _ Key, of j k'] i by simp
    qed simp
    have lT': "tb_lookup env T' key = (if M k key then Some v else tb_lookup env T key)" for key
      using T'(2) by (simp add: changed_def)
    have "tb_lookup env T' key = Some w \<longleftrightarrow> (\<exists>j<Suc i. \<exists>k. ?ks ! j = Key k \<and> M key k \<and> vs ! j = Some w)" for key w
    proof (cases "M k key")
      case True
      have "tb_lookup env T key = None"
      proof (cases "tb_lookup env T key")
        case (Some w')
        then obtain j k' where "j < i" "?ks ! j = Key k'" "M key k'" using lT by blast
        then show ?thesis using table_okD(6) [OF D(6) i _ Key, of j k'] i m_trans [OF True] by simp
      qed simp
      then show ?thesis using True lT' lT [of key w] Key v m_sym [OF True] by (auto simp: less_Suc_eq)
    next
      case False
      then have "\<not> M key k" using m_sym by blast
      then show ?thesis using False lT' lT [of key w] Key by (auto simp: less_Suc_eq)
    qed
    moreover have "tb_count T' = nkeys (take (Suc i) ?ks)"
      using T'(2) none cT(2) Key tk by (simp add: changed_def nkeys_def)
    ultimately have "copied ?ks vs e' (Suc i) T'" using T' unfolding copied_def changed_def by blast
    then show ?thesis using T'(1) Key v rd by (simp add: copy_entry_def)
  next
    case Null
    then have "copied ?ks vs e' (Suc i) T" using T tk by (auto simp: copied_def nkeys_def less_Suc_eq)
    then show ?thesis using Null rd by (simp add: copy_entry_def)
  next
    case Gone
    then have "copied ?ks vs e' (Suc i) T" using T tk by (auto simp: copied_def nkeys_def less_Suc_eq)
    then show ?thesis using Gone rd by (simp add: copy_entry_def)
  qed
qed

lemma copy_all:
  assumes L: "live env t e vs" "of_kind t" and T: "copied (tb_keys t) vs e' 0 T" and fits: "7 * nkeys (tb_keys t) < 5 * 2 ^ e'"
  shows "i \<le> 2 ^ e \<Longrightarrow> \<exists>T'. fold (copy_entry (\<lambda>t k st v. do_hash env (Suc f) t k st v None) (tb_keys t) vs) [0..<i] (Some T) = Some T'
    \<and> copied (tb_keys t) vs e' i T'"
proof (induction i)
  case 0
  then show ?case using T by simp
next
  case (Suc i)
  then obtain T' where "fold (copy_entry (\<lambda>t k st v. do_hash env (Suc f) t k st v None) (tb_keys t) vs) [0..<i] (Some T) = Some T'"
    "copied (tb_keys t) vs e' i T'" by auto
  then show ?case using copy_step [OF L _ _ fits, of i T' f] Suc.prems by simp
qed

lemma fresh_live:
  assumes k: "of_kind t" and e: "3 \<le> e" "e < 31"
    and t: "tb_size t = 2 ^ e" "tb_keys t = replicate (2 ^ e) Null" "tb_vals t = Some (replicate (2 ^ e) None)"
      "tb_count t = 0" "tb_mcount t = 0"
  shows "live env t e (replicate (2 ^ e) None)" "tb_lookup env t key = None"
proof -
  show L: "live env t e (replicate (2 ^ e) None)"
    by (rule liveI [OF k e]) (use t e empty_ok [of e] in \<open>auto simp: nkeys_def nused_def intro: add_nonneg_pos\<close>)
  show "tb_lookup env t key = None" by (rule lookup_miss [OF L k]) (simp add: t)
qed

lemma grow:
  assumes L: "live env t e vs" "of_kind t" and e: "e < 30"
  shows "\<exists>new new' e' vs'. hash_resize t = Some new
    \<and> fold (copy_entry (\<lambda>t k st v. do_hash env (Suc f) t k st v None) (tb_keys t) vs) [0..<tb_size t] (Some new) = Some new'
    \<and> live env new' e' vs' \<and> of_kind new' \<and> (\<forall>key. tb_lookup env new' key = tb_lookup env t key)
    \<and> tb_count new' = tb_count t \<and> \<not> over_fill (tb_mcount new') (tb_size new')
    \<and> tb_mcount new' \<le> tb_mcount t \<and> tb_size new' \<in> {tb_size t, 2 * tb_size t}"
proof -
  note D = liveD [OF L]
  define e' where "e' = (if tb_mcount t \<le> 2 * tb_count t then Suc e else e)"
  define new where "new = t\<lparr>tb_size := 2 ^ e', tb_keys := replicate (2 ^ e') Null, tb_vals := Some (replicate (2 ^ e') None),
    tb_count := 0, tb_mcount := 0\<rparr>"
  have e31: "3 \<le> e'" "e' < 31" using D(1) e by (auto simp: e'_def)
  have "(2::nat) ^ e' < 2 ^ 31" by (rule power_strict_increasing) (use e31(2) in auto)
  moreover have "(if tb_mcount t \<le> 2 * tb_count t then 2 * tb_size t else tb_size t) = 2 ^ e'" using D(3) by (simp add: e'_def)
  ultimately have rs: "hash_resize t = Some new" by (simp add: hash_resize_def Let_def new_def)
  have e8: "(2::int) ^ 3 \<le> 2 ^ e" using D(1) by (intro power_increasing) auto
  have fits: "7 * nkeys (tb_keys t) < 5 * 2 ^ e'"
    using D(9-11) nkeys_le [of "tb_keys t"] e8 by (auto simp: e'_def)
  have kn: "of_kind new" using L(2) by (simp add: new_def of_kind_def)
  have nn: "tb_size new = 2 ^ e'" "tb_keys new = replicate (2 ^ e') Null" "tb_vals new = Some (replicate (2 ^ e') None)"
    "tb_count new = 0" "tb_mcount new = 0" by (simp_all add: new_def)
  have "copied (tb_keys t) vs e' 0 new"
    unfolding copied_def using fresh_live [OF kn e31 nn] kn nn by (auto simp: nkeys_def)
  from copy_all [OF L this fits, of "2 ^ e" f] obtain new' where
    n': "fold (copy_entry (\<lambda>t k st v. do_hash env (Suc f) t k st v None) (tb_keys t) vs) [0..<2 ^ e] (Some new) = Some new'"
    "copied (tb_keys t) vs e' (2 ^ e) new'" by auto
  obtain vs' where L': "live env new' e' vs'" "of_kind new'" using n'(2) by (auto simp: copied_def)
  have c': "tb_mcount new' = tb_count new'" "tb_count new' = nkeys (tb_keys t)" using n'(2) D(7) by (auto simp: copied_def)
  have look: "tb_lookup env new' key = tb_lookup env t key" for key
  proof -
    have l': "tb_lookup env new' key = Some v \<longleftrightarrow> (\<exists>j<2 ^ e. \<exists>k. tb_keys t ! j = Key k \<and> M key k \<and> vs ! j = Some v)" for v
      using n'(2) by (simp add: copied_def)
    show ?thesis
    proof (cases rule: lookup_cases [OF L, of key])
      case (1 i k v)
      then show ?thesis using l' by auto
    next
      case 2
      have "tb_lookup env new' key \<noteq> Some v" for v using l' [of v] 2(1) by blast
      then show ?thesis using 2(2) by (cases "tb_lookup env new' key") auto
    qed
  qed
  have "\<not> over_fill (tb_mcount new') (tb_size new')" using liveD(3) [OF L'] c' fits by (simp add: over_fill_def)
  moreover have "tb_mcount new' \<le> tb_mcount t" using c' D(10) nkeys_le [of "tb_keys t"] by simp
  moreover have "tb_size new' \<in> {tb_size t, 2 * tb_size t}" using liveD(3) [OF L'] D(3) by (simp add: e'_def)
  ultimately show ?thesis using rs n'(1) L' look c' D(3,9) by auto
qed

lemma changed_trans:
  assumes "of_kind t'" "\<And>key. tb_lookup env t' key = tb_lookup env t key" "tb_count t' = tb_count t" "changed t' key val t''" "grown t t''"
  shows "changed t key val t''"
  using assms by (simp add: changed_def)

lemma unchanged:
  assumes L: "live env t e vs" "of_kind t" and none: "\<And>i k. i < 2 ^ e \<Longrightarrow> tb_keys t ! i = Key k \<Longrightarrow> \<not> M key k"
  shows "changed t key None t"
proof -
  have "tb_lookup env t key' = None" if "M key key'" for key'
    by (rule lookup_miss [OF L]) (use none that m_trans in blast)
  then show ?thesis unfolding changed_def grown_def using L m_refl by auto
qed

theorem do_hash_update:
  assumes L: "live env t e vs" "of_kind t" and e: "e < 30"
  shows "\<exists>t'. do_hash env (Suc (Suc f)) t key 2 val None = Some (t', val) \<and> changed t key val t'"
proof (cases rule: search_cases [OF L, of key 2])
  case (1 h st' um k)
  then show ?thesis using overwrite_spec [OF L 1(2,3,4), of val] by (auto simp: do_hash.simps(2) [of _ "Suc f"])
next
  case (2 h st' um n)
  show ?thesis
  proof (cases val)
    case None
    then show ?thesis using 2(1) unchanged [OF L 2(2)] by (auto simp: do_hash.simps(2) [of _ "Suc f"])
  next
    case (Some v)
    show ?thesis
    proof (cases "over_fill (tb_mcount t) (tb_size t) \<and> st' \<noteq> 1")
      case False
      have "\<exists>t' vs'. do_hash env (Suc (Suc f)) t key 2 (Some v) None = Some (t', Some v) \<and> changed t key (Some v) t'"
      proof (cases "over_fill (tb_mcount t) (tb_size t)")
        case True
        then have "st' = 1" "unat um = at e key n" "tb_keys t ! at e key n = Gone" using False 2(4) by auto
        moreover have "\<exists>t' vs'. hash_add (t\<lparr>tb_mcount := tb_mcount t + 0\<rparr>) (at e key n) key (Some v) = Some (t', Some v)
          \<and> changed t key (Some v) t' \<and> live env t' e vs' \<and> tb_mcount t' = tb_mcount t + 0 \<and> tb_count t' = tb_count t + 1"
          by (rule add_spec [OF L]) (use 2(2,5) calculation in blast)+
        ultimately show ?thesis using 2(1) by (auto simp: do_hash.simps(2) [of _ "Suc f"])
      next
        case False
        then show ?thesis using do_hash_fits [OF L _ False, of 2 "Suc f" key v] by auto
      qed
      then show ?thesis using Some by auto
    next
      case True
      obtain new new' e' vs' where g: "hash_resize t = Some new"
        "fold (copy_entry (\<lambda>t k st v. do_hash env (Suc f) t k st v None) (tb_keys t) vs) [0..<tb_size t] (Some new) = Some new'"
        "live env new' e' vs'" "of_kind new'" "\<And>key. tb_lookup env new' key = tb_lookup env t key"
        "tb_count new' = tb_count t" "\<not> over_fill (tb_mcount new') (tb_size new')"
        "tb_mcount new' \<le> tb_mcount t" "tb_size new' \<in> {tb_size t, 2 * tb_size t}"
        using grow [OF L e, of f] by blast
      obtain t' vs'' where t': "do_hash env (Suc f) new' key 2 (Some v) None = Some (t', Some v)" "changed new' key (Some v) t'"
        "live env t' e' vs''" using do_hash_fits [OF g(3,4) _ g(7), of 2 f key v] by auto
      have "tb_size t' = tb_size new'" using liveD(3) [OF g(3,4)] liveD(3) [OF t'(3)] t'(2) by (auto simp: changed_def)
      then have "grown t t'" using t'(2) g(8,9) True by (auto simp: changed_def grown_def)
      have "st' = 2" using 2(4) True by auto
      then have "do_hash env (Suc (Suc f)) t key 2 (Some v) None = Some (t', Some v)"
        using 2(1) True g(1,2) t'(1) liveD(4) [OF L]
        by (simp add: do_hash.simps(2) [of _ "Suc f"] copy_entry_def [abs_def])
      then show ?thesis using changed_trans [OF g(4,5,6) t'(2)] \<open>grown t t'\<close> Some by auto
    qed
  qed
qed

lemma do_hash_lookup:
  assumes L: "live env t e vs" "of_kind t"
  shows "do_hash env (Suc f) t key 0 None None = Some (t, tb_lookup env t key)"
proof (cases rule: search_cases [OF L, of key 0])
  case (1 h st' um k)
  then show ?thesis using lookup_hit [OF L 1(2,3,4)] liveD(4,5) [OF L] by (simp add: do_hash.simps get_val_def rd_Some)
next
  case (2 h st' um n)
  have "tb_lookup env t key = None" by (rule lookup_miss [OF L]) (rule 2(2))
  then show ?thesis using 2(1,3) by (simp add: do_hash.simps)
qed

section \<open>The entry points\<close>

text \<open>The loops specialised to identity are the general ones.\<close>

lemma eq_search:
  assumes "of_kind t" "ind = None"
  shows "hash_loop (tb_keys t) (\<lambda>tkey. tkey = key) (drop_bit 1 (ptr_to_long env key)) (table_mask t) (tb_size t)
      (ptr_to_long env key AND table_mask t) (drop_bit 1 (ptr_to_long env key) AND table_mask t OR 1) st 0
    = hash_search env t key st None"
proof -
  have "tb_make_hash_indices t = None" "tb_compare t = NoCompare" using assms kind unfolding of_kind_def by auto
  then show ?thesis by (simp add: hash_search_def hash_codes_def Let_def)
qed

lemma eq_get:
  assumes L: "live env t e vs" "of_kind t" and i: "ind = None"
  shows "do_hash_get env t key = Some (tb_lookup env t key)"
proof (cases rule: search_cases [OF L, of key 0])
  case (1 h st' um k)
  then show ?thesis using lookup_hit [OF L 1(2,3,4)] liveD(4,5) [OF L] eq_search [OF L(2) i]
    by (simp add: do_hash_get_def get_val_def rd_Some)
next
  case (2 h st' um n)
  have "tb_lookup env t key = None" by (rule lookup_miss [OF L]) (rule 2(2))
  then show ?thesis using 2(1,3) eq_search [OF L(2) i] by (simp add: do_hash_get_def)
qed

lemma eq_set: "of_kind t \<Longrightarrow> ind = None \<Longrightarrow> do_hash_set env f t key val = do {
    (h, found, st', useme) \<leftarrow> hash_search env t key 2 None;
    if found then hash_overwrite t (unat h) val
    else if val = None then Some (t, None)
    else if st' = 1 then hash_add t (unat useme) key val
    else if over_fill (tb_mcount t) (tb_size t) then do_hash env f t key 2 val None
    else hash_add (t\<lparr>tb_mcount := tb_mcount t + 1\<rparr>) (unat h) key val }"
  unfolding do_hash_set_def Let_def by (subst eq_search) auto

text \<open>The specialised update does what the general one does.\<close>

lemma eq_set_general:
  assumes L: "live env t e vs" "of_kind t" and i: "ind = None"
  shows "do_hash_set env (Suc f) t key val = do_hash env (Suc f) t key 2 val None"
proof (cases rule: search_cases [OF L, of key 2])
  case (1 h st' um k)
  then show ?thesis by (simp add: eq_set [OF L(2) i] do_hash.simps)
next
  case (2 h st' um n)
  consider "val = None" | "st' = 1" | "val \<noteq> None" "st' = 2" using 2(4) by auto
  then show ?thesis
  proof cases
    case 3
    then show ?thesis using 2(1) by (simp add: eq_set [OF L(2) i] do_hash.simps cong: if_cong)
  qed (use 2(1) in \<open>simp_all add: eq_set [OF L(2) i] do_hash.simps\<close>)
qed

definition prepared :: "hash_table \<Rightarrow> hash_table" where
  "prepared t = (if tb_vals t = None
     then t\<lparr>tb_size := 8, tb_vals := Some (replicate 8 None), tb_keys := replicate 8 Null\<rparr> else t)"

lemma prepared_live:
  assumes t: "table_wf env t" "of_kind t"
  shows "\<exists>e vs. live env (prepared t) e vs \<and> (tb_size t < 2 ^ 30 \<longrightarrow> e < 30)"
    "of_kind (prepared t)" "tb_lookup env (prepared t) key = tb_lookup env t key" "tb_count (prepared t) = tb_count t"
proof -
  show k: "of_kind (prepared t)" using t(2) by (auto simp: prepared_def of_kind_def)
  show "tb_count (prepared t) = tb_count t" by (simp add: prepared_def)
  show "\<exists>e vs. live env (prepared t) e vs \<and> (tb_size t < 2 ^ 30 \<longrightarrow> e < 30)"
  proof (cases "tb_vals t = None")
    case True
    then have "tb_count t = 0" "tb_mcount t = 0" using t(1) by (auto simp: table_wf_def live_def)
    then have "live env (prepared t) 3 (replicate (2 ^ 3) None)"
      by (intro fresh_live(1) [OF k]) (auto simp: prepared_def True)
    then show ?thesis by (intro exI [of _ 3]) auto
  next
    case False
    then obtain e vs where L: "live env t e vs" using t(1) by (auto simp: table_wf_def)
    have "e < 30" if "tb_size t < 2 ^ 30" using that liveD(3) [OF L t(2)] power_less_imp_less_exp [of "2::nat" e 30] by simp
    then show ?thesis using L False by (auto simp: prepared_def)
  qed
  show "tb_lookup env (prepared t) key = tb_lookup env t key"
  proof (cases "tb_vals t = None")
    case True
    then have "tb_count t = 0" "tb_mcount t = 0" using t(1) by (auto simp: table_wf_def live_def)
    then have "tb_lookup env (prepared t) key = None"
      by (intro fresh_live(2) [OF k, of 3]) (auto simp: prepared_def True)
    then show ?thesis using True by (simp add: tb_lookup_def [of _ t])
  qed (auto simp: prepared_def)
qed

theorem hash_set_spec:
  assumes t: "table_wf env t" "of_kind t" and small: "tb_size t < 2 ^ 30"
  shows "\<exists>t'. scheme_hash_set env t key val = Some t' \<and> changed t key val t' \<and> table_wf env t'"
proof -
  note P = prepared_live [OF t]
  obtain e vs where L: "live env (prepared t) e vs" "e < 30" using P(1) small by blast
  obtain t' where t': "do_hash env hash_fuel (prepared t) key 2 val None = Some (t', val)" "changed (prepared t) key val t'"
    using do_hash_update [OF L(1) P(2) L(2), of 0 key val] by (auto simp: hash_fuel_def numeral_2_eq_2)
  have "scheme_hash_set env t key val = Some t'"
    using t'(1) P(2) eq_set_general [OF L(1) P(2), of 1 key val]
    by (auto simp: scheme_hash_set_def scheme_hash_set_w_key_wraps_def Let_def prepared_def [symmetric] of_kind_def
        hash_fuel_def numeral_2_eq_2)
  moreover have "grown t t'"
    using t t'(2) by (auto simp: changed_def grown_def prepared_def table_wf_def live_def over_fill_def split: if_splits)
  then have "changed t key val t'" by (rule changed_trans [OF P(2,3,4) t'(2)])
  ultimately show ?thesis by (auto simp: changed_def table_wf_def)
qed

theorem hash_get_spec:
  assumes t: "table_wf env t" "of_kind t"
  shows "scheme_hash_get env t key = Some (tb_lookup env t key)"
proof (cases "tb_vals t = None")
  case True
  then show ?thesis by (simp add: scheme_hash_get_def scheme_hash_get_w_key_wraps_def tb_lookup_def)
next
  case False
  then obtain e vs where L: "live env t e vs" using t(1) by (auto simp: table_wf_def)
  show ?thesis
    using False do_hash_lookup [OF L t(2), of 1] eq_get [OF L t(2)] t(2)
    by (auto simp: scheme_hash_get_def scheme_hash_get_w_key_wraps_def of_kind_def hash_fuel_def numeral_2_eq_2)
qed

end

end
