(* ===== verification/HashTableLaws.thy ===== *)
theory HashTableLaws
  imports HashTableProps HashTreeLaws
begin

text \<open>
  The theorems about mutable hash tables, stated over the functions of \<open>hash.c\<close>, for every
  kind of table that the runtime makes: keys compared by address, C strings, \<open>equal?\<close> and \<open>eqv?\<close>.
\<close>

section \<open>Kinds of tables\<close>

lemma eq_table_keys: "table_keys env None NoCompare"
  by unfold_locales (auto simp: matches_def)

interpretation eq_table: table_keys env None NoCompare for env
  by (rule eq_table_keys)

text \<open>Tables of C strings: equal strings have equal codes.\<close>

interpretation string_table: table_keys env "Some (\<lambda>key. string_hash_indices (c_string key))"
    "CompareProc (\<lambda>a b. c_string a = c_string b)" for env and c_string :: "obj \<Rightarrow> 8 word list"
  by unfold_locales (auto simp: matches_def codes1_def codes2_def)

text \<open>Tables compared with \<open>equal?\<close>, under the laws of \<open>equal?\<close> and its two hash codes.\<close>

definition equal_laws :: "key_env \<Rightarrow> bool" where
  "equal_laws env \<longleftrightarrow> equivp (scheme_equal env)
     \<and> (\<forall>a b. scheme_equal env a b \<longrightarrow> equal_hash_key env a = equal_hash_key env b \<and> equal_hash_key2 env a = equal_hash_key2 env b)"

lemma equal_table_keys: "equal_laws env \<Longrightarrow> table_keys env (Some ind) CompareEqual"
  by unfold_locales
    (auto simp: matches_def codes1_def codes2_def equal_laws_def elim: equivp_reflp equivp_symp equivp_transp)

lemma word_env_equal [simp]: "equal_laws word_env" "equal_laws clash_env" "scheme_equal word_env = (=)"
  by (auto simp: equal_laws_def word_env_def clash_env_def intro: identity_equivp)

definition table_kind :: "hash_table \<Rightarrow> (obj \<Rightarrow> code \<times> code) option \<times> compare_proc" where
  "table_kind t = (tb_make_hash_indices t, tb_compare t)"

definition kind_laws :: "key_env \<Rightarrow> hash_table \<Rightarrow> bool" where
  "kind_laws env t \<longleftrightarrow> table_keys env (tb_make_hash_indices t) (tb_compare t)"

section \<open>Walking through a table\<close>

text \<open>
  The loop of the iterating primitives: positions from \<open>scheme_hash_table_next\<close>, starting at
  \<open>-1\<close>, and the entry at each of them. The table is not changed in between, and has
  fewer than \<open>fuel\<close> entries.
\<close>

fun table_walk :: "nat \<Rightarrow> hash_table \<Rightarrow> int \<Rightarrow> (obj slot \<times> obj) list option" where
  "table_walk 0 t start = None"
| "table_walk (Suc fuel) t start = do {
     r \<leftarrow> scheme_hash_table_next t start;
     (case r of
        Inr (Fixnum i) \<Rightarrow> do {
          e \<leftarrow> scheme_hash_table_index t (nat i);
          e \<leftarrow> e;
          es \<leftarrow> table_walk fuel t i;
          Some (e # es) }
      | Inr scheme_false \<Rightarrow> Some []
      | _ \<Rightarrow> None) }"

definition occupied :: "obj slot list \<Rightarrow> nat \<Rightarrow> nat list" where
  "occupied ks n = filter (\<lambda>i. is_key (ks ! i)) [n..<length ks]"

lemma occupied_rest:
  assumes "List.find (\<lambda>i. is_key (ks ! i)) [n..<length ks] = Some i"
  shows "occupied ks n = i # occupied ks (Suc i)" "n \<le> i" "i < length ks" "is_key (ks ! i)"
proof -
  obtain p where p: "p < length [n..<length ks]" "is_key (ks ! i)" "i = [n..<length ks] ! p"
    "\<And>q. q < p \<Longrightarrow> \<not> is_key (ks ! ([n..<length ks] ! q))"
    using assms by (auto simp: find_Some_iff)
  then have i: "i = n + p" "n + p < length ks" by auto
  then have split: "[n..<length ks] = [n..<i] @ i # [Suc i..<length ks]"
    using upt_add_eq_append [of n i "length ks - i"] upt_conv_Cons [of i "length ks"] by simp
  have "\<not> is_key (ks ! j)" if "n \<le> j" "j < i" for j using p(4) [of "j - n"] that i by simp
  then have "filter (\<lambda>i. is_key (ks ! i)) [n..<i] = []" by (auto simp: filter_empty_conv)
  then show "occupied ks n = i # occupied ks (Suc i)" using split p(2) by (simp add: occupied_def)
  show "n \<le> i" "i < length ks" "is_key (ks ! i)" using i p(2) by auto
qed

context table_keys begin

lemma index_occupied:
  assumes L: "live env t e vs" "of_kind t" and i: "i < 2 ^ e" "is_key (tb_keys t ! i)"
  shows "scheme_hash_table_index t i = Some (Some (tb_keys t ! i, the (vs ! i)))"
  using liveD [OF L] i by (auto simp: scheme_hash_table_index_def get_val_def rd_Some split: option.splits)

lemma next_occupied:
  assumes L: "live env t e vs" "of_kind t" and start: "start = -1 \<or> (\<exists>i<2 ^ e. start = int i \<and> is_key (tb_keys t ! i))"
  shows "scheme_hash_table_next t start =
    Some (Inr (case List.find (\<lambda>i. is_key (tb_keys t ! i)) [nat (start + 1)..<length (tb_keys t)] of
      Some i \<Rightarrow> Fixnum (int i) | None \<Rightarrow> scheme_false))"
proof -
  note D = liveD [OF L]
  have eq: "List.find (\<lambda>i. vs ! i \<noteq> None) [n..<2 ^ e] = List.find (\<lambda>i. is_key (tb_keys t ! i)) [n..<2 ^ e]" for n
    by (rule find_cong) (use D(8) in auto)
  have "start = -1 \<or> (\<exists>i<2 ^ e. start = int i \<and> vs ! i \<noteq> None)" using start D(8) by auto
  then show ?thesis
    using D(3-5,7) eq [of "nat (start + 1)"]
    by (auto simp: scheme_hash_table_next_def rd_Some split: option.splits)
qed

lemma walk_from:
  assumes L: "live env t e vs" "of_kind t"
  shows "start = -1 \<or> (\<exists>i<2 ^ e. start = int i \<and> is_key (tb_keys t ! i)) \<Longrightarrow>
    length (occupied (tb_keys t) (nat (start + 1))) < fuel \<Longrightarrow>
    table_walk fuel t start = Some (map (\<lambda>i. (tb_keys t ! i, the (vs ! i))) (occupied (tb_keys t) (nat (start + 1))))"
proof (induction fuel arbitrary: start)
  case (Suc fuel)
  note D = liveD [OF L]
  note nx = next_occupied [OF L Suc.prems(1)]
  show ?case
  proof (cases "List.find (\<lambda>i. is_key (tb_keys t ! i)) [nat (start + 1)..<length (tb_keys t)]")
    case None
    then have "occupied (tb_keys t) (nat (start + 1)) = []" by (auto simp: occupied_def find_None_iff filter_empty_conv)
    then show ?thesis using nx None by simp
  next
    case (Some i)
    note r = occupied_rest [OF Some]
    have "table_walk fuel t (int i) = Some (map (\<lambda>i. (tb_keys t ! i, the (vs ! i))) (occupied (tb_keys t) (nat (int i + 1))))"
      using Suc.IH [of "int i"] Suc.prems(2) r D(7) by (auto simp: nat_add_distrib)
    then show ?thesis using nx Some r index_occupied [OF L, of i] D(7) by (simp add: nat_add_distrib)
  qed
qed simp

lemma filter_occupied: "length (occupied ks 0) = length (filter is_key ks)"
proof -
  have "map ((!) ks) (occupied ks 0) = filter is_key (map ((!) ks) [0..<length ks])"
    by (simp add: occupied_def filter_map o_def)
  then show ?thesis by (metis length_map map_nth)
qed

lemma walk_spec:
  assumes t: "table_wf env t" "of_kind t"
  shows "\<exists>es. table_walk (Suc (tb_size t)) t (-1) = Some es \<and> int (length es) = tb_count t
    \<and> (\<forall>key v. tb_lookup env t key = Some v \<longleftrightarrow> (\<exists>k. (Key k, v) \<in> set es \<and> M key k))
    \<and> distinct (map fst es)"
proof (cases "tb_vals t = None")
  case True
  then have z: "tb_size t = 0" "tb_count t = 0" using t(1) by (auto simp: table_wf_def live_def)
  then show ?thesis using True by (simp add: scheme_hash_table_next_def tb_lookup_def)
next
  case False
  then obtain e vs where L: "live env t e vs" using t(1) by (auto simp: table_wf_def)
  note D = liveD [OF L t(2)]
  let ?es = "map (\<lambda>i. (tb_keys t ! i, the (vs ! i))) (occupied (tb_keys t) 0)"
  have "length (occupied (tb_keys t) 0) \<le> tb_size t"
    using length_filter_le [of is_key "tb_keys t"] D(3,7) by (simp add: filter_occupied)
  then have w: "table_walk (Suc (tb_size t)) t (-1) = Some ?es" 
    using walk_from [OF L t(2), of "-1" "Suc (tb_size t)"] by (simp del: table_walk.simps)
  have len: "int (length ?es) = tb_count t" using D(9) by (simp add: filter_occupied nkeys_def)
  have mem: "(Key k, v) \<in> set ?es \<longleftrightarrow> (\<exists>i<2 ^ e. tb_keys t ! i = Key k \<and> vs ! i = Some v)" for k v
    using D(7,8) by (auto simp: occupied_def image_iff)
  have look: "tb_lookup env t key = Some v \<longleftrightarrow> (\<exists>k. (Key k, v) \<in> set ?es \<and> M key k)" for key v
  proof (cases rule: lookup_cases [OF L t(2), of key])
    case (1 i k w)
    show ?thesis
    proof
      assume "tb_lookup env t key = Some v"
      then show "\<exists>k. (Key k, v) \<in> set ?es \<and> M key k" using 1 mem by (intro exI [of _ k]) auto
    next
      assume "\<exists>k. (Key k, v) \<in> set ?es \<and> M key k"
      then show "tb_lookup env t key = Some v" using lookup_hit [OF L t(2)] mem by auto
    qed
  next
    case 2
    then show ?thesis using mem by auto
  qed
  have "inj_on (\<lambda>i. tb_keys t ! i) (set (occupied (tb_keys t) 0))"
  proof (rule inj_onI)
    fix i j assume ij: "i \<in> set (occupied (tb_keys t) 0)" "j \<in> set (occupied (tb_keys t) 0)" "tb_keys t ! i = tb_keys t ! j"
    then obtain k where "tb_keys t ! i = Key k" by (auto simp: occupied_def elim: is_key.elims)
    then show "i = j" using ij table_okD(6) [OF D(6), of i j k k] m_refl D(7) by (auto simp: occupied_def)
  qed
  then have "distinct (map fst ?es)" by (simp add: distinct_map occupied_def o_def)
  then show ?thesis using w len look by blast
qed

lemma hash_get_total: "table_wf env t \<Longrightarrow> of_kind t \<Longrightarrow> \<exists>r. scheme_hash_get env t key = Some r"
  using hash_get_spec by blast

text \<open>Emptying and copying a table.\<close>

lemma clear_spec:
  assumes "of_kind t" "table_wf env t"
  shows "table_wf env (scheme_clear_hash_table t)" "of_kind (scheme_clear_hash_table t)"
    "tb_lookup env (scheme_clear_hash_table t) key = None" "grown t (scheme_clear_hash_table t)"
  using assms by (auto simp: scheme_clear_hash_table_def table_wf_def of_kind_def tb_lookup_def grown_def live_def nused_def)

lemma reset_spec:
  assumes t: "table_wf env t" "of_kind t"
  shows "table_wf env (scheme_reset_hash_table t)" "of_kind (scheme_reset_hash_table t)"
    "tb_lookup env (scheme_reset_hash_table t) key = None" "grown t (scheme_reset_hash_table t)"
proof -
  let ?r = "scheme_reset_hash_table t"
  show k: "of_kind ?r" using t(2) by (simp add: scheme_reset_hash_table_def of_kind_def Let_def)
  have m: "tb_mcount ?r = 0" "tb_count ?r = 0" by (simp_all add: scheme_reset_hash_table_def Let_def)
  have sz: "tb_size ?r \<le> tb_size t" by (simp add: scheme_reset_hash_table_def Let_def)
  have "0 \<le> tb_mcount t" using t(1) by (auto simp: table_wf_def live_def nused_def)
  then show "grown t ?r" using m sz by (simp add: grown_def le_max_iff_disj)
  have "table_wf env ?r \<and> tb_lookup env ?r key = None"
  proof (cases "tb_vals t = None")
    case True
    then have "tb_size t = 0" using t(1) by (auto simp: table_wf_def live_def)
    then show ?thesis using True m by (auto simp: table_wf_def scheme_reset_hash_table_def tb_lookup_def)
  next
    case False
    then obtain e vs where L: "live env t e vs" using t(1) by (auto simp: table_wf_def)
    note D = liveD [OF L t(2)]
    define keep where "keep \<longleftrightarrow> tb_size t \<le> 8 \<or> 5 * int (tb_size t div 2) < 7 * tb_count t"
    define e' where "e' = (if keep then e else e - 1)"
    have "e \<noteq> 3" if "\<not> keep" using that D(3) by (auto simp: keep_def)
    then have e': "3 \<le> e'" "e' < 31" using D(1,2) by (auto simp: e'_def)
    have half: "(2::nat) ^ e div 2 = 2 ^ (e - 1)" using D(1) by (cases e) auto
    have "tb_size ?r = 2 ^ e'" "tb_keys ?r = replicate (2 ^ e') Null" "tb_vals ?r = Some (replicate (2 ^ e') None)"
      using D(3-5,7) half by (auto simp: scheme_reset_hash_table_def Let_def e'_def keep_def)
    from fresh_live [OF k e' this m(2,1)] show ?thesis by (auto simp: table_wf_def)
  qed
  then show "table_wf env ?r" "tb_lookup env ?r key = None" by auto
qed

lemma clone_spec:
  shows "table_wf env (scheme_clone_hash_table sema t) \<longleftrightarrow> table_wf env t"
    "of_kind (scheme_clone_hash_table sema t) \<longleftrightarrow> of_kind t"
    "tb_lookup env (scheme_clone_hash_table sema t) key = tb_lookup env t key"
    "table_wf env t \<Longrightarrow> grown t (scheme_clone_hash_table sema t)"
  by (simp_all add: scheme_clone_hash_table_def table_wf_def live_def of_kind_def tb_lookup_def grown_def cong: slot.case_cong option.case_cong)

end

section \<open>Sequences of operations\<close>

text \<open>
  Operations on a table and the same operations on a finite map. A table grows only when it
  is filled, so that a bound on the number of operations bounds its size.
\<close>

datatype table_op = OpSet obj "obj option" | OpClear | OpReset | OpClone obj

fun run_op :: "key_env \<Rightarrow> table_op \<Rightarrow> hash_table \<Rightarrow> hash_table option" where
  "run_op env (OpSet k v) t = scheme_hash_set env t k v"
| "run_op env OpClear t = Some (scheme_clear_hash_table t)"
| "run_op env OpReset t = Some (scheme_reset_hash_table t)"
| "run_op env (OpClone sema) t = Some (scheme_clone_hash_table sema t)"

fun run_ops :: "key_env \<Rightarrow> table_op list \<Rightarrow> hash_table \<Rightarrow> hash_table option" where
  "run_ops env [] t = Some t"
| "run_ops env (x # xs) t = do { t \<leftarrow> run_op env x t; run_ops env xs t }"

fun spec_op :: "(obj \<Rightarrow> obj \<Rightarrow> bool) \<Rightarrow> table_op \<Rightarrow> (obj \<rightharpoonup> obj) \<Rightarrow> (obj \<rightharpoonup> obj)" where
  "spec_op eqv (OpSet k v) m = (\<lambda>k'. if eqv k k' then v else m k')"
| "spec_op eqv OpClear m = Map.empty"
| "spec_op eqv OpReset m = Map.empty"
| "spec_op eqv (OpClone sema) m = m"

definition room :: "hash_table \<Rightarrow> nat \<Rightarrow> bool" where
  "room t n \<longleftrightarrow> tb_size t < 2 ^ 30 \<and> 7 * (tb_mcount t + int n) < 5 * 2 ^ 29"

lemma room_grown: "room t (Suc n) \<Longrightarrow> grown t t' \<Longrightarrow> room t' n"
  by (auto simp: room_def grown_def over_fill_def)

context table_keys begin

lemma run_op_spec:
  assumes t: "table_wf env t" "of_kind t" and small: "room t (Suc n)"
  shows "\<exists>t'. run_op env x t = Some t' \<and> table_wf env t' \<and> of_kind t' \<and> room t' n
    \<and> tb_lookup env t' = spec_op M x (tb_lookup env t)"
proof (cases x)
  case (OpSet k v)
  then show ?thesis using hash_set_spec [OF t, of k v] small room_grown [OF small]
    by (auto simp: changed_def room_def [of t])
next
  case OpClear
  then show ?thesis using clear_spec [OF t(2,1)] room_grown [OF small] by auto
next
  case OpReset
  then show ?thesis using reset_spec [OF t] room_grown [OF small] by auto
next
  case (OpClone sema)
  then show ?thesis using clone_spec t room_grown [OF small] by auto
qed

lemma run_ops_spec:
  "table_wf env t \<Longrightarrow> of_kind t \<Longrightarrow> room t (length xs) \<Longrightarrow>
   \<exists>t'. run_ops env xs t = Some t' \<and> table_wf env t' \<and> of_kind t'
     \<and> tb_lookup env t' = fold (spec_op M) xs (tb_lookup env t)"
proof (induction xs arbitrary: t)
  case (Cons x xs)
  obtain t1 where t1: "run_op env x t = Some t1" "table_wf env t1" "of_kind t1" "room t1 (length xs)"
    "tb_lookup env t1 = spec_op M x (tb_lookup env t)"
    using run_op_spec [OF Cons.prems(1,2), of "length xs" x] Cons.prems(3) by auto
  then show ?case using Cons.IH [OF t1(2-4)] by simp
qed simp

end

section \<open>Properties\<close>

text \<open>A table together with the laws of its keys.\<close>

definition good_table :: "key_env \<Rightarrow> hash_table \<Rightarrow> bool" where
  "good_table env t \<longleftrightarrow> table_keys env (tb_make_hash_indices t) (tb_compare t) \<and> table_wf env t"

lemma good_tableD:
  assumes "good_table env t"
  shows "table_keys env (tb_make_hash_indices t) (tb_compare t)" "table_wf env t"
    "table_keys.of_kind (tb_make_hash_indices t) (tb_compare t) t"
proof -
  show K: "table_keys env (tb_make_hash_indices t) (tb_compare t)" "table_wf env t"
    using assms by (simp_all add: good_table_def)
  show "table_keys.of_kind (tb_make_hash_indices t) (tb_compare t) t" by (simp add: table_keys.of_kind_def [OF K(1)])
qed

lemma of_kindD:
  assumes "table_keys env ind cmp" "table_keys.of_kind ind cmp t"
  shows "tb_make_hash_indices t = ind" "tb_compare t = cmp"
  using assms(2) by (simp_all add: table_keys.of_kind_def [OF assms(1)])

lemma good_get: "good_table env t \<Longrightarrow> scheme_hash_get env t key = Some (tb_lookup env t key)"
  using table_keys.hash_get_spec [OF good_tableD] by blast

lemma good_set:
  assumes g: "good_table env t" and small: "tb_size t < 2 ^ 30"
  shows "\<exists>t'. scheme_hash_set env t key val = Some t' \<and> good_table env t' \<and> tb_compare t' = tb_compare t
    \<and> (\<forall>key'. tb_lookup env t' key' = (if matches env (tb_compare t) key key' then val else tb_lookup env t key'))"
proof -
  note K = good_tableD [OF g]
  obtain t' where t': "scheme_hash_set env t key val = Some t'" "table_wf env t'"
    "table_keys.changed env (tb_make_hash_indices t) (tb_compare t) t key val t'"
    using table_keys.hash_set_spec [OF K small] by blast
  note ch = t'(3) [unfolded table_keys.changed_def [OF K(1)]]
  note k = of_kindD [OF K(1) conjunct1 [OF ch]]
  have "good_table env t'" using K(1) k t'(2) by (simp add: good_table_def)
  then show ?thesis using t'(1) k(2) ch by blast
qed

lemma empty_table_wf: "table_wf env (scheme_make_hash_table c_string ty)"
  "table_wf env (scheme_make_hash_table_equal env sema)" "table_wf env (scheme_make_hash_table_eqv env h2)"
  by (simp_all add: scheme_make_hash_table_def scheme_make_hash_table_equal_def scheme_make_hash_table_eqv_def table_wf_def Let_def)

lemma make_good [simp]:
  "good_table env (scheme_make_hash_table c_string ty)"
  "equal_laws env \<Longrightarrow> good_table env (scheme_make_hash_table_equal env sema)"
proof -
  show "good_table env (scheme_make_hash_table c_string ty)"
    using empty_table_wf(1) [of env c_string ty] eq_table_keys [of env] string_table.table_keys_axioms [of env c_string]
    by (cases "ty = SCHEME_hash_string") (simp_all add: good_table_def scheme_make_hash_table_def)
  show "equal_laws env \<Longrightarrow> good_table env (scheme_make_hash_table_equal env sema)"
    using empty_table_wf(2) [of env sema] equal_table_keys [of env]
    by (simp add: good_table_def scheme_make_hash_table_equal_def)
qed

lemma make_empty [simp]:
  "tb_lookup env (scheme_make_hash_table c_string ty) = Map.empty" "tb_size (scheme_make_hash_table c_string ty) = 0"
  "tb_mcount (scheme_make_hash_table c_string ty) = 0"
  "tb_size (scheme_make_hash_table_equal env sema) = 0" "tb_vals (scheme_make_hash_table c_string ty) = None"
  "tb_compare (scheme_make_hash_table_equal env sema) = CompareEqual"
  by (auto simp: scheme_make_hash_table_def scheme_make_hash_table_equal_def tb_lookup_def Let_def)

text \<open>
  C10. Storing or removing a key in a mutable hash table ends, stays inside the arrays of the table,
  and changes exactly the entry of that key: an equivalent key is then found with the new value
  (or not at all, after a removal), and every other lookup gives what it gave before, also
  when the table is rehashed into larger arrays or an abandoned slot is used again.
\<close>

theorem hash_table_set_get:
  assumes "good_table env t" "tb_size t < 2 ^ 30"
  shows "\<exists>t'. scheme_hash_set env t key val = Some t' \<and> good_table env t' \<and> tb_compare t' = tb_compare t
    \<and> (\<forall>key'. scheme_hash_get env t' key' =
         (if matches env (tb_compare t) key key' then Some val else scheme_hash_get env t key'))"
  using good_set [OF assms, of key val] good_get [OF assms(1)] good_get by fastforce

theorem hash_table_set_get_witness:
  "\<exists>t'. scheme_hash_set word_env (scheme_make_hash_table_equal word_env (Ptr 8)) (Fixnum 3) (Some scheme_true) = Some t'
    \<and> scheme_hash_get word_env t' (Fixnum 3) = Some (Some scheme_true)"
  using hash_table_set_get [of word_env "scheme_make_hash_table_equal word_env (Ptr 8)" "Fixnum 3" "Some scheme_true"]
  by (auto simp: matches_def)

text \<open>
  C11. Any sequence of stores, removals, clears, resets and copies of fewer than 380 million operations
  on a new mutable hash table of addresses or of C strings runs without leaving the arrays of the table, and
  refines the same operations on a finite map: every lookup at the end gives what the map gives.
\<close>

theorem hash_table_refines_map:
  assumes "t = scheme_make_hash_table c_string ty" "length ops \<le> 380000000"
  shows "\<exists>t'. run_ops env ops t = Some t'
    \<and> (\<forall>key. scheme_hash_get env t' key = Some (fold (spec_op (matches env (tb_compare t))) ops Map.empty key))"
proof -
  have g: "good_table env t" using assms(1) by simp
  note K = good_tableD [OF g]
  have "room t (length ops)" using assms by (simp add: room_def)
  from table_keys.run_ops_spec [OF K this]
  obtain t' where t': "run_ops env ops t = Some t'" "table_wf env t'"
    "table_keys.of_kind (tb_make_hash_indices t) (tb_compare t) t'"
    "tb_lookup env t' = fold (spec_op (matches env (tb_compare t))) ops (tb_lookup env t)" by blast
  have "good_table env t'" using K(1) t'(2) of_kindD [OF K(1) t'(3)] by (simp add: good_table_def)
  from good_get [OF this] show ?thesis using t'(1,4) assms(1) by simp
qed

theorem hash_table_refines_map_witness:
  "\<exists>t'. run_ops word_env [OpSet (Fixnum 1) (Some scheme_void), OpReset, OpSet (Fixnum 2) (Some scheme_true)]
      (scheme_make_hash_table (\<lambda>_. []) SCHEME_hash_ptr) = Some t'
    \<and> scheme_hash_get word_env t' (Fixnum 1) = Some None \<and> scheme_hash_get word_env t' (Fixnum 2) = Some (Some scheme_true)"
  using hash_table_refines_map [OF refl, of
      "[OpSet (Fixnum 1) (Some scheme_void), OpReset, OpSet (Fixnum 2) (Some scheme_true)]"
      word_env "\<lambda>_. []" SCHEME_hash_ptr]
  by (auto simp: matches_def scheme_make_hash_table_def)

text \<open>
  C12. Every search of a mutable hash table ends after at most as many steps as the table has slots,
  at a slot of the table, and reports the key as found exactly if the table has an entry for it,
  whatever the hash codes of the keys are.
\<close>

theorem hash_search_terminates:
  assumes "good_table env t" "tb_vals t \<noteq> None"
  shows "\<exists>h found st' useme. hash_search env t key st None = Some (h, found, st', useme)
    \<and> unat h < tb_size t \<and> (found \<longleftrightarrow> tb_lookup env t key \<noteq> None)"
proof -
  note K = good_tableD(1,3) [OF assms(1)]
  obtain e vs where L: "live env t e vs" using good_tableD(2) [OF assms(1)] assms(2) by (auto simp: table_wf_def)
  note D = table_keys.liveD [OF K(1) L K(2)]
  show ?thesis
  proof (cases rule: table_keys.search_cases [OF K(1) L K(2), of key st])
    case (1 h st' um k)
    then show ?thesis using table_keys.lookup_hit [OF K(1) L K(2) 1(2,3,4)] D(3,8) by auto
  next
    case (2 h st' um n)
    have none: "tb_lookup env t key = None" by (rule table_keys.lookup_miss [OF K(1) L K(2)]) (rule 2(2))
    show ?thesis using 2(1,6) D(3) none by auto
  qed
qed

theorem hash_search_terminates_witness:
  "\<exists>h found st' useme. hash_search word_env
      ((scheme_make_hash_table (\<lambda>_. []) SCHEME_hash_ptr)\<lparr>tb_size := 8, tb_vals := Some (replicate 8 None), tb_keys := replicate 8 Null\<rparr>)
      (Fixnum 5) 0 None = Some (h, found, st', useme) \<and> unat h < 8"
proof -
  let ?t = "(scheme_make_hash_table (\<lambda>_. []) SCHEME_hash_ptr)
    \<lparr>tb_size := 8, tb_vals := Some (replicate 8 None), tb_keys := replicate 8 Null\<rparr>"
  have "live word_env ?t 3 (replicate (2 ^ 3) None)"
    by (rule eq_table.fresh_live(1)) (auto simp: eq_table.of_kind_def scheme_make_hash_table_def Let_def)
  then have "good_table word_env ?t"
    using eq_table_keys [of word_env] by (auto simp: good_table_def table_wf_def scheme_make_hash_table_def Let_def)
  then show ?thesis using hash_search_terminates [of word_env ?t "Fixnum 5" 0] by auto
qed

text \<open>
  C13. Iterating over a mutable hash table from its first position gives every entry once: as many
  entries as the count says, with different keys, and a lookup finds a value exactly if the walk
  meets an equivalent key with that value.
\<close>

theorem hash_table_walk:
  assumes "good_table env t"
  shows "\<exists>es. table_walk (Suc (tb_size t)) t (-1) = Some es \<and> int (length es) = tb_count t \<and> distinct (map fst es)
    \<and> (\<forall>key v. scheme_hash_get env t key = Some (Some v) \<longleftrightarrow>
         (\<exists>k. (Key k, v) \<in> set es \<and> matches env (tb_compare t) key k))"
  using table_keys.walk_spec [OF good_tableD [OF assms]] good_get [OF assms] by auto

theorem hash_table_walk_witness:
  "\<exists>es. table_walk 1 (scheme_make_hash_table (\<lambda>_. []) SCHEME_hash_string) (-1) = Some es \<and> distinct (map fst es)"
  using hash_table_walk [of word_env "scheme_make_hash_table (\<lambda>_. []) SCHEME_hash_string"] by (auto simp del: table_walk.simps)

end
