(* ===== verification/Utf8.thy ===== *)
theory Utf8
  imports Prelude
begin

text \<open>
  The UTF-8 and UTF-16 converters of \<open>string.c\<close>: the resumable decoder \<open>utf8_decode_x\<close>, the
  encoder \<open>utf8_encode_x\<close>, their entry points, and the conversions between UCS-4 and UTF-16
  (the code for platforms other than Windows). Characters (\<open>mzchar\<close>) are 32-bit words and bytes
  8-bit words. An output buffer is a list of array elements: characters, or, when the
  decoder is asked for compact output, the 16-bit units or bytes it stores. A result \<open>None\<close> is
  an access outside of a buffer, or a loop that does not end.
\<close>

type_synonym mzchar = "32 word"
type_synonym byte = "8 word"

section \<open>Decoding\<close>

text \<open>The local variables of \<open>utf8_decode_x\<close>; \<open>u_us\<close> is the output buffer, \<open>None\<close> for \<open>NULL\<close>.\<close>

record utf8_vars =
  u_i :: nat
  u_j :: nat
  u_oki :: nat
  u_state :: nat
  u_init_doki :: nat
  u_nextbits :: mzchar
  u_v :: mzchar
  u_us :: "mzchar list option"
  u_failmode :: int

text \<open>
  How the first part of the loop body ends: with \<open>continue\<close>, by reaching the code that outputs
  \<open>v\<close>, or with \<open>break\<close>.
\<close>

datatype utf8_next = Continue utf8_vars | Output utf8_vars | Break utf8_vars

definition ENCFAIL :: "utf8_vars \<Rightarrow> utf8_next" where
  "ENCFAIL x = Break (x\<lparr>u_i := u_oki x, u_failmode := -2\<rparr>)"

text \<open>A bad byte inside of a sequence goes back to the start of the sequence.\<close>

definition bad_in_sequence :: "mzchar \<Rightarrow> utf8_vars \<Rightarrow> utf8_next" where
  "bad_in_sequence permissive x =
     (if permissive \<noteq> 0 then Output (x\<lparr>u_v := permissive, u_i := u_oki x, u_j := u_j x + u_init_doki x\<rparr>)
      else ENCFAIL x)"

definition bad_start :: "mzchar \<Rightarrow> utf8_vars \<Rightarrow> utf8_next" where
  "bad_start permissive x = (if permissive \<noteq> 0 then Output (x\<lparr>u_v := permissive\<rparr>) else ENCFAIL x)"

definition continue_sequence :: "mzchar \<Rightarrow> mzchar \<Rightarrow> utf8_vars \<Rightarrow> utf8_next" where
  "continue_sequence sc permissive x =
     (if u_nextbits x = 0 \<or> sc AND u_nextbits x \<noteq> 0 then
        let x = x\<lparr>u_v := push_bit 6 (u_v x) + (sc AND 0x3F), u_nextbits := 0, u_state := u_state x - 1\<rparr>
        in if u_state x \<noteq> 0 then Continue (x\<lparr>u_i := u_i x + 1\<rparr>)
           else if 0xD800 \<le> u_v x \<and> u_v x \<le> 0xDFFF \<or> 0x10FFFF < u_v x then bad_in_sequence permissive x
           else Output x
      else bad_in_sequence permissive (x\<lparr>u_state := 0, u_nextbits := 0\<rparr>))"

definition start_sequence :: "mzchar \<Rightarrow> mzchar \<Rightarrow> utf8_vars \<Rightarrow> utf8_next" where
  "start_sequence sc permissive x =
     (if sc AND 0xE0 = 0xC0 then
        if sc AND 0x1E \<noteq> 0
        then Continue (x\<lparr>u_state := 1, u_v := sc AND 0x1F, u_i := u_i x + 1\<rparr>)
        else bad_start permissive x
      else if sc AND 0xF0 = 0xE0 then
        let v = sc AND 0xF
        in Continue (x\<lparr>u_state := 2, u_v := v, u_nextbits := (if v = 0 then 0x20 else u_nextbits x), u_i := u_i x + 1\<rparr>)
      else if sc AND 0xF8 = 0xF0 then
        let v = sc AND 0x7
        in if v \<le> 4
           then Continue (x\<lparr>u_state := 3, u_v := v, u_nextbits := (if v = 0 then 0x30 else u_nextbits x), u_i := u_i x + 1\<rparr>)
           else bad_start permissive (x\<lparr>u_v := v\<rparr>)
      else bad_start permissive x)"

definition utf8_byte :: "mzchar \<Rightarrow> mzchar \<Rightarrow> utf8_vars \<Rightarrow> utf8_next" where
  "utf8_byte sc permissive x =
     (if sc < 0x80 then
        if u_state x \<noteq> 0 then bad_in_sequence permissive (x\<lparr>u_state := 0, u_nextbits := 0\<rparr>)
        else Output (x\<lparr>u_v := sc\<rparr>)
      else if sc AND 0xC0 = 0x80 then
        if u_state x \<noteq> 0 then continue_sequence sc permissive x
        else bad_start permissive x
      else if u_state x \<noteq> 0 then bad_in_sequence permissive (x\<lparr>u_state := 0\<rparr>)
      else start_sequence sc permissive x)"

text \<open>Storing array elements at position \<open>j\<close> of the output, unless it is \<open>NULL\<close>.\<close>

fun put :: "mzchar list option \<Rightarrow> nat \<Rightarrow> mzchar list \<Rightarrow> mzchar list option option" where
  "put None j vs = Some None"
| "put (Some us) j vs = do { us \<leftarrow> blit us j vs 0 (length vs); Some (Some us) }"

text \<open>
  Storing \<open>v\<close>: the outer \<open>None\<close> is an access outside of a buffer, the inner one the \<open>break\<close> for
  lack of room.
\<close>

definition utf8_output :: "byte list \<Rightarrow> nat \<Rightarrow> bool \<Rightarrow> bool \<Rightarrow> utf8_vars \<Rightarrow> utf8_vars option option" where
  "utf8_output s dend compact utf16 x =
     (let v = u_v x; j = u_j x; delta = u_i x - u_oki x in
      if compact then
        if utf16 then
          if 0xFFFF < v then
            if dend \<le> j + 1 then Some None
            else do {
              let w = v - 0x10000;
              us \<leftarrow> put (u_us x) j [0xD800 OR (drop_bit 10 w AND 0x3FF), 0xDC00 OR (w AND 0x3FF)];
              Some (Some (x\<lparr>u_us := us, u_j := j + 1\<rparr>)) }
          else do { us \<leftarrow> put (u_us x) j [take_bit 16 v]; Some (Some (x\<lparr>u_us := us\<rparr>)) }
        else if delta \<noteq> 0 then
          if j + delta + 1 < dend then do {
            us \<leftarrow> put (u_us x) j (map ucast (take (delta + 1) (drop (u_oki x) s)));
            Some (Some (x\<lparr>u_us := us, u_j := j + delta\<rparr>)) }
          else Some None
        else if v = 0xFFFD then
          if j + 3 < dend then do {
            us \<leftarrow> put (u_us x) j [0xEF, 0xBF, 0xBD];
            Some (Some (x\<lparr>u_us := us, u_j := j + 2\<rparr>)) }
          else Some None
        else do { us \<leftarrow> put (u_us x) j [take_bit 8 v]; Some (Some (x\<lparr>u_us := us\<rparr>)) }
      else do { us \<leftarrow> put (u_us x) j [v]; Some (Some (x\<lparr>u_us := us\<rparr>)) })"

definition next_char :: "utf8_vars \<Rightarrow> utf8_vars" where
  "next_char x = x\<lparr>u_j := u_j x + 1, u_i := u_i x + 1, u_oki := u_i x + 1, u_init_doki := 0\<rparr>"

partial_function (option) utf8_loop :: "byte list \<Rightarrow> nat \<Rightarrow> nat \<Rightarrow> bool \<Rightarrow> bool \<Rightarrow> mzchar \<Rightarrow> utf8_vars \<Rightarrow> utf8_vars option" where
  [code]: "utf8_loop s e dend compact utf16 permissive x =
     (if u_i x < e then
        Option.bind (rd s (u_i x)) (\<lambda>b.
          case utf8_byte (ucast b) permissive x of
            Continue y \<Rightarrow> utf8_loop s e dend compact utf16 permissive y
          | Break y \<Rightarrow> Some y
          | Output y \<Rightarrow>
              Option.bind (utf8_output s dend compact utf16 y) (\<lambda>r.
                case r of
                  None \<Rightarrow> Some y
                | Some z \<Rightarrow>
                    let z = next_char z
                    in if dend \<le> u_j z then Some z else utf8_loop s e dend compact utf16 permissive z))
      else Some x)"

text \<open>The bytes of an unfinished sequence at the end of the input, in permissive mode.\<close>

fun fill_tail :: "nat \<Rightarrow> nat \<Rightarrow> mzchar \<Rightarrow> utf8_vars \<Rightarrow> utf8_vars option" where
  "fill_tail 0 dend c x = Some (x\<lparr>u_oki := u_i x\<rparr>)"
| "fill_tail (Suc n) dend c x =
     (if u_j x < dend
      then do { us \<leftarrow> put (u_us x) (u_j x) [c]; fill_tail n dend c (x\<lparr>u_us := us, u_j := u_j x + 1, u_i := u_i x + 1\<rparr>) }
      else Some (x\<lparr>u_oki := u_i x\<rparr>))"

text \<open>
  The results: the returned value, the positions stored in \<open>*ipos\<close> and \<open>*jpos\<close>, the buffer, and the
  value stored in \<open>*_state\<close>.
\<close>

record utf8_result =
  r_value :: int
  r_ipos :: nat
  r_jpos :: nat
  r_us :: "mzchar list option"
  r_state :: "mzchar option"

definition strlen :: "byte list \<Rightarrow> nat" where
  "strlen s = length (takeWhile (\<lambda>b. b \<noteq> 0) s)"

definition utf8_start :: "nat \<Rightarrow> nat \<Rightarrow> mzchar list option \<Rightarrow> mzchar option \<Rightarrow> utf8_vars" where
  "utf8_start start dstart us st =
     (case st of
        Some w \<Rightarrow> \<lparr>u_i = start, u_j = dstart, u_oki = start, u_state = unat (w AND 0x7),
           u_init_doki = unat (drop_bit 3 w AND 0x7), u_nextbits = push_bit 2 (drop_bit 6 w AND 0xF), u_v = drop_bit 10 w,
           u_us = us, u_failmode = -3\<rparr>
      | None \<Rightarrow> \<lparr>u_i = start, u_j = dstart, u_oki = start, u_state = 0, u_init_doki = 0, u_nextbits = 0, u_v = 0,
           u_us = us, u_failmode = -3\<rparr>)"

definition pack_state :: "nat \<Rightarrow> utf8_vars \<Rightarrow> mzchar" where
  "pack_state e x =
     (if u_state x = 0 then 0
      else word_of_nat (u_state x) OR push_bit 3 (word_of_nat ((e - u_oki x) + u_init_doki x))
        OR push_bit 6 (drop_bit 2 (u_nextbits x)) OR push_bit 10 (u_v x))"

definition utf8_finish :: "nat \<Rightarrow> nat \<Rightarrow> bool \<Rightarrow> bool \<Rightarrow> mzchar option \<Rightarrow> bool \<Rightarrow> mzchar \<Rightarrow> utf8_vars \<Rightarrow> utf8_vars option" where
  "utf8_finish e dend compact utf16 st might_continue permissive x =
     (if st \<noteq> None \<or> u_state x = 0 then Some x
      else if might_continue \<or> permissive = 0 then Some (x\<lparr>u_failmode := -1, u_i := e - 1\<rparr>)
      else fill_tail (e - u_oki x) dend
             (if compact then (if utf16 then take_bit 16 permissive else take_bit 8 permissive) else permissive)
             (x\<lparr>u_i := u_oki x\<rparr>))"

definition utf8_decode_x :: "byte list \<Rightarrow> nat \<Rightarrow> int \<Rightarrow> mzchar list option \<Rightarrow> nat \<Rightarrow> int \<Rightarrow> bool \<Rightarrow> bool \<Rightarrow> mzchar option
    \<Rightarrow> bool \<Rightarrow> mzchar \<Rightarrow> utf8_result option" where
  "utf8_decode_x s start ende us dstart dende compact utf16 st might_continue permissive = do {
     let e = (if ende < 0 then strlen s else nat ende);
     let dend = (if dende < 0 then 0x7FFFFFFF else nat dende);
     let x = utf8_start start dstart us st;
     x \<leftarrow> (if dstart < dend then utf8_loop s e dend compact utf16 permissive x else Some x);
     y \<leftarrow> utf8_finish e dend compact utf16 st might_continue permissive x;
     Some \<lparr>r_value = (if u_i y < e then u_failmode y else int (u_j y) - int dstart), r_ipos = u_oki y, r_jpos = u_j y,
       r_us = u_us y, r_state = (case st of None \<Rightarrow> None | Some _ \<Rightarrow> Some (pack_state e x))\<rparr> }"

section \<open>Entry points of the decoder\<close>

definition scheme_utf8_decode :: "byte list \<Rightarrow> nat \<Rightarrow> int \<Rightarrow> mzchar list option \<Rightarrow> nat \<Rightarrow> int \<Rightarrow> bool \<Rightarrow> mzchar \<Rightarrow> utf8_result option" where
  "scheme_utf8_decode s start ende us dstart dende utf16 permissive =
     utf8_decode_x s start ende us dstart dende utf16 utf16 None False permissive"

definition scheme_utf8_decode_offset_prefix ::
    "byte list \<Rightarrow> nat \<Rightarrow> int \<Rightarrow> mzchar list option \<Rightarrow> nat \<Rightarrow> int \<Rightarrow> bool \<Rightarrow> mzchar \<Rightarrow> utf8_result option" where
  "scheme_utf8_decode_offset_prefix s start ende us dstart dende utf16 permissive =
     utf8_decode_x s start ende us dstart dende utf16 utf16 None True permissive"

text \<open>Here the returned value is the number of characters read, never an error code.\<close>

definition scheme_utf8_decode_as_prefix ::
    "byte list \<Rightarrow> nat \<Rightarrow> int \<Rightarrow> mzchar list option \<Rightarrow> nat \<Rightarrow> int \<Rightarrow> bool \<Rightarrow> mzchar \<Rightarrow> utf8_result option" where
  "scheme_utf8_decode_as_prefix s start ende us dstart dende utf16 permissive = do {
     r \<leftarrow> utf8_decode_x s start ende us dstart dende utf16 utf16 None True permissive;
     Some (r\<lparr>r_value := int (r_jpos r) - int dstart\<rparr>) }"

definition scheme_utf8_decode_all :: "byte list \<Rightarrow> int \<Rightarrow> mzchar list option \<Rightarrow> mzchar \<Rightarrow> utf8_result option" where
  "scheme_utf8_decode_all s len us permissive = utf8_decode_x s 0 len us 0 (-1) False False None False permissive"

text \<open>The loop over leading ASCII bytes: the position where it stops, and the buffer.\<close>

function copy_ascii :: "byte list \<Rightarrow> nat \<Rightarrow> nat \<Rightarrow> mzchar list \<Rightarrow> (nat \<times> mzchar list) option" where
  "copy_ascii s i len us =
     (if i < len then do {
        b \<leftarrow> rd s i;
        if b < 128 then do { us \<leftarrow> wr us i (ucast b); copy_ascii s (i + 1) len us }
        else Some (i, us)
      } else Some (i, us))"
  by pat_completeness auto
termination by (relation "measure (\<lambda>(s, i, len, us). len - i)") auto

declare copy_ascii.simps [simp del]

definition scheme_utf8_decode_prefix :: "byte list \<Rightarrow> nat \<Rightarrow> mzchar list \<Rightarrow> mzchar \<Rightarrow> (int \<times> mzchar list) option" where
  "scheme_utf8_decode_prefix s len us permissive = do {
     (i, us) \<leftarrow> copy_ascii s 0 len us;
     if i = len then Some (int len, us)
     else do {
       r \<leftarrow> utf8_decode_x s 0 (int len) (Some us) 0 (-1) False False None True permissive;
       us \<leftarrow> r_us r;
       Some (r_value r, us) } }"

text \<open>
  \<open>malloc\<close> gives the contents of a newly allocated buffer of a given length. The result is the
  \<open>NULL\<close> of ill-formed input, or the buffer and the number of characters.
\<close>

definition scheme_utf8_decode_to_buffer_len ::
    "(nat \<Rightarrow> mzchar list) \<Rightarrow> byte list \<Rightarrow> int \<Rightarrow> mzchar list \<Rightarrow> (unit + mzchar list \<times> nat) option" where
  "scheme_utf8_decode_to_buffer_len malloc s len buf = do {
     r \<leftarrow> utf8_decode_x s 0 len None 0 (-1) False False None False 0;
     if r_value r < 0 then Some (Inl ())
     else do {
       let ulen = nat (r_value r);
       let buf = (if length buf < ulen + 1 then malloc (ulen + 1) else buf);
       r \<leftarrow> utf8_decode_x s 0 len (Some buf) 0 (-1) False False None False 0;
       buf \<leftarrow> r_us r;
       buf \<leftarrow> wr buf ulen 0;
       Some (Inr (buf, ulen)) } }"

definition scheme_utf8_decode_to_buffer :: "(nat \<Rightarrow> mzchar list) \<Rightarrow> byte list \<Rightarrow> int \<Rightarrow> mzchar list \<Rightarrow> (unit + mzchar list) option" where
  "scheme_utf8_decode_to_buffer malloc s len buf = do {
     r \<leftarrow> scheme_utf8_decode_to_buffer_len malloc s len buf;
     Some (map_sum id fst r) }"

text \<open>Counting characters; the result has the new value of \<open>*_state\<close>.\<close>

fun ascii_from :: "byte list \<Rightarrow> nat \<Rightarrow> nat \<Rightarrow> bool option" where
  "ascii_from s i 0 = Some True"
| "ascii_from s i (Suc n) = do { b \<leftarrow> rd s i; if 127 < b then Some False else ascii_from s (i + 1) n }"

definition scheme_utf8_decode_count :: "byte list \<Rightarrow> nat \<Rightarrow> nat \<Rightarrow> mzchar option \<Rightarrow> bool \<Rightarrow> mzchar \<Rightarrow> (int \<times> mzchar option) option" where
  "scheme_utf8_decode_count s start e st might_continue permissive = do {
     fast \<leftarrow> (if st = None \<or> st = Some 0 then ascii_from s start (e - start) else Some False);
     if fast then Some (int e - int start, st)
     else do {
       r \<leftarrow> utf8_decode_x s start (int e) None 0 (-1) False False st might_continue permissive;
       Some (int (r_jpos r), r_state r) } }"

text \<open>
  \<open>bytes->string/utf-8\<close>: a character for ill-formed input is given as \<open>perm\<close>, and decoded as the
  surrogate \<open>D800\<close> first. The result \<open>Inl\<close> is the exception for ill-formed input.
\<close>

definition do_byte_string_to_char_string ::
    "(nat \<Rightarrow> mzchar list) \<Rightarrow> byte list \<Rightarrow> nat \<Rightarrow> nat \<Rightarrow> int \<Rightarrow> (unit + mzchar list) option" where
  "do_byte_string_to_char_string malloc chars istart ifinish perm = do {
     let p = (if -1 < perm then 0xD800 else 0);
     r \<leftarrow> utf8_decode_x chars istart (int ifinish) None 0 (-1) False False None False p;
     if r_value r < 0 then Some (Inl ())
     else do {
       let ulen = nat (r_value r);
       r \<leftarrow> utf8_decode_x chars istart (int ifinish) (Some (malloc (ulen + 1))) 0 (-1) False False None False p;
       v \<leftarrow> r_us r;
       let v = (if -1 < perm then map (\<lambda>c. if c = 0xD800 then word_of_int perm else c) (take ulen v) @ drop ulen v else v);
       v \<leftarrow> wr v ulen 0;
       Some (Inr (take ulen v)) } }"

text \<open>
  \<open>bytes-utf-8-ref\<close> after its arguments have been checked. \<open>perm\<close> is the character object for ill-formed
  input, \<open>None\<close> for the \<open>NULL\<close> that stands for its absence; the result is \<open>#f\<close>, that object, or a character.
\<close>

datatype ref_result = RefFalse | RefPerm "mzchar option" | RefChar mzchar

definition byte_string_utf8_ref :: "byte list \<Rightarrow> nat \<Rightarrow> mzchar option \<Rightarrow> nat \<Rightarrow> nat \<Rightarrow> ref_result option" where
  "byte_string_utf8_ref chars pos perm istart ifinish = do {
     r \<leftarrow> (if 0 < pos then do {
             r \<leftarrow> utf8_decode_x chars istart (int ifinish) None 0 (int pos) False False None False (if perm \<noteq> None then 1 else 0);
             Some (if r_jpos r < pos then None else Some (r_ipos r)) }
           else Some (Some istart));
     (case r of
        None \<Rightarrow> Some RefFalse
      | Some istart \<Rightarrow> do {
          r \<leftarrow> utf8_decode_x chars istart (int ifinish) (Some [0]) 0 1 False False None False (if perm \<noteq> None then 0xFFFF else 0);
          us \<leftarrow> r_us r;
          c \<leftarrow> rd us 0;
          Some (if r_jpos r < 1 then RefFalse else if c = 0xFFFF then RefPerm perm else RefChar c) }) }"

text \<open>\<open>bytes-utf-8-index\<close>; the result is \<open>#f\<close> or a byte position.\<close>

definition byte_string_utf8_index :: "byte list \<Rightarrow> nat \<Rightarrow> bool \<Rightarrow> nat \<Rightarrow> nat \<Rightarrow> nat option option" where
  "byte_string_utf8_index chars pos perm istart ifinish = do {
     r \<leftarrow> utf8_decode_x chars istart (int ifinish) None 0 (int pos) False False None False (if perm then 1 else 0);
     Some (if r_value r < 0 \<and> r_value r \<noteq> -3 \<or> r_ipos r = ifinish \<and> r_jpos r \<le> pos then None else Some (r_ipos r)) }"

definition byte_string_utf8_length :: "byte list \<Rightarrow> bool \<Rightarrow> nat \<Rightarrow> nat \<Rightarrow> int option option" where
  "byte_string_utf8_length chars perm istart ifinish = do {
     r \<leftarrow> scheme_utf8_decode chars istart (int ifinish) None 0 (-1) False (if perm then 1 else 0);
     Some (if r_value r < 0 then None else Some (r_value r)) }"

section \<open>Encoding\<close>

text \<open>
  The code point at position \<open>i\<close>, in UTF-16 input possibly two units, with the number of further units;
  \<open>Inl\<close> when the input ends inside of a surrogate pair and the caller asked for positions.
\<close>

definition get_code_point :: "mzchar list \<Rightarrow> nat \<Rightarrow> nat \<Rightarrow> bool \<Rightarrow> bool \<Rightarrow> (unit + nat \<times> mzchar) option" where
  "get_code_point us i e has_opos utf16 = do {
     wc \<leftarrow> rd us i;
     if utf16 \<and> wc AND 0xF800 = 0xD800 then
       if i + 1 = e \<and> has_opos then Some (Inl ())
       else do {
         lo \<leftarrow> rd us (i + 1);
         Some (Inr (1, push_bit 10 (wc AND 0x3FF) + (lo AND 0x3FF) + 0x10000)) }
     else Some (Inr (0, wc)) }"

definition utf8_size :: "mzchar \<Rightarrow> nat" where
  "utf8_size wc = (if wc < 0x80 then 1 else if wc < 0x800 then 2 else if wc < 0x10000 then 3
     else if wc < 0x200000 then 4 else if wc < 0x4000000 then 5 else 6)"

definition utf8_bytes :: "mzchar \<Rightarrow> byte list" where
  "utf8_bytes wc = map ucast
     (if wc < 0x80 then [wc]
      else if wc < 0x800 then [0xC0 OR drop_bit 6 (wc AND 0x7C0), 0x80 OR (wc AND 0x3F)]
      else if wc < 0x10000 then
        [0xE0 OR drop_bit 12 (wc AND 0xF000), 0x80 OR drop_bit 6 (wc AND 0x0FC0), 0x80 OR (wc AND 0x3F)]
      else if wc < 0x200000 then
        [0xF0 OR drop_bit 18 (wc AND 0x1C0000), 0x80 OR drop_bit 12 (wc AND 0x03F000), 0x80 OR drop_bit 6 (wc AND 0x000FC0),
         0x80 OR (wc AND 0x3F)]
      else if wc < 0x4000000 then
        [0xF8 OR drop_bit 24 (wc AND 0x3000000), 0x80 OR drop_bit 18 (wc AND 0x0FC0000), 0x80 OR drop_bit 12 (wc AND 0x003F000),
         0x80 OR drop_bit 6 (wc AND 0x0000FC0), 0x80 OR (wc AND 0x3F)]
      else
        [0xFC OR drop_bit 30 (wc AND 0x40000000), 0x80 OR drop_bit 24 (wc AND 0x3F000000), 0x80 OR drop_bit 18 (wc AND 0x00FC0000),
         0x80 OR drop_bit 12 (wc AND 0x0003F000), 0x80 OR drop_bit 6 (wc AND 0x00000FC0), 0x80 OR (wc AND 0x3F)])"

record encode_result =
  e_value :: int
  e_ipos :: nat
  e_opos :: nat
  e_s :: "byte list"

function encode_count :: "mzchar list \<Rightarrow> nat \<Rightarrow> nat \<Rightarrow> nat \<Rightarrow> nat \<Rightarrow> bool \<Rightarrow> bool \<Rightarrow> encode_result option" where
  "encode_count us i e j dstart has_opos utf16 =
     (if i < e then do {
        r \<leftarrow> get_code_point us i e has_opos utf16;
        (case r of
           Inl () \<Rightarrow> Some \<lparr>e_value = -1, e_ipos = i, e_opos = j, e_s = []\<rparr>
         | Inr (n, wc) \<Rightarrow> encode_count us (i + n + 1) e (j + utf8_size wc) dstart has_opos utf16)
      } else Some \<lparr>e_value = int j, e_ipos = i, e_opos = j + dstart, e_s = []\<rparr>)"
  by pat_completeness auto
termination by (relation "measure (\<lambda>(us, i, e, j, dstart, has_opos, utf16). e - i)") auto

function encode_loop :: "mzchar list \<Rightarrow> nat \<Rightarrow> nat \<Rightarrow> byte list \<Rightarrow> nat \<Rightarrow> nat \<Rightarrow> nat \<Rightarrow> nat \<Rightarrow> bool \<Rightarrow> bool \<Rightarrow> encode_result option" where
  "encode_loop us i e s j dstart dend done has_opos utf16 =
     (if i < e then do {
        r \<leftarrow> get_code_point us i e has_opos utf16;
        (case r of
           Inl () \<Rightarrow> Some \<lparr>e_value = -1, e_ipos = i, e_opos = j, e_s = s\<rparr>
         | Inr (n, wc) \<Rightarrow>
             if dend < j + utf8_size wc then Some \<lparr>e_value = int j - int dstart, e_ipos = done, e_opos = j, e_s = s\<rparr>
             else do {
               s \<leftarrow> blit s j (utf8_bytes wc) 0 (utf8_size wc);
               encode_loop us (i + n + 1) e s (j + utf8_size wc) dstart dend (i + n) has_opos utf16 })
      } else Some \<lparr>e_value = int j - int dstart, e_ipos = done, e_opos = j, e_s = s\<rparr>)"
  by pat_completeness auto
termination by (relation "measure (\<lambda>(us, i, e, s, j, dstart, dend, done, has_opos, utf16). e - i)") auto

declare encode_count.simps [simp del] encode_loop.simps [simp del]

text \<open>\<open>s\<close> is \<open>None\<close> for \<open>NULL\<close>; \<open>has_opos\<close> tells whether \<open>_opos\<close> is given.\<close>

definition utf8_encode_x :: "mzchar list \<Rightarrow> nat \<Rightarrow> nat \<Rightarrow> byte list option \<Rightarrow> nat \<Rightarrow> int \<Rightarrow> bool \<Rightarrow> bool \<Rightarrow> encode_result option" where
  "utf8_encode_x us start e s dstart dende has_opos utf16 =
     (let dend = (if dende < 0 then 0x7FFFFFFF else nat dende) in
      case s of
        None \<Rightarrow> encode_count us start e 0 dstart has_opos utf16
      | Some s \<Rightarrow> encode_loop us start e s dstart dstart dend start has_opos utf16)"

definition scheme_utf8_encode :: "mzchar list \<Rightarrow> nat \<Rightarrow> nat \<Rightarrow> byte list option \<Rightarrow> nat \<Rightarrow> bool \<Rightarrow> encode_result option" where
  "scheme_utf8_encode us start e s dstart utf16 = utf8_encode_x us start e s dstart (-1) False utf16"

definition scheme_utf8_encode_all :: "mzchar list \<Rightarrow> nat \<Rightarrow> byte list option \<Rightarrow> encode_result option" where
  "scheme_utf8_encode_all us len s = utf8_encode_x us 0 len s 0 (-1) False False"

function ascii_prefix :: "mzchar list \<Rightarrow> nat \<Rightarrow> nat \<Rightarrow> byte list \<Rightarrow> (nat \<times> byte list) option" where
  "ascii_prefix s slen len buf =
     (if slen < len then do {
        c \<leftarrow> rd s slen;
        if 127 < c then Some (slen, buf)
        else do { buf \<leftarrow> wr buf slen (ucast c); ascii_prefix s (slen + 1) len buf }
      } else Some (slen, buf))"
  by pat_completeness auto
termination by (relation "measure (\<lambda>(s, slen, len, buf). len - slen)") auto

declare ascii_prefix.simps [simp del]

definition scheme_utf8_encode_to_buffer_len ::
    "(nat \<Rightarrow> byte list) \<Rightarrow> mzchar list \<Rightarrow> nat \<Rightarrow> byte list \<Rightarrow> (byte list \<times> nat) option" where
  "scheme_utf8_encode_to_buffer_len malloc s len buf = do {
     (slen, buf) \<leftarrow> (if len < length buf then ascii_prefix s 0 len buf else Some (len + 1, buf));
     if slen = len then do { buf \<leftarrow> wr buf slen 0; Some (buf, slen) }
     else do {
       r \<leftarrow> utf8_encode_x s 0 len None 0 (-1) False False;
       let slen = nat (e_value r);
       let buf = (if length buf < slen + 1 then malloc (slen + 1) else buf);
       r \<leftarrow> utf8_encode_x s 0 len (Some buf) 0 (-1) False False;
       buf \<leftarrow> wr (e_s r) slen 0;
       Some (buf, slen) } }"

definition scheme_utf8_encode_to_buffer :: "(nat \<Rightarrow> byte list) \<Rightarrow> mzchar list \<Rightarrow> nat \<Rightarrow> byte list \<Rightarrow> byte list option" where
  "scheme_utf8_encode_to_buffer malloc s len buf = map_option fst (scheme_utf8_encode_to_buffer_len malloc s len buf)"

definition char_string_utf8_length :: "mzchar list \<Rightarrow> nat \<Rightarrow> nat \<Rightarrow> int option" where
  "char_string_utf8_length chars istart ifinish =
     map_option e_value (scheme_utf8_encode chars istart ifinish None 0 False)"

section \<open>UTF-16\<close>

fun count_extra :: "mzchar list \<Rightarrow> nat \<Rightarrow> nat \<Rightarrow> nat option" where
  "count_extra text i 0 = Some 0"
| "count_extra text i (Suc n) = do {
     c \<leftarrow> rd text i;
     extra \<leftarrow> count_extra text (i + 1) n;
     Some (if 0xFFFF < c then extra + 1 else extra) }"

fun utf16_write :: "mzchar list \<Rightarrow> nat \<Rightarrow> nat \<Rightarrow> 16 word list \<Rightarrow> nat \<Rightarrow> (16 word list \<times> nat) option" where
  "utf16_write text i 0 buf j = Some (buf, j)"
| "utf16_write text i (Suc n) buf j = do {
     v \<leftarrow> rd text i;
     if 0xFFFF < v then do {
       let w = v - 0x10000;
       buf \<leftarrow> wr buf j (ucast (0xD800 OR (drop_bit 10 w AND 0x3FF)));
       buf \<leftarrow> wr buf (j + 1) (ucast (0xDC00 OR (w AND 0x3FF)));
       utf16_write text (i + 1) n buf (j + 2)
     } else do {
       buf \<leftarrow> wr buf j (ucast v);
       utf16_write text (i + 1) n buf (j + 1) } }"

definition scheme_ucs4_to_utf16 ::
    "(nat \<Rightarrow> 16 word list) \<Rightarrow> mzchar list \<Rightarrow> nat \<Rightarrow> nat \<Rightarrow> 16 word list \<Rightarrow> nat \<Rightarrow> (16 word list \<times> nat) option" where
  "scheme_ucs4_to_utf16 malloc text start e buf term_size = do {
     extra \<leftarrow> count_extra text start (e - start);
     let utf16 = (if (e - start) + extra + term_size < length buf then buf else malloc ((e - start) + extra + term_size));
     utf16_write text start (e - start) utf16 0 }"

function utf16_count :: "16 word list \<Rightarrow> nat \<Rightarrow> nat \<Rightarrow> nat option" where
  "utf16_count text i e =
     (if i < e then do {
        wc \<leftarrow> rd text i;
        j \<leftarrow> utf16_count text (if wc AND 0xF800 = 0xD800 then i + 2 else i + 1) e;
        Some (j + 1)
      } else Some 0)"
  by pat_completeness auto
termination by (relation "measure (\<lambda>(text, i, e). e - i)") auto

function utf16_read :: "16 word list \<Rightarrow> nat \<Rightarrow> nat \<Rightarrow> mzchar list \<Rightarrow> nat \<Rightarrow> (mzchar list \<times> nat) option" where
  "utf16_read text i e buf j =
     (if i < e then do {
        wc \<leftarrow> rd text i;
        if wc AND 0xF800 = 0xD800 then do {
          lo \<leftarrow> rd text (i + 1);
          buf \<leftarrow> wr buf j (push_bit 10 (ucast wc AND 0x3FF) + (ucast lo AND 0x3FF) + 0x10000);
          utf16_read text (i + 2) e buf (j + 1)
        } else do {
          buf \<leftarrow> wr buf j (ucast wc);
          utf16_read text (i + 1) e buf (j + 1) }
      } else Some (buf, j))"
  by pat_completeness auto
termination by (relation "measure (\<lambda>(text, i, e, buf, j). e - i)") auto

declare utf16_count.simps [simp del] utf16_read.simps [simp del]

definition scheme_utf16_to_ucs4 ::
    "(nat \<Rightarrow> mzchar list) \<Rightarrow> 16 word list \<Rightarrow> nat \<Rightarrow> nat \<Rightarrow> mzchar list \<Rightarrow> nat \<Rightarrow> (mzchar list \<times> nat) option" where
  "scheme_utf16_to_ucs4 malloc text start e buf term_size = do {
     j \<leftarrow> utf16_count text start e;
     let buf = (if length buf \<le> j + term_size then malloc (j + term_size) else buf);
     utf16_read text start e buf 0 }"

end
