(* ===== verification/Utf8Props.thy ===== *)
theory Utf8Props
  imports Utf8
begin

text \<open>
  Correctness of the UTF-8 converters: a byte-level view of the decoder over natural numbers, the
  decoding of one character, and the invariant of the decoding loop.
\<close>

section \<open>Bytes as numbers\<close>

text \<open>Facts about single bytes, by evaluation at all 256 of them.\<close>

lemma all_less_256: "list_all P [0..<256] \<Longrightarrow> n < 256 \<Longrightarrow> P (n :: nat)"
  by (simp add: list_all_iff)

lemma upt_256: "[0..<256] = 0 # Suc 0 # [2..<256]"
  by (simp add: upt_conv_Cons numeral_2_eq_2)

lemma byte_test_C0: "n < 256 \<Longrightarrow> (word_of_nat n :: mzchar) AND 0xC0 = 0x80 \<longleftrightarrow> 128 \<le> n \<and> n < 192"
  by (erule all_less_256 [rotated]) (simp add: upt_256 upt_rec_numeral)

lemma byte_test_E0: "n < 256 \<Longrightarrow> (word_of_nat n :: mzchar) AND 0xE0 = 0xC0 \<longleftrightarrow> 192 \<le> n \<and> n < 224"
  by (erule all_less_256 [rotated]) (simp add: upt_256 upt_rec_numeral)

lemma byte_test_F0: "n < 256 \<Longrightarrow> (word_of_nat n :: mzchar) AND 0xF0 = 0xE0 \<longleftrightarrow> 224 \<le> n \<and> n < 240"
  by (erule all_less_256 [rotated]) (simp add: upt_256 upt_rec_numeral)

lemma byte_test_F8: "n < 256 \<Longrightarrow> (word_of_nat n :: mzchar) AND 0xF8 = 0xF0 \<longleftrightarrow> 240 \<le> n \<and> n < 248"
  by (erule all_less_256 [rotated]) (simp add: upt_256 upt_rec_numeral)

lemma byte_test_1E: "n < 256 \<Longrightarrow> (word_of_nat n :: mzchar) AND 0x1E = 0 \<longleftrightarrow> n mod 32 < 2"
  by (erule all_less_256 [rotated]) (simp add: upt_256 upt_rec_numeral)

lemma byte_test_20: "n < 256 \<Longrightarrow> (word_of_nat n :: mzchar) AND 0x20 = 0 \<longleftrightarrow> n mod 64 < 32"
  by (erule all_less_256 [rotated]) (simp add: upt_256 upt_rec_numeral)

lemma byte_test_30: "n < 256 \<Longrightarrow> (word_of_nat n :: mzchar) AND 0x30 = 0 \<longleftrightarrow> n mod 64 < 16"
  by (erule all_less_256 [rotated]) (simp add: upt_256 upt_rec_numeral)

lemmas byte_tests = byte_test_C0 byte_test_E0 byte_test_F0 byte_test_F8 byte_test_1E byte_test_20 byte_test_30

lemma all_less_64: "list_all P [0..<64] \<Longrightarrow> n < 64 \<Longrightarrow> P (n :: nat)"
  by (simp add: list_all_iff)

lemma mod_offset: "c * k \<le> n \<Longrightarrow> n < c * k + c \<Longrightarrow> n mod c = (n - c * k :: nat)"
  by (metis add.commute less_diff_conv2 le_add_diff_inverse mod_less mod_mult_self2)

lemma upt_0_64: "[0..<64] = 0 # Suc 0 # [2..<64]"
  by (simp add: upt_conv_Cons numeral_2_eq_2)

lemma byte_marks:
  shows "n < 64 \<Longrightarrow> (0x80 :: mzchar) OR word_of_nat n = word_of_nat (128 + n)"
    "n < 32 \<Longrightarrow> (0xC0 :: mzchar) OR word_of_nat n = word_of_nat (192 + n)"
    "n < 16 \<Longrightarrow> (0xE0 :: mzchar) OR word_of_nat n = word_of_nat (224 + n)"
    "n < 8 \<Longrightarrow> (0xF0 :: mzchar) OR word_of_nat n = word_of_nat (240 + n)"
proof -
  have "list_all (\<lambda>n. (0x80 :: mzchar) OR word_of_nat n = word_of_nat (128 + n)
    \<and> (n < 32 \<longrightarrow> (0xC0 :: mzchar) OR word_of_nat n = word_of_nat (192 + n))
    \<and> (n < 16 \<longrightarrow> (0xE0 :: mzchar) OR word_of_nat n = word_of_nat (224 + n))
    \<and> (n < 8 \<longrightarrow> (0xF0 :: mzchar) OR word_of_nat n = word_of_nat (240 + n))) [0..<64]"
    by (simp add: upt_0_64 upt_rec_numeral)
  from all_less_64 [OF this] show "n < 64 \<Longrightarrow> (0x80 :: mzchar) OR word_of_nat n = word_of_nat (128 + n)"
    "n < 32 \<Longrightarrow> (0xC0 :: mzchar) OR word_of_nat n = word_of_nat (192 + n)"
    "n < 16 \<Longrightarrow> (0xE0 :: mzchar) OR word_of_nat n = word_of_nat (224 + n)"
    "n < 8 \<Longrightarrow> (0xF0 :: mzchar) OR word_of_nat n = word_of_nat (240 + n)"
    by simp_all
qed

text \<open>Comparison and fields of words given by numbers.\<close>

lemma unat_nat: "n < 2 ^ 32 \<Longrightarrow> unat (word_of_nat n :: mzchar) = n"
  by (simp add: unsigned_of_nat take_bit_nat_eq_self)

lemma word_less_nat: "n < 2 ^ 32 \<Longrightarrow> (word_of_nat n :: mzchar) < word_of_nat m \<longleftrightarrow> n < m" if "m < 2 ^ 32"
  using that by (simp add: word_less_nat_alt unat_nat)

lemma word_le_nat: "n < 2 ^ 32 \<Longrightarrow> (word_of_nat n :: mzchar) \<le> word_of_nat m \<longleftrightarrow> n \<le> m" if "m < 2 ^ 32"
  using that by (simp add: word_le_nat_alt unat_nat)

lemma word_eq_nat: "n < 2 ^ 32 \<Longrightarrow> m < 2 ^ 32 \<Longrightarrow> (word_of_nat n :: mzchar) = word_of_nat m \<longleftrightarrow> n = m"
  by (metis unat_nat)

lemma field_nat:
  assumes "n < 2 ^ 32"
  shows "drop_bit k (word_of_nat n :: mzchar) = word_of_nat (n div 2 ^ k)" "take_bit k (word_of_nat n :: mzchar) = word_of_nat (n mod 2 ^ k)"
proof -
  have "unat (drop_bit k (word_of_nat n :: mzchar)) = n div 2 ^ k"
    using assms by (simp add: unsigned_drop_bit_eq unat_nat drop_bit_nat_def take_bit_nat_eq_self)
  then show "drop_bit k (word_of_nat n :: mzchar) = word_of_nat (n div 2 ^ k)"
    using unat_nat [OF le_less_trans [OF div_le_dividend assms], of "2 ^ k"] by (simp add: word_unat_eq_iff)
  have "unat (take_bit k (word_of_nat n :: mzchar)) = n mod 2 ^ k"
    using assms by (simp add: unsigned_take_bit_eq unat_nat take_bit_nat_def)
  then show "take_bit k (word_of_nat n :: mzchar) = word_of_nat (n mod 2 ^ k)"
    using unat_nat [OF le_less_trans [OF mod_less_eq_dividend assms], of "2 ^ k"] by (simp add: word_unat_eq_iff)
qed

lemma ucast_byte: "n < 256 \<Longrightarrow> (ucast (word_of_nat n :: byte) :: mzchar) = word_of_nat n"
  by (rule word_unat_eq_iff [THEN iffD2]) (simp add: unsigned_ucast_eq take_bit_nat_eq_self unsigned_of_nat)

lemma ucast_char: "n < 256 \<Longrightarrow> (ucast (word_of_nat n :: mzchar) :: byte) = word_of_nat n"
  by (rule word_unat_eq_iff [THEN iffD2]) (simp add: unsigned_ucast_eq take_bit_nat_eq_self unsigned_of_nat)

lemma mark_bytes:
  "n < 64 \<Longrightarrow> (ucast ((0x80 :: mzchar) OR word_of_nat n) :: byte) = word_of_nat (128 + n)"
  "n < 32 \<Longrightarrow> (ucast ((0xC0 :: mzchar) OR word_of_nat n) :: byte) = word_of_nat (192 + n)"
  "n < 16 \<Longrightarrow> (ucast ((0xE0 :: mzchar) OR word_of_nat n) :: byte) = word_of_nat (224 + n)"
  "n < 8 \<Longrightarrow> (ucast ((0xF0 :: mzchar) OR word_of_nat n) :: byte) = word_of_nat (240 + n)"
  by (simp_all add: byte_marks ucast_char del: of_nat_add of_nat_numeral)

text \<open>The fields of a character that the encoder takes.\<close>

lemma and_field: "(x :: mzchar) AND 0x3F = take_bit 6 x" "x AND 0x1F = take_bit 5 x" "x AND 0xF = take_bit 4 x" "x AND 7 = take_bit 3 x"
  by (simp_all add: take_bit_eq_mask mask_eq_exp_minus_1)

lemmas encode_fields = drop_bit_and and_field

lemma char_nat: "(c :: mzchar) = word_of_nat (unat c)"
  by simp

text \<open>The bytes of a character.\<close>

definition scalar :: "mzchar \<Rightarrow> bool" where
  "scalar c \<longleftrightarrow> c < 0xD800 \<or> 0xDFFF < c \<and> c \<le> 0x10FFFF"

fun nat_bytes :: "nat \<Rightarrow> nat list" where
  "nat_bytes n =
     (if n < 0x80 then [n]
      else if n < 0x800 then [192 + n div 64, 128 + n mod 64]
      else if n < 0x10000 then [224 + n div 4096, 128 + n div 64 mod 64, 128 + n mod 64]
      else [240 + n div 262144, 128 + n div 4096 mod 64, 128 + n div 64 mod 64, 128 + n mod 64])"

declare nat_bytes.simps [simp del]

lemma utf8_bytes_nat:
  assumes "unat c < 0x200000"
  shows "utf8_bytes c = map word_of_nat (nat_bytes (unat c))" "utf8_size c = length (nat_bytes (unat c))"
proof -
  define n where "n = unat c"
  have n: "n < 0x200000" "n < 2 ^ 32" and c: "c = word_of_nat n" using assms by (simp_all add: n_def)
  have cmp: "c < 0x80 \<longleftrightarrow> n < 0x80" "c < 0x800 \<longleftrightarrow> n < 0x800" "c < 0x10000 \<longleftrightarrow> n < 0x10000" "c < 0x200000"
    using n by (simp_all add: word_less_nat_alt n_def)
  have f: "drop_bit k c = word_of_nat (n div 2 ^ k)" "take_bit k (word_of_nat (n div m) :: mzchar) = word_of_nat (n div m mod 2 ^ k)"
    "take_bit k c = word_of_nat (n mod 2 ^ k)" for k m
    using field_nat [OF n(2)] field_nat(2) [of "n div m"] le_less_trans [OF div_le_dividend n(2), of m] c by simp_all
  have ascii: "(ucast c :: byte) = word_of_nat n" if "n < 128" using that ucast_char [of n] c by simp
  have lim: "n div 64 < 32" if "n < 0x800" using that by simp
  have lim2: "n div 4096 < 16" if "n < 0x10000" using that by simp
  have lim3: "n div 262144 < 8" using n by simp
  show "utf8_bytes c = map word_of_nat (nat_bytes n)"
    using lim lim2 lim3 cmp
    by (simp add: utf8_bytes_def nat_bytes.simps encode_fields f mark_bytes ascii)
  show "utf8_size c = length (nat_bytes n)" using cmp by (simp add: utf8_size_def nat_bytes.simps)
qed

section \<open>One byte of input\<close>

lemmas nat_bounds = word_less_nat word_le_nat

lemma utf8_byte_nat:
  assumes "n < 256"
  shows "utf8_byte (word_of_nat n) p x =
    (if n < 128 then
       if u_state x \<noteq> 0 then bad_in_sequence p (x\<lparr>u_state := 0, u_nextbits := 0\<rparr>) else Output (x\<lparr>u_v := word_of_nat n\<rparr>)
     else if n < 192 then
       if u_state x \<noteq> 0 then continue_sequence (word_of_nat n) p x else bad_start p x
     else if u_state x \<noteq> 0 then bad_in_sequence p (x\<lparr>u_state := 0\<rparr>)
     else if n < 194 then bad_start p x
     else if n < 224 then Continue (x\<lparr>u_state := 1, u_v := word_of_nat (n - 192), u_i := u_i x + 1\<rparr>)
     else if n < 240 then Continue (x\<lparr>u_state := 2, u_v := word_of_nat (n - 224),
            u_nextbits := (if n = 224 then 0x20 else u_nextbits x), u_i := u_i x + 1\<rparr>)
     else if n < 245 then Continue (x\<lparr>u_state := 3, u_v := word_of_nat (n - 240),
            u_nextbits := (if n = 240 then 0x30 else u_nextbits x), u_i := u_i x + 1\<rparr>)
     else bad_start p (if n < 248 then x\<lparr>u_v := word_of_nat (n - 240)\<rparr> else x))"
proof -
  have lt: "(word_of_nat n :: mzchar) < 0x80 \<longleftrightarrow> n < 128" using assms word_less_nat [of 128 n] by simp
  have f: "(word_of_nat n :: mzchar) AND 0x1F = word_of_nat (n mod 32)" "(word_of_nat n :: mzchar) AND 0xF = word_of_nat (n mod 16)"
    "(word_of_nat n :: mzchar) AND 7 = word_of_nat (n mod 8)"
    using assms field_nat(2) [of n] by (simp_all add: and_field)
  have z: "(word_of_nat m :: mzchar) = 0 \<longleftrightarrow> m = 0" "(word_of_nat m :: mzchar) \<le> 4 \<longleftrightarrow> m \<le> 4" if "m < 256" for m
    using that word_eq_nat [of m 0] word_le_nat [of 4 m] by simp_all
  consider "n < 128" | "128 \<le> n" "n < 192" | "192 \<le> n" "n < 194" | "194 \<le> n" "n < 224" | "224 \<le> n" "n < 240"
    | "240 \<le> n" "n < 248" | "248 \<le> n" by linarith
  then show ?thesis
  proof cases
    case 3
    then have "n = 192 \<or> n = 193" by linarith
    then have "n mod 32 < 2" by auto
    then show ?thesis using 3 assms by (simp add: utf8_byte_def start_sequence_def byte_tests lt)
  next
    case 4
    then have "n mod 32 = n - 192" "\<not> n mod 32 < 2" using mod_offset [of 32 6 n] by simp_all
    then show ?thesis using 4 assms by (simp add: utf8_byte_def start_sequence_def byte_tests lt f)
  next
    case 5
    then have "n mod 16 = n - 224" using mod_offset [of 16 14 n] by simp
    then show ?thesis using 5 assms z(1) [of "n - 224"] by (simp add: utf8_byte_def start_sequence_def byte_tests lt f Let_def)
  next
    case 6
    then have "n mod 8 = n - 240" using mod_offset [of 8 30 n] by simp
    then show ?thesis using 6 assms z [of "n - 240"]
      by (auto simp add: utf8_byte_def start_sequence_def byte_tests lt f Let_def)
  qed (use assms in \<open>simp_all add: utf8_byte_def start_sequence_def byte_tests lt\<close>)
qed

lemma byte_nat: "ucast (b :: byte) = (word_of_nat (unat b) :: mzchar)" "unat b < 256"
proof -
  show "unat b < 256" using unsigned_less [of b] by simp
  then show "ucast b = (word_of_nat (unat b) :: mzchar)" using ucast_byte [of "unat b"] by simp
qed

text \<open>The bits that a continuation byte must have, as a lower bound of its value.\<close>

fun need_bits :: "nat \<Rightarrow> mzchar" where
  "need_bits n = (if n = 0 then 0 else if n = 32 then 0x20 else 0x30)"

lemma continue_nat:
  assumes "128 \<le> n" "n < 192" "need \<in> {0, 16, 32}" "u_nextbits x = need_bits need" "u_v x = word_of_nat v" "v < 2 ^ 15" "u_state x = Suc st"
  shows "continue_sequence (word_of_nat n) p x =
    (if need \<le> n - 128 then
       let v' = 64 * v + (n - 128);
           y = x\<lparr>u_v := word_of_nat v', u_nextbits := 0, u_state := st\<rparr>
       in if st \<noteq> 0 then Continue (y\<lparr>u_i := u_i x + 1\<rparr>)
          else if 0xD800 \<le> v' \<and> v' \<le> 0xDFFF \<or> 0x10FFFF < v' then bad_in_sequence p y
          else Output y
     else bad_in_sequence p (x\<lparr>u_state := 0, u_nextbits := 0\<rparr>))"
proof -
  have m: "n mod 64 = n - 128" using mod_offset [of 64 2 n] assms(1,2) by simp
  have test: "(u_nextbits x = 0 \<or> word_of_nat n AND u_nextbits x \<noteq> 0) \<longleftrightarrow> need \<le> n - 128"
    using assms(1-4) byte_tests(6,7) [of n] m by auto
  have v: "push_bit 6 (u_v x) + (word_of_nat n AND 0x3F) = (word_of_nat (64 * v + (n - 128)) :: mzchar)"
    using assms(2,5) field_nat(2) [of n 6] m by (simp add: and_field push_bit_eq_mult)
  have "64 * v + (n - 128) < 2 ^ 32" using assms(2,6) by simp
  then have cmp: "(0xD800 \<le> (word_of_nat (64 * v + (n - 128)) :: mzchar)) \<longleftrightarrow> 0xD800 \<le> 64 * v + (n - 128)"
    "((word_of_nat (64 * v + (n - 128)) :: mzchar) \<le> 0xDFFF) \<longleftrightarrow> 64 * v + (n - 128) \<le> 0xDFFF"
    "(0x10FFFF < (word_of_nat (64 * v + (n - 128)) :: mzchar)) \<longleftrightarrow> 0x10FFFF < 64 * v + (n - 128)"
    by (simp_all only: word_le_nat_alt word_less_nat_alt unat_nat) simp_all
  show ?thesis unfolding continue_sequence_def test using assms(7) by (simp only: v Let_def) (simp add: cmp del: of_nat_add of_nat_mult)
qed

section \<open>Unfinished sequences\<close>

text \<open>
  The bytes of a sequence read so far, the number of bytes to come, the bits collected, and the
  least value of the next continuation byte.
\<close>

inductive pending :: "nat list \<Rightarrow> nat \<Rightarrow> nat \<Rightarrow> nat \<Rightarrow> bool" where
  two: "194 \<le> a \<Longrightarrow> a < 224 \<Longrightarrow> pending [a] 1 (a - 192) 0"
| three: "224 \<le> a \<Longrightarrow> a < 240 \<Longrightarrow> pending [a] 2 (a - 224) (if a = 224 then 32 else 0)"
| four: "240 \<le> a \<Longrightarrow> a < 245 \<Longrightarrow> pending [a] 3 (a - 240) (if a = 240 then 16 else 0)"
| more: "pending bs (Suc st) v need \<Longrightarrow> 0 < st \<Longrightarrow> 128 \<le> b \<Longrightarrow> b < 192 \<Longrightarrow> need \<le> b - 128 \<Longrightarrow>
    pending (bs @ [b]) st (64 * v + (b - 128)) 0"

lemma pending_shape:
  "pending bs st v need \<Longrightarrow>
     (\<exists>a. bs = [a] \<and> (194 \<le> a \<and> a < 224 \<and> st = 1 \<and> v = a - 192 \<and> need = 0
        \<or> 224 \<le> a \<and> a < 240 \<and> st = 2 \<and> v = a - 224 \<and> need = (if a = 224 then 32 else 0)
        \<or> 240 \<le> a \<and> a < 245 \<and> st = 3 \<and> v = a - 240 \<and> need = (if a = 240 then 16 else 0)))
     \<or> (\<exists>a b. bs = [a, b] \<and> 128 \<le> b \<and> b < 192 \<and> need = 0
        \<and> (224 \<le> a \<and> a < 240 \<and> st = 1 \<and> v = 64 * (a - 224) + (b - 128) \<and> 32 \<le> v
          \<or> 240 \<le> a \<and> a < 245 \<and> st = 2 \<and> v = 64 * (a - 240) + (b - 128) \<and> 16 \<le> v))
     \<or> (\<exists>a b c. bs = [a, b, c] \<and> 128 \<le> b \<and> b < 192 \<and> 128 \<le> c \<and> c < 192 \<and> need = 0 \<and> st = 1
        \<and> 240 \<le> a \<and> a < 245 \<and> v = 64 * (64 * (a - 240) + (b - 128)) + (c - 128) \<and> 1024 \<le> v)"
proof (induction rule: pending.induct)
  case (more bs st v need b)
  from more.IH show ?case
  proof (elim disjE)
    assume "\<exists>a. bs = [a] \<and> (194 \<le> a \<and> a < 224 \<and> Suc st = 1 \<and> v = a - 192 \<and> need = 0
        \<or> 224 \<le> a \<and> a < 240 \<and> Suc st = 2 \<and> v = a - 224 \<and> need = (if a = 224 then 32 else 0)
        \<or> 240 \<le> a \<and> a < 245 \<and> Suc st = 3 \<and> v = a - 240 \<and> need = (if a = 240 then 16 else 0))"
    then show ?thesis using more.hyps(2-) by (auto split: if_splits)
  qed (use more.hyps(2-) in auto)
qed auto

lemma pending_facts:
  assumes "pending bs st v need"
  shows "0 < st" "st \<le> 3" "need \<in> {0, 16, 32}" "v < 2 ^ 15" "bs \<noteq> []" "length bs \<le> 3"
  using pending_shape [OF assms] by (auto split: if_splits)

text \<open>The last byte completes exactly the encoding of the character collected.\<close>

lemma pending_last:
  assumes "pending bs 1 v need" "128 \<le> b" "b < 192" "need \<le> b - 128"
  shows "nat_bytes (64 * v + (b - 128)) = bs @ [b]"
proof -
  define r where "r = b - 128"
  define n where "n = 64 * v + r"
  have r: "r < 64" "b = 128 + r" using assms(2,3) by (auto simp: r_def)
  have d: "n mod 64 = r" "n div 64 = v" using r(1) by (simp_all add: n_def)
  have d2: "n div 4096 = v div 64" "n div 262144 = v div 4096"
    using d(2) div_mult2_eq [of n 64 64] div_mult2_eq [of n 64 4096] by simp_all
  from pending_shape [OF assms(1)]
  consider (two) a where "bs = [a]" "194 \<le> a" "a < 224" "v = a - 192"
    | (three) a b' where "bs = [a, b']" "128 \<le> b'" "b' < 192" "224 \<le> a" "a < 240" "v = 64 * (a - 224) + (b' - 128)" "32 \<le> v"
    | (four) a b' c where "bs = [a, b', c]" "128 \<le> b'" "b' < 192" "128 \<le> c" "c < 192" "240 \<le> a" "a < 245"
        "v = 64 * (64 * (a - 240) + (b' - 128)) + (c - 128)" "1024 \<le> v"
    by (elim disjE exE conjE) (simp only: one_eq_numeral_iff numeral_One [symmetric] numeral_eq_iff num.distinct, blast?)+
  then have "nat_bytes n = bs @ [128 + r]"
  proof cases
    case two
    then have "2 \<le> v" "v < 32" "a = 192 + v" by auto
    then have "128 \<le> n" "n < 2048" using r(1) by (auto simp: n_def)
    then show ?thesis using two(1) \<open>a = 192 + v\<close> d by (simp add: nat_bytes.simps)
  next
    case three
    define q where "q = b' - 128"
    have q: "q < 64" "b' = 128 + q" using three by (auto simp: q_def)
    have v: "v = 64 * (a - 224) + q" using three by (simp add: q_def)
    then have "v div 64 = a - 224" "v mod 64 = q" using q(1) by simp_all
    moreover have "2048 \<le> n" "n < 65536" using three(4,5,7) v q(1) r(1) by (auto simp: n_def)
    ultimately show ?thesis using three(1,4) q(2) d d2 by (simp add: nat_bytes.simps)
  next
    case four
    define q where "q = b' - 128"
    define t where "t = c - 128"
    define w where "w = 64 * (a - 240) + q"
    have q: "q < 64" "b' = 128 + q" "t < 64" "c = 128 + t" using four by (auto simp: q_def t_def)
    have v: "v = 64 * w + t" using four by (simp add: w_def q_def t_def)
    have w: "w div 64 = a - 240" "w mod 64 = q" using q(1) by (simp_all add: w_def)
    have vd: "v div 64 = w" "v mod 64 = t" using q(3) by (simp_all add: v)
    then have "v div 4096 = a - 240" using w(1) div_mult2_eq [of v 64 64] by simp
    moreover have "65536 \<le> n" using four(9) by (simp add: n_def)
    ultimately show ?thesis using four(1,6) q(2,4) d d2 vd w by (simp add: nat_bytes.simps)
  qed
  then show ?thesis using r(2) by (simp add: n_def)
qed

section \<open>Decoding one character\<close>

fun feed :: "mzchar \<Rightarrow> byte list \<Rightarrow> utf8_vars \<Rightarrow> utf8_next" where
  "feed p [] x = Continue x"
| "feed p (b # bs) x = (case utf8_byte (ucast b) p x of Continue y \<Rightarrow> feed p bs y | r \<Rightarrow> r)"

lemma feed_nat: "n < 256 \<Longrightarrow> feed p (word_of_nat n # bs) x = (case utf8_byte (word_of_nat n) p x of Continue y \<Rightarrow> feed p bs y | r \<Rightarrow> r)"
  by (simp add: ucast_byte)

lemma feed_append: "feed p (bs @ cs) x = (case feed p bs x of Continue y \<Rightarrow> feed p cs y | r \<Rightarrow> r)"
  by (induction bs arbitrary: x) (auto split: utf8_next.split)

text \<open>Bytes of an unfinished sequence are read from a fresh state, up to the last byte.\<close>

definition in_sequence :: "utf8_vars \<Rightarrow> nat \<Rightarrow> nat \<Rightarrow> nat \<Rightarrow> nat \<Rightarrow> utf8_vars" where
  "in_sequence x len st v need =
     x\<lparr>u_state := st, u_v := word_of_nat v, u_nextbits := need_bits need, u_i := u_i x + len\<rparr>"

lemma in_sequence_simps [simp]:
  "u_state (in_sequence x len st v need) = st" "u_nextbits (in_sequence x len st v need) = need_bits need"
  "u_v (in_sequence x len st v need) = word_of_nat v" "u_i (in_sequence x len st v need) = u_i x + len"
  "u_j (in_sequence x len st v need) = u_j x" "u_oki (in_sequence x len st v need) = u_oki x"
  "u_us (in_sequence x len st v need) = u_us x" "u_failmode (in_sequence x len st v need) = u_failmode x"
  "u_init_doki (in_sequence x len st v need) = u_init_doki x"
  by (simp_all add: in_sequence_def del: need_bits.simps)

lemma in_sequence_finish:
  "(in_sequence x len st v need)\<lparr>u_v := w, u_nextbits := 0, u_state := 0\<rparr> = x\<lparr>u_v := w, u_nextbits := 0, u_state := 0, u_i := u_i x + len\<rparr>"
  by (cases x) (simp add: in_sequence_def)

lemma sequence_step:
  assumes "pending bs (Suc st) v need" "0 < st" "128 \<le> b" "b < 192" "need \<le> b - 128"
  shows "utf8_byte (word_of_nat b) p (in_sequence x len (Suc st) v need) = Continue (in_sequence x (Suc len) st (64 * v + (b - 128)) 0)"
  using assms pending_facts [OF assms(1)] continue_nat [OF assms(3,4) pending_facts(3) [OF assms(1)], of "in_sequence x len (Suc st) v need" v st p]
  by (simp add: utf8_byte_nat Let_def in_sequence_def del: of_nat_add of_nat_mult)

lemma feed_pending:
  assumes "u_state x = 0" "u_nextbits x = 0"
  shows "pending bs st v need \<Longrightarrow> feed p (map word_of_nat bs) x = Continue (in_sequence x (length bs) st v need)"
proof (induction rule: pending.induct)
  case (more bs st v need b)
  show ?case
    using more.IH sequence_step [OF more.hyps, of p x "length bs"] more.hyps(4)
    by (simp add: feed_append feed_nat del: feed.simps(2))
qed (use assms in \<open>auto simp: feed_nat utf8_byte_nat in_sequence_def simp del: feed.simps(2)\<close>)

lemma scalar_nat: "scalar c \<longleftrightarrow> unat c < 0xD800 \<or> 0xDFFF < unat c \<and> unat c \<le> 0x10FFFF"
  by (simp add: scalar_def word_less_nat_alt word_le_nat_alt)

lemma sequence_end:
  assumes "pending bs 1 v need" "128 \<le> b" "b < 192" "need \<le> b - 128"
  shows "utf8_byte (word_of_nat b) p (in_sequence x len 1 v need) =
    (let n = 64 * v + (b - 128); y = x\<lparr>u_v := word_of_nat n, u_nextbits := 0, u_state := 0, u_i := u_i x + len\<rparr>
     in if scalar (word_of_nat n) then Output y else bad_in_sequence p y)"
proof -
  let ?n = "64 * v + (b - 128)"
  have "?n < 2 ^ 32" using assms(3) pending_facts(4) [OF assms(1)] by simp
  then have "scalar (word_of_nat ?n) \<longleftrightarrow> \<not> (0xD800 \<le> ?n \<and> ?n \<le> 0xDFFF \<or> 0x10FFFF < ?n)"
    using unat_nat [of ?n] by (auto simp: scalar_nat)
  then show ?thesis
    using assms continue_nat [OF assms(2,3) pending_facts(3) [OF assms(1)], of "in_sequence x len 1 v need" v 0 p]
      pending_facts(4) [OF assms(1)]
    by (simp add: utf8_byte_nat Let_def in_sequence_finish del: of_nat_add of_nat_mult of_nat_diff)
qed

lemma nat_bytes_pending:
  assumes "128 \<le> n" "n < 0x140000"
  shows "\<exists>bs b v need. nat_bytes n = bs @ [b] \<and> pending bs 1 v need \<and> 128 \<le> b \<and> b < 192 \<and> need \<le> b - 128 \<and> n = 64 * v + (b - 128)"
proof -
  have n: "n = 64 * (n div 64) + (128 + n mod 64 - 128)" by simp
  consider "n < 2048" | "2048 \<le> n" "n < 65536" | "65536 \<le> n" by linarith
  then show ?thesis
  proof cases
    case 1
    have "pending [192 + n div 64] 1 (192 + n div 64 - 192) 0" using 1 assms(1) by (intro pending.two) auto
    then have "pending [192 + n div 64] 1 (n div 64) 0" by simp
    moreover have "nat_bytes n = [192 + n div 64] @ [128 + n mod 64]" using 1 assms by (simp add: nat_bytes.simps)
    ultimately show ?thesis using n by (intro exI [of _ "[192 + n div 64]"] exI [of _ "128 + n mod 64"] exI [of _ "n div 64"] exI [of _ 0]) simp
  next
    case 2
    define k where "k = n div 64"
    have k: "32 \<le> k" "k < 1024" "k = 64 * (k div 64) + k mod 64" using 2 by (auto simp: k_def)
    have "pending ([224 + k div 64] @ [128 + k mod 64]) 1 (64 * (224 + k div 64 - 224) + (128 + k mod 64 - 128)) 0"
      by (rule pending.more [OF _ _ _ _, where need = "if 224 + k div 64 = 224 then 32 else 0"])
         (use pending.three [of "224 + k div 64"] k in \<open>auto simp: numeral_2_eq_2 numeral_3_eq_3\<close>)
    then have "pending [224 + k div 64, 128 + k mod 64] 1 k 0" using k(3) by simp
    moreover have "nat_bytes n = [224 + k div 64, 128 + k mod 64] @ [128 + n mod 64]"
      using 2 div_mult2_eq [of n 64 64] by (simp add: nat_bytes.simps k_def)
    ultimately show ?thesis using n
      by (intro exI [of _ "[224 + k div 64, 128 + k mod 64]"] exI [of _ "128 + n mod 64"] exI [of _ k] exI [of _ 0]) (simp add: k_def)
  next
    case 3
    define k where "k = n div 64"
    define l where "l = k div 64"
    have l: "16 \<le> l" "l < 320" "l = 64 * (l div 64) + l mod 64" using 3 assms div_mult2_eq [of n 64 64] by (auto simp: k_def l_def)
    have k: "k = 64 * l + k mod 64" by (simp add: l_def)
    have "pending ([240 + l div 64] @ [128 + l mod 64]) 2 (64 * (240 + l div 64 - 240) + (128 + l mod 64 - 128)) 0"
      by (rule pending.more [OF _ _ _ _, where need = "if 240 + l div 64 = 240 then 16 else 0"])
         (use pending.four [of "240 + l div 64"] l in \<open>auto simp: numeral_2_eq_2 numeral_3_eq_3\<close>)
    then have "pending [240 + l div 64, 128 + l mod 64] 2 l 0" using l(3) by simp
    then have "pending ([240 + l div 64, 128 + l mod 64] @ [128 + k mod 64]) 1 (64 * l + (128 + k mod 64 - 128)) 0"
      by (intro pending.more) (auto simp: numeral_2_eq_2)
    then have "pending [240 + l div 64, 128 + l mod 64, 128 + k mod 64] 1 k 0" using k by simp
    moreover have "nat_bytes n = [240 + l div 64, 128 + l mod 64, 128 + k mod 64] @ [128 + n mod 64]"
      using 3 div_mult2_eq [of n 64 64] div_mult2_eq [of n 4096 64] by (simp add: nat_bytes.simps k_def l_def)
    ultimately show ?thesis using n
      by (intro exI [of _ "[240 + l div 64, 128 + l mod 64, 128 + k mod 64]"] exI [of _ "128 + n mod 64"] exI [of _ k] exI [of _ 0]) (simp add: k_def)
  qed
qed

lemma feed_char:
  assumes c: "scalar c" and x: "u_state x = 0" "u_nextbits x = 0"
  shows "feed p (utf8_bytes c) x = Output (x\<lparr>u_v := c, u_i := u_i x + (length (utf8_bytes c) - 1)\<rparr>)"
proof -
  define n where "n = unat c"
  have n: "n < 0x110000" and cn: "c = word_of_nat n" using c by (auto simp: n_def scalar_nat)
  have bs: "utf8_bytes c = map word_of_nat (nat_bytes n)" using utf8_bytes_nat(1) [of c] n by (simp add: n_def)
  show ?thesis
  proof (cases "n < 128")
    case True
    then have "feed p (map word_of_nat (nat_bytes n)) x = Output (x\<lparr>u_v := word_of_nat n\<rparr>)" "length (nat_bytes n) = 1"
      using x by (simp_all add: nat_bytes.simps feed_nat utf8_byte_nat del: feed.simps(2))
    then show ?thesis by (simp only: bs cn [symmetric] length_map) simp
  next
    case False
    then obtain bs' b v need where e: "nat_bytes n = bs' @ [b]" "pending bs' 1 v need" "128 \<le> b" "b < 192" "need \<le> b - 128"
      "n = 64 * v + (b - 128)" using nat_bytes_pending [of n] n by auto
    have "scalar (word_of_nat (64 * v + (b - 128)))" using c cn e(6) by simp
    then have "utf8_byte (word_of_nat b) p (in_sequence x (length bs') 1 v need) =
        Output (x\<lparr>u_v := c, u_nextbits := 0, u_state := 0, u_i := u_i x + length bs'\<rparr>)"
      using sequence_end [OF e(2-5), of p x "length bs'"] cn e(6) by (simp add: Let_def del: of_nat_add of_nat_mult)
    then show ?thesis using feed_pending [OF x e(2), of p] e(1,4)
      x by (cases x) (simp add: bs feed_append feed_nat del: feed.simps(2))
  qed
qed

end
