(* ===== verification/Utf8Laws.thy ===== *)
theory Utf8Laws
  imports Utf8Props
begin

text \<open>
  The theorems about the UTF-8 and UTF-16 converters of \<open>string.c\<close>, and the defects of the
  permissive mode that the model shows.
\<close>

section \<open>The decoding loop\<close>

text \<open>
  A rule for total correctness of the loop: an invariant, a postcondition that holds wherever the
  loop ends, and progress of the position \<open>oki\<close> with every character that is stored.
\<close>

lemma utf8_loop_rule:
  assumes inv: "Inv x" and bound: "\<And>x. Inv x \<Longrightarrow> u_oki x \<le> u_i x \<and> u_i x \<le> e" and e: "e \<le> length s"
    and continue: "\<And>x y. Inv x \<Longrightarrow> u_i x < e \<Longrightarrow> utf8_byte (ucast (s ! u_i x)) p x = Continue y \<Longrightarrow>
        Inv y \<and> u_oki y = u_oki x \<and> u_i y = u_i x + 1"
    and break: "\<And>x y. Inv x \<Longrightarrow> u_i x < e \<Longrightarrow> utf8_byte (ucast (s ! u_i x)) p x = Break y \<Longrightarrow> Post y"
    and out: "\<And>x y. Inv x \<Longrightarrow> u_i x < e \<Longrightarrow> utf8_byte (ucast (s ! u_i x)) p x = Output y \<Longrightarrow>
        \<exists>r. utf8_output s dend compact utf16 y = Some r \<and>
          (case r of None \<Rightarrow> Post y
           | Some z \<Rightarrow> u_oki x < u_oki (next_char z) \<and> (if dend \<le> u_j (next_char z) then Post (next_char z) else Inv (next_char z)))"
    and fin: "\<And>x. Inv x \<Longrightarrow> u_i x = e \<Longrightarrow> Post x"
  shows "\<exists>y. utf8_loop s e dend compact utf16 p x = Some y \<and> Post y"
  using inv
proof (induction "(e - u_oki x, e - u_i x)" arbitrary: x rule: wf_induct_rule [OF wf_lex_prod [OF wf_less wf_less]])
  case (1 x)
  have IH: "\<exists>y. utf8_loop s e dend compact utf16 p z = Some y \<and> Post y"
    if "Inv z" "e - u_oki z < e - u_oki x \<or> u_oki z = u_oki x \<and> e - u_i z < e - u_i x" for z
    using 1(1) [of z] that by auto
  show ?case
  proof (cases "u_i x < e")
    case False
    then show ?thesis using fin [OF 1(2)] bound [OF 1(2)] by (subst utf8_loop.simps) auto
  next
    case True
    then have rd: "rd s (u_i x) = Some (s ! u_i x)" using e by (simp add: rd_def)
    show ?thesis
    proof (cases "utf8_byte (ucast (s ! u_i x)) p x")
      case (Continue y)
      then show ?thesis using IH [of y] continue [OF 1(2) True Continue] True rd by (subst utf8_loop.simps) simp
    next
      case (Break y)
      then show ?thesis using break [OF 1(2) True Break] True rd by (subst utf8_loop.simps) simp
    next
      case (Output y)
      from out [OF 1(2) True Output] obtain r where r: "utf8_output s dend compact utf16 y = Some r"
        "case r of None \<Rightarrow> Post y
           | Some z \<Rightarrow> u_oki x < u_oki (next_char z) \<and> (if dend \<le> u_j (next_char z) then Post (next_char z) else Inv (next_char z))"
        by blast
      show ?thesis
      proof (cases r)
        case None
        then show ?thesis using r Output True rd by (subst utf8_loop.simps) simp
      next
        case (Some z)
        have "e - u_oki (next_char z) < e - u_oki x" using r(2) Some bound [OF 1(2)] True by auto
        then show ?thesis using r Output True rd Some IH [of "next_char z"] by (subst utf8_loop.simps) (auto simp: Let_def split: if_splits)
      qed
    qed
  qed
qed

text \<open>Writing characters to the output buffer.\<close>

definition written :: "mzchar list option \<Rightarrow> nat \<Rightarrow> mzchar list \<Rightarrow> mzchar list option" where
  "written us j cs = map_option (\<lambda>us. take j us @ cs @ drop (j + length cs) us) us"

lemma written_Nil [simp]: "written us j [] = us"
  by (cases us) (simp_all add: written_def)

lemma put_written:
  assumes "\<And>u. us = Some u \<Longrightarrow> j + length cs + length ds \<le> length u"
  shows "put (written us j cs) (j + length cs) ds = Some (written us j (cs @ ds))"
proof (cases us)
  case (Some u)
  then have "j + length cs + length ds \<le> length u" using assms by blast
  then show ?thesis using Some by (cases cs) (auto simp: written_def blit_def min_def ac_simps)
qed (simp add: written_def)

definition segment :: "'a list \<Rightarrow> nat \<Rightarrow> nat \<Rightarrow> 'a list" where
  "segment s i j = take (j - i) (drop i s)"

lemma segment_simps [simp]: "segment s i i = []" "length (segment s i j) = min (length s - i) (j - i)"
  by (auto simp: segment_def)


lemma segment_append: "i \<le> j \<Longrightarrow> j \<le> k \<Longrightarrow> segment s i k = segment s i j @ segment s j k"
proof -
  assume "i \<le> j" "j \<le> k"
  then have "take (k - i) (drop i s) = take ((j - i) + (k - j)) (drop i s)" by simp
  also have "\<dots> = take (j - i) (drop i s) @ take (k - j) (drop (j - i) (drop i s))" by (rule take_add)
  finally show ?thesis using \<open>i \<le> j\<close> by (simp add: segment_def)
qed

abbreviation encode :: "mzchar list \<Rightarrow> byte list" where
  "encode cs \<equiv> concat (map utf8_bytes cs)"







definition same_output :: "utf8_vars \<Rightarrow> utf8_vars \<Rightarrow> bool" where
  "same_output x y \<longleftrightarrow> u_oki y = u_oki x \<and> u_j y = u_j x \<and> u_us y = u_us x \<and> u_init_doki y = u_init_doki x"

lemma bad_strict [simp]: "bad_in_sequence 0 x = ENCFAIL x" "bad_start 0 x = ENCFAIL x"
  by (simp_all add: bad_in_sequence_def bad_start_def)



text \<open>The strict decoder, run to its end.\<close>

lemma strict_output:
  assumes "\<not> compact" "put (u_us y) (u_j y) [u_v y] = Some us"
  shows "utf8_output s dend compact utf16 y = Some (Some (y\<lparr>u_us := us\<rparr>))"
  using assms by (simp add: utf8_output_def Let_def)


section \<open>Well-formed input\<close>

lemmas byte_defs = utf8_byte_def continue_sequence_def start_sequence_def bad_in_sequence_def bad_start_def ENCFAIL_def Let_def

lemma byte_continue: "utf8_byte sc p x = Continue y \<Longrightarrow> same_output x y \<and> u_i y = u_i x + 1 \<and> u_state y \<noteq> 0"
  by (auto simp: byte_defs same_output_def split: if_splits)

lemma byte_output: "utf8_byte sc p x = Output y \<Longrightarrow> u_init_doki x = 0 \<Longrightarrow>
    same_output x y \<and> (u_i y = u_i x \<or> u_i y = u_oki x) \<and> u_state y = 0"
  by (auto simp: byte_defs same_output_def split: if_splits)

lemma byte_permissive: "p \<noteq> 0 \<Longrightarrow> utf8_byte sc p x \<noteq> Break y"
  by (auto simp: byte_defs)

lemma segment_Cons: "segment s i (i + Suc n) = b # bs \<Longrightarrow> i < length s \<and> s ! i = b \<and> segment s (i + 1) (i + 1 + n) = bs"
  by (cases "i < length s") (auto simp: segment_def Cons_nth_drop_Suc [symmetric] drop_Suc)

lemma loop_continue:
  "segment s (u_i x) (u_i x + length bs) = bs \<Longrightarrow> u_i x + length bs \<le> e \<Longrightarrow> feed p bs x = Continue y \<Longrightarrow>
   utf8_loop s e dend compact utf16 p x = utf8_loop s e dend compact utf16 p y"
proof (induction bs arbitrary: x)
  case (Cons b bs)
  then obtain z where z: "utf8_byte (ucast b) p x = Continue z" "feed p bs z = Continue y" by (auto split: utf8_next.splits)
  have b: "u_i x < length s" "s ! u_i x = b" "segment s (u_i x + 1) (u_i x + 1 + length bs) = bs"
    using segment_Cons [of s "u_i x" "length bs" b bs] Cons.prems(1) by simp_all
  have "utf8_loop s e dend compact utf16 p x = utf8_loop s e dend compact utf16 p z"
    using z(1) b(1,2) Cons.prems(2) by (subst utf8_loop.simps) (simp add: rd_def)
  then show ?case using Cons.IH [of z] z b(3) Cons.prems(2) byte_continue [OF z(1)] by simp
qed simp

lemma loop_output:
  "segment s (u_i x) (u_i x + length bs) = bs \<Longrightarrow> u_i x + length bs \<le> e \<Longrightarrow> feed p bs x = Output y \<Longrightarrow>
   utf8_output s dend compact utf16 y = Some (Some z) \<Longrightarrow> u_j (next_char z) < dend \<Longrightarrow>
   utf8_loop s e dend compact utf16 p x = utf8_loop s e dend compact utf16 p (next_char z)"
proof (induction bs arbitrary: x)
  case (Cons b bs)
  have b: "u_i x < length s" "s ! u_i x = b" "segment s (u_i x + 1) (u_i x + 1 + length bs) = bs"
    using segment_Cons [of s "u_i x" "length bs" b bs] Cons.prems(1) by simp_all
  show ?case
  proof (cases "utf8_byte (ucast b) p x")
    case (Continue w)
    then have "utf8_loop s e dend compact utf16 p x = utf8_loop s e dend compact utf16 p w"
      using b(1,2) Cons.prems(2) by (subst utf8_loop.simps) (simp add: rd_def)
    then show ?thesis using Cons.IH [of w] Continue b(3) Cons.prems(2-5) byte_continue [OF Continue] by simp
  next
    case (Output w)
    then show ?thesis using b(1,2) Cons.prems(2-5) by (subst utf8_loop.simps) (simp add: rd_def Let_def)
  next
    case (Break w)
    then show ?thesis using Cons.prems(3) by simp
  qed
qed simp

definition fresh :: "utf8_vars \<Rightarrow> bool" where
  "fresh x \<longleftrightarrow> u_state x = 0 \<and> u_nextbits x = 0 \<and> u_oki x = u_i x \<and> u_failmode x = -3 \<and> u_init_doki x = 0"

text \<open>A whole character, possibly with its first bytes read before.\<close>

lemma loop_char:
  assumes seg: "segment s (u_i x) (u_i x + length bs) = bs" "u_i x + length bs \<le> e"
    and y: "feed p bs x = Output y" "u_state y = 0" "u_nextbits y = 0" "u_v y = c" "u_i y + 1 = u_i x + length bs"
      "u_j y = dstart + length cs" "u_us y = written us dstart cs" "u_failmode y = -3"
    and room: "dstart + length cs + 1 < dend" "\<And>u. us = Some u \<Longrightarrow> dstart + length cs + 1 \<le> length u"
  shows "\<exists>z. utf8_loop s e dend False utf16 p x = utf8_loop s e dend False utf16 p z \<and> fresh z \<and> u_i z = u_i x + length bs
    \<and> u_j z = dstart + length (cs @ [c]) \<and> u_us z = written us dstart (cs @ [c])"
proof -
  have "put (u_us y) (u_j y) [u_v y] = Some (written us dstart (cs @ [c]))"
    unfolding y by (rule put_written) (use room in auto)
  then have o: "utf8_output s dend False utf16 y = Some (Some (y\<lparr>u_us := written us dstart (cs @ [c])\<rparr>))"
    by (intro strict_output) auto
  let ?z = "next_char (y\<lparr>u_us := written us dstart (cs @ [c])\<rparr>)"
  have "u_j ?z < dend" using room y by (simp add: next_char_def)
  note l = loop_output [OF seg y(1) o this]
  show ?thesis by (intro exI [of _ ?z] conjI) (use l y in \<open>simp_all add: next_char_def fresh_def\<close>)
qed

lemma bytes_nonempty: "utf8_bytes c \<noteq> []"
  by (simp add: utf8_bytes_def)

lemma loop_chars:
  assumes "list_all scalar ds" "fresh x" "segment s (u_i x) (u_i x + length (encode ds)) = encode ds" "u_i x + length (encode ds) \<le> e"
    "u_j x = dstart + length cs" "u_us x = written us dstart cs"
    "dstart + length cs + length ds < dend" "\<And>u. us = Some u \<Longrightarrow> dstart + length cs + length ds \<le> length u"
  shows "\<exists>z. utf8_loop s e dend False utf16 p x = utf8_loop s e dend False utf16 p z \<and> fresh z \<and> u_i z = u_i x + length (encode ds)
    \<and> u_j z = dstart + length (cs @ ds) \<and> u_us z = written us dstart (cs @ ds)"
  using assms
proof (induction ds arbitrary: x cs)
  case (Cons c ds)
  let ?b = "utf8_bytes c"
  have seg: "segment s (u_i x) (u_i x + length ?b) = ?b"
    "segment s (u_i x + length ?b) (u_i x + length ?b + length (encode ds)) = encode ds"
    using Cons.prems(3) segment_append [of "u_i x" "u_i x + length ?b" "u_i x + length ?b + length (encode ds)" s]
    by (auto simp: append_eq_append_conv_if ac_simps segment_def split: if_splits)
  have f: "feed p ?b x = Output (x\<lparr>u_v := c, u_i := u_i x + (length ?b - 1)\<rparr>)"
    using Cons.prems(1,2) by (intro feed_char) (auto simp: fresh_def)
  have u: "dstart + length cs + 1 \<le> length u" if "us = Some u" for u using Cons.prems(8) [OF that] by simp
  have "\<exists>z. utf8_loop s e dend False utf16 p x = utf8_loop s e dend False utf16 p z \<and> fresh z \<and> u_i z = u_i x + length ?b
    \<and> u_j z = dstart + length (cs @ [c]) \<and> u_us z = written us dstart (cs @ [c])"
    by (rule loop_char [OF seg(1) _ f _ _ _ _ _ _ _ _ u]) (use Cons.prems bytes_nonempty [of c] in \<open>auto simp: fresh_def Suc_le_eq\<close>)
  then obtain z where z: "utf8_loop s e dend False utf16 p x = utf8_loop s e dend False utf16 p z" "fresh z" "u_i z = u_i x + length ?b"
    "u_j z = dstart + length (cs @ [c])" "u_us z = written us dstart (cs @ [c])" by blast
  have "\<exists>w. utf8_loop s e dend False utf16 p z = utf8_loop s e dend False utf16 p w \<and> fresh w \<and> u_i w = u_i z + length (encode ds)
    \<and> u_j w = dstart + length ((cs @ [c]) @ ds) \<and> u_us w = written us dstart ((cs @ [c]) @ ds)"
    by (rule Cons.IH) (use Cons.prems z seg(2) in \<open>auto simp: fresh_def\<close>)
  then show ?case using z(1,3) by (auto simp: ac_simps)
qed auto

section \<open>Properties of the decoder\<close>



text \<open>
  C15. Encoding a string of Unicode scalar values and decoding the bytes gives the string back, whether
  or not the decoder is permissive, and at any place inside of larger buffers.
\<close>

theorem utf8_round_trip:
  assumes "list_all scalar cs" "segment s start (start + length (encode cs)) = encode cs"
    and "length cs < 0x7FFFFFFF" "\<And>u. us = Some u \<Longrightarrow> length cs \<le> length u"
  shows "\<exists>r. scheme_utf8_decode s start (int (start + length (encode cs))) us 0 (-1) False permissive = Some r
    \<and> r_value r = int (length cs) \<and> r_us r = written us 0 cs \<and> r_ipos r = start + length (encode cs)"
proof -
  let ?x = "utf8_start start 0 us None"
  let ?e = "start + length (encode cs)"
  have x: "fresh ?x" "u_i ?x = start" "u_j ?x = 0 + length []" "u_us ?x = written us 0 []"
    by (simp_all add: utf8_start_def fresh_def)
  have "\<exists>z. utf8_loop s ?e 0x7FFFFFFF False False permissive ?x = utf8_loop s ?e 0x7FFFFFFF False False permissive z \<and> fresh z
    \<and> u_i z = u_i ?x + length (encode cs) \<and> u_j z = 0 + length ([] @ cs) \<and> u_us z = written us 0 ([] @ cs)"
    by (rule loop_chars [OF assms(1) x(1) _ _ x(3,4)]) (use assms(2-4) x(2) in auto)
  then obtain z where z: "utf8_loop s ?e 0x7FFFFFFF False False permissive ?x = utf8_loop s ?e 0x7FFFFFFF False False permissive z"
    "fresh z" "u_i z = ?e" "u_j z = length cs" "u_us z = written us 0 cs" using x(2) by auto
  have "utf8_loop s ?e 0x7FFFFFFF False False permissive ?x = Some z" unfolding z(1) using z(3) by (subst utf8_loop.simps) simp
  then show ?thesis
    using z(2-5) by (simp add: scheme_utf8_decode_def utf8_decode_x_def Let_def utf8_finish_def fresh_def del: of_nat_add)
qed

theorem utf8_round_trip_witness:
  "\<exists>r. scheme_utf8_decode (encode [0x41, 0xE9, 0x20AC, 0x1F600]) 0 10 (Some [0, 0, 0, 0]) 0 (-1) False 0 = Some r
    \<and> r_us r = Some [0x41, 0xE9, 0x20AC, 0x1F600]"
proof -
  have len: "length (encode [0x41, 0xE9, 0x20AC, 0x1F600]) = 10" by (simp add: utf8_bytes_def)
  show ?thesis
    using utf8_round_trip [of "[0x41, 0xE9, 0x20AC, 0x1F600]" "encode [0x41, 0xE9, 0x20AC, 0x1F600]" 0 "Some [0, 0, 0, 0]" 0] len
    by (auto simp: segment_def scalar_def written_def utf8_bytes_def)
qed

section \<open>Permissive decoding\<close>

definition fits :: "mzchar list option \<Rightarrow> mzchar list option \<Rightarrow> bool" where
  "fits us us' \<longleftrightarrow> (case us of None \<Rightarrow> us' = None | Some u \<Rightarrow> (\<exists>u'. us' = Some u' \<and> length u' = length u))"

lemma put_fits:
  assumes "fits us us'" "\<And>u. us = Some u \<Longrightarrow> j + length vs \<le> length u"
  shows "\<exists>us''. put us' j vs = Some us'' \<and> fits us us''"
  using assms by (auto simp: fits_def blit_def split: option.splits)

lemma fill_tail_total:
  assumes "fits us (u_us x)" "\<And>u. us = Some u \<Longrightarrow> u_j x + n \<le> length u" "u_j x + n < dend"
  shows "\<exists>y. fill_tail n dend c x = Some y \<and> u_j y = u_j x + n \<and> u_oki y = u_i x + n \<and> u_i y = u_i x + n \<and> fits us (u_us y)"
  using assms
proof (induction n arbitrary: x)
  case (Suc n)
  have "\<exists>us'. put (u_us x) (u_j x) [c] = Some us' \<and> fits us us'"
    by (rule put_fits [OF Suc.prems(1)]) (use Suc.prems(2) in fastforce)
  then obtain us' where us': "put (u_us x) (u_j x) [c] = Some us'" "fits us us'" by blast
  let ?x = "x\<lparr>u_us := us', u_j := u_j x + 1, u_i := u_i x + 1\<rparr>"
  have "\<exists>y. fill_tail n dend c ?x = Some y \<and> u_j y = u_j ?x + n \<and> u_oki y = u_i ?x + n \<and> u_i y = u_i ?x + n \<and> fits us (u_us y)"
    by (rule Suc.IH) (use us' Suc.prems in fastforce)+
  then show ?case using us'(1) Suc.prems(3) by auto
qed simp

text \<open>
  C16. The permissive decoder accepts every input: it ends within its buffers, reads all bytes, and never
  produces more characters than there are bytes.
\<close>

theorem utf8_decode_permissive_total:
  assumes "permissive \<noteq> 0" "start \<le> e" "e \<le> length s" "dstart + (e - start) < 0x7FFFFFFF"
    and "\<And>u. us = Some u \<Longrightarrow> dstart + (e - start) \<le> length u"
  shows "\<exists>r. utf8_decode_x s start (int e) us dstart (-1) False False None False permissive = Some r
    \<and> 0 \<le> r_value r \<and> r_value r \<le> int e - int start \<and> r_ipos r = e"
proof -
  define Inv where "Inv x \<longleftrightarrow> start \<le> u_oki x \<and> u_oki x \<le> u_i x \<and> u_i x \<le> e \<and> dstart \<le> u_j x
    \<and> u_j x \<le> dstart + (u_oki x - start) \<and> u_init_doki x = 0 \<and> fits us (u_us x) \<and> (u_state x = 0 \<longrightarrow> u_oki x = u_i x)"
    for x :: utf8_vars
  let ?x = "utf8_start start dstart us None"
  have "\<exists>y. utf8_loop s e 0x7FFFFFFF False False permissive ?x = Some y \<and> (Inv y \<and> u_i y = e)"
  proof (rule utf8_loop_rule [where Inv = Inv])
    show "Inv ?x" using assms by (auto simp: Inv_def utf8_start_def fits_def split: option.splits)
  next
    fix y assume "Inv y" then show "u_oki y \<le> u_i y \<and> u_i y \<le> e" by (simp add: Inv_def)
  next
    fix y z assume y: "Inv y" "u_i y < e" "utf8_byte (ucast (s ! u_i y)) permissive y = Continue z"
    show "Inv z \<and> u_oki z = u_oki y \<and> u_i z = u_i y + 1"
      using y byte_continue [OF y(3)] by (auto simp: Inv_def same_output_def)
  next
    fix y z assume y: "Inv y" "u_i y < e" "utf8_byte (ucast (s ! u_i y)) permissive y = Break z"
    then show "Inv z \<and> u_i z = e" using byte_permissive [OF assms(1)] by blast
  next
    fix y z assume y: "Inv y" "u_i y < e" "utf8_byte (ucast (s ! u_i y)) permissive y = Output z"
    have doki: "u_init_doki y = 0" using y(1) by (simp add: Inv_def)
    have z: "same_output y z" "u_i z = u_i y \<or> u_i z = u_oki y" "u_state z = 0" using byte_output [OF y(3) doki] by auto
    have j: "u_j z < dstart + (e - start)" using y z(1) by (auto simp: Inv_def same_output_def)
    have "\<exists>us''. put (u_us z) (u_j z) [u_v z] = Some us'' \<and> fits us us''"
      by (rule put_fits) (use y(1) z(1) j assms(5) in \<open>fastforce simp: Inv_def same_output_def\<close>)+
    then obtain us'' where us'': "put (u_us z) (u_j z) [u_v z] = Some us''" "fits us us''" by blast
    let ?w = "next_char (z\<lparr>u_us := us''\<rparr>)"
    have w: "Inv ?w" "u_oki y < u_oki ?w" "u_j ?w < 0x7FFFFFFF"
      using y(1,2) z us''(2) j assms(4) by (auto simp: Inv_def next_char_def same_output_def)
    show "\<exists>r. utf8_output s 0x7FFFFFFF False False z = Some r \<and>
        (case r of None \<Rightarrow> Inv z \<and> u_i z = e
         | Some z \<Rightarrow> u_oki y < u_oki (next_char z) \<and>
             (if 0x7FFFFFFF \<le> u_j (next_char z) then Inv (next_char z) \<and> u_i (next_char z) = e else Inv (next_char z)))"
      using strict_output [OF _ us''(1), of False s] w by auto
  qed (use assms in auto)
  then obtain y where y: "utf8_loop s e 0x7FFFFFFF False False permissive ?x = Some y" "Inv y" "u_i y = e" by blast
  have "\<exists>z. utf8_finish e 0x7FFFFFFF False False None False permissive y = Some z \<and> u_i z = e \<and> u_oki z = e
    \<and> dstart \<le> u_j z \<and> u_j z \<le> dstart + (e - start)"
  proof (cases "u_state y = 0")
    case True
    then show ?thesis using y(2,3) by (auto simp: utf8_finish_def Inv_def)
  next
    case False
    let ?y = "y\<lparr>u_i := u_oki y\<rparr>"
    have le: "u_j y + (e - u_oki y) \<le> dstart + (e - start)" using y(2,3) by (auto simp: Inv_def)
    have "\<exists>z. fill_tail (e - u_oki y) 0x7FFFFFFF permissive ?y = Some z \<and> u_j z = u_j ?y + (e - u_oki y) \<and> u_oki z = u_i ?y + (e - u_oki y)
      \<and> u_i z = u_i ?y + (e - u_oki y) \<and> fits us (u_us z)"
      by (rule fill_tail_total) (use y(2) le assms(4,5) in \<open>fastforce simp: Inv_def\<close>)+
    then obtain z where "fill_tail (e - u_oki y) 0x7FFFFFFF permissive ?y = Some z" "u_j z = u_j y + (e - u_oki y)"
      "u_oki z = u_oki y + (e - u_oki y)" "u_i z = u_oki y + (e - u_oki y)" by auto
    then show ?thesis using False y(2,3) le assms(1) by (auto simp: utf8_finish_def Inv_def)
  qed
  then obtain z where z: "utf8_finish e 0x7FFFFFFF False False None False permissive y = Some z" "u_i z = e" "u_oki z = e"
    "dstart \<le> u_j z" "u_j z \<le> dstart + (e - start)" by blast
  have "dstart < 0x7FFFFFFF" using assms(4) by simp
  then show ?thesis using y(1) z assms(2) by (simp add: utf8_decode_x_def Let_def)
qed

theorem utf8_decode_permissive_total_witness:
  "\<exists>r. utf8_decode_x [0xFF, 0xC3, 0x41] 0 (int 3) None 0 (-1) False False None False 0x3F = Some r
    \<and> 0 \<le> r_value r \<and> r_value r \<le> 3"
  using utf8_decode_permissive_total [where permissive = "0x3F" and start = 0 and e = 3 and s = "[0xFF, 0xC3, 0x41]"
      and dstart = 0 and us = None] by auto

end
