(* ===== verification/Utf8Codecs.thy ===== *)
theory Utf8Codecs
  imports Utf8Laws
begin

text \<open>
  The encoder of \<open>string.c\<close>, decoding in pieces, UTF-16, and inputs at which the converters do
  not do what their comments promise.
\<close>

section \<open>Encoding\<close>

lemma size_bytes: "length (utf8_bytes c) = utf8_size c"
  by (simp add: utf8_bytes_def utf8_size_def)

lemma segment_step: "i < e \<Longrightarrow> e \<le> length us \<Longrightarrow> segment us i e = us ! i # segment us (Suc i) e"
  by (simp add: segment_def Cons_nth_drop_Suc [symmetric] take_Cons' Suc_diff_Suc)

lemma get_code_point_plain: "i < length us \<Longrightarrow> get_code_point us i e has_opos False = Some (Inr (0, us ! i))"
  by (simp add: get_code_point_def rd_def)

lemma encode_count_eq:
  "i \<le> e \<Longrightarrow> e \<le> length us \<Longrightarrow>
   encode_count us i e j dstart has_opos False =
     Some \<lparr>e_value = int (j + length (encode (segment us i e))), e_ipos = e, e_opos = j + length (encode (segment us i e)) + dstart, e_s = []\<rparr>"
proof (induction "e - i" arbitrary: i j)
  case 0
  then show ?case by (simp add: encode_count.simps)
next
  case (Suc n)
  then have i: "i < e" by simp
  note IH = Suc.hyps(1) [of "Suc i" "j + utf8_size (us ! i)"]
  show ?case
    using Suc.prems Suc.hyps(2) i IH get_code_point_plain [of i us e has_opos]
    by (subst encode_count.simps) (simp add: segment_step size_bytes)
qed

lemma encode_loop_eq:
  "i \<le> e \<Longrightarrow> e \<le> length us \<Longrightarrow> j + length (encode (segment us i e)) \<le> dend \<Longrightarrow> j + length (encode (segment us i e)) \<le> length s \<Longrightarrow>
   encode_loop us i e s j dstart dend dn has_opos False =
     Some \<lparr>e_value = int (j + length (encode (segment us i e))) - int dstart, e_ipos = (if i < e then e - 1 else dn),
       e_opos = j + length (encode (segment us i e)),
       e_s = take j s @ encode (segment us i e) @ drop (j + length (encode (segment us i e))) s\<rparr>"
proof (induction "e - i" arbitrary: i j s dn)
  case 0
  then show ?case by (simp add: encode_loop.simps)
next
  case (Suc n)
  then have i: "i < e" by simp
  let ?b = "utf8_bytes (us ! i)"
  let ?s = "take j s @ ?b @ drop (j + utf8_size (us ! i)) s"
  have seg: "segment us i e = us ! i # segment us (Suc i) e" using i Suc.prems(2) by (rule segment_step)
  have room: "j + utf8_size (us ! i) + length (encode (segment us (Suc i) e)) \<le> length s"
    "j + utf8_size (us ! i) + length (encode (segment us (Suc i) e)) \<le> dend" using Suc.prems(3,4) by (simp_all add: seg size_bytes)
  have b: "blit s j ?b 0 (utf8_size (us ! i)) = Some ?s" using room by (simp add: blit_def size_bytes)
  have len: "length ?s = length s" using room by (simp add: size_bytes)
  have IH: "encode_loop us (Suc i) e ?s (j + utf8_size (us ! i)) dstart dend i has_opos False =
     Some \<lparr>e_value = int (j + utf8_size (us ! i) + length (encode (segment us (Suc i) e))) - int dstart,
       e_ipos = (if Suc i < e then e - 1 else i), e_opos = j + utf8_size (us ! i) + length (encode (segment us (Suc i) e)),
       e_s = take (j + utf8_size (us ! i)) ?s @ encode (segment us (Suc i) e)
         @ drop (j + utf8_size (us ! i) + length (encode (segment us (Suc i) e))) ?s\<rparr>"
    by (rule Suc.hyps(1)) (use Suc.hyps(2) Suc.prems(2) i room len in auto)
  have "take (j + utf8_size (us ! i)) ?s = take j s @ ?b" using room by (simp add: size_bytes)
  moreover have "drop (j + utf8_size (us ! i) + k) ?s = drop (j + utf8_size (us ! i) + k) s" for k
    using room by (simp add: size_bytes ac_simps)
  moreover have "(if Suc i < e then e - 1 else i) = e - 1" using i by auto
  ultimately show ?case
    using IH b room i Suc.prems(2) get_code_point_plain [of i us e has_opos]
    by (subst encode_loop.simps) (simp add: seg size_bytes add.assoc)
qed

lemma ascii_prefix_eq:
  "i \<le> len \<Longrightarrow> len \<le> length s \<Longrightarrow> len \<le> length buf \<Longrightarrow>
   \<exists>k buf'. ascii_prefix s i len buf = Some (k, buf') \<and> k \<le> len \<and> length buf' = length buf
     \<and> (k = len \<longrightarrow> list_all (\<lambda>c. c \<le> 127) (segment s i len) \<and> buf' = take i buf @ map ucast (segment s i len) @ drop len buf)"
proof (induction "len - i" arbitrary: i buf)
  case 0
  then show ?case by (simp add: ascii_prefix.simps)
next
  case (Suc n)
  then have i: "i < len" by simp
  show ?case
  proof (cases "127 < s ! i")
    case True
    then show ?thesis using i Suc.prems by (subst ascii_prefix.simps) (auto simp: rd_def)
  next
    case False
    have n: "n = len - Suc i" using Suc.hyps(2) by simp
    obtain k buf' where k: "ascii_prefix s (Suc i) len (buf[i := ucast (s ! i)]) = Some (k, buf')" "k \<le> len" "length buf' = length buf"
      "k = len \<longrightarrow> list_all (\<lambda>c. c \<le> 127) (segment s (Suc i) len)
         \<and> buf' = take (Suc i) (buf[i := ucast (s ! i)]) @ map ucast (segment s (Suc i) len) @ drop len (buf[i := ucast (s ! i)])"
      using Suc.hyps(1) [of "Suc i" "buf[i := ucast (s ! i)]"] n Suc.prems i by auto
    have "take (Suc i) (buf[i := ucast (s ! i)]) = take i buf @ [ucast (s ! i)]"
      using i Suc.prems by (simp add: take_Suc_conv_app_nth)
    moreover have "drop len (buf[i := ucast (s ! i)]) = drop len buf" using i by simp
    ultimately show ?thesis
      using k i Suc.prems False
      by (subst ascii_prefix.simps) (auto simp: rd_def wr_def segment_step)
  qed
qed

lemma encode_ascii: "list_all (\<lambda>c. c \<le> 127) cs \<Longrightarrow> encode cs = map ucast cs"
proof (induction cs)
  case (Cons c cs)
  then have "c < 0x80" by (simp add: word_le_nat_alt word_less_nat_alt)
  then show ?case using Cons by (simp add: utf8_bytes_def)
qed simp

lemma wr_append: "ys \<noteq> [] \<Longrightarrow> wr (xs @ ys) (length xs) v = Some (xs @ v # tl ys)"
  by (cases ys) (simp_all add: wr_def)

text \<open>
  C17. Encoding a string into a buffer never writes outside of the buffer that is used, the one given or a
  new one of the size that a first pass has counted: the result holds the encoding of all characters,
  any 32-bit values, followed by a zero byte, and the length of the encoding is returned.
\<close>

theorem utf8_encode_to_buffer_safe:
  assumes "len \<le> length s" "\<And>n. length (malloc n) = n" "length (encode (take len s)) < 0x7FFFFFFF"
  shows "\<exists>buf'. scheme_utf8_encode_to_buffer_len malloc s len buf = Some (buf', length (encode (take len s)))
    \<and> take (length (encode (take len s)) + 1) buf' = encode (take len s) @ [0]"
proof -
  let ?n = "length (encode (take len s))"
  have seg: "segment s 0 len = take len s" by (simp add: segment_def)
  have general: "\<exists>buf'. do {
       r \<leftarrow> utf8_encode_x s 0 len None 0 (-1) False False;
       let slen = nat (e_value r);
       let buf = (if length b < slen + 1 then malloc (slen + 1) else b);
       r \<leftarrow> utf8_encode_x s 0 len (Some buf) 0 (-1) False False;
       buf \<leftarrow> wr (e_s r) slen 0;
       Some (buf, slen) } = Some (buf', ?n) \<and> take (?n + 1) buf' = encode (take len s) @ [0]" for b
  proof -
    let ?b = "if length b < ?n + 1 then malloc (?n + 1) else b"
    have lb: "?n + 1 \<le> length ?b" using assms(2) by simp
    have "encode_loop s 0 len ?b 0 0 0x7FFFFFFF 0 False False = Some \<lparr>e_value = int ?n, e_ipos = (if 0 < len then len - 1 else 0),
        e_opos = ?n, e_s = encode (take len s) @ drop ?n ?b\<rparr>"
      using encode_loop_eq [of 0 len s 0 "0x7FFFFFFF" ?b 0 0 False] assms(1,3) lb by (simp add: seg del: length_concat split del: if_split)
    moreover have "encode_count s 0 len 0 0 False False = Some \<lparr>e_value = int ?n, e_ipos = len, e_opos = ?n, e_s = []\<rparr>"
      using encode_count_eq [of 0 len s 0 0 False] assms(1) by (simp add: seg del: length_concat)
    moreover have "drop ?n ?b \<noteq> []" using lb by (simp del: length_concat split del: if_split)
    then have "wr (encode (take len s) @ drop ?n ?b) ?n 0 = Some (encode (take len s) @ 0 # tl (drop ?n ?b))"
      by (rule wr_append)
    ultimately show ?thesis
      by (simp add: utf8_encode_x_def Let_def del: length_concat split del: if_split cong: if_cong)
  qed
  show ?thesis
  proof (cases "len < length buf")
    case False
    then show ?thesis using general [of buf] by (simp add: scheme_utf8_encode_to_buffer_len_def del: length_concat)
  next
    case True
    obtain k b where k: "ascii_prefix s 0 len buf = Some (k, b)" "k \<le> len" "length b = length buf"
      "k = len \<longrightarrow> list_all (\<lambda>c. c \<le> 127) (take len s) \<and> b = map ucast (take len s) @ drop len buf"
      using ascii_prefix_eq [of 0 len s buf] assms(1) True by (auto simp: seg)
    show ?thesis
    proof (cases "k = len")
      case True
      then have e: "encode (take len s) = map ucast (take len s)" "b = encode (take len s) @ drop len buf"
        using k(4) encode_ascii by auto
      have n: "?n = len" using e(1) assms(1) by (simp del: length_concat)
      have "wr b len 0 = Some (encode (take len s) @ 0 # tl (drop len buf))"
        using wr_append [of "drop len buf" "encode (take len s)" 0] e(2) n \<open>len < length buf\<close> by (simp del: length_concat)
      then show ?thesis using k(1) True \<open>len < length buf\<close> n by (simp add: scheme_utf8_encode_to_buffer_len_def del: length_concat)
    next
      case False
      then show ?thesis using general [of b] k(1) True by (simp add: scheme_utf8_encode_to_buffer_len_def del: length_concat)
    qed
  qed
qed

theorem utf8_encode_to_buffer_safe_witness:
  "\<exists>buf'. scheme_utf8_encode_to_buffer_len (\<lambda>n. replicate n 7) [0x20AC, 0x41] 2 [0, 0] = Some (buf', 4)
    \<and> take 5 buf' = [0xE2, 0x82, 0xAC, 0x41, 0]"
proof -
  have e: "encode (take 2 [0x20AC, 0x41]) = [0xE2, 0x82, 0xAC, 0x41]" by (simp add: utf8_bytes_def)
  have "\<exists>buf'. scheme_utf8_encode_to_buffer_len (\<lambda>n. replicate n 7) [0x20AC, 0x41] 2 [0, 0] = Some (buf', Suc (Suc (Suc (Suc 0))))
    \<and> take (Suc (Suc (Suc (Suc (Suc 0))))) buf' = [0xE2, 0x82, 0xAC, 0x41, 0]"
    using utf8_encode_to_buffer_safe [of 2 "[0x20AC, 0x41]" "\<lambda>n. replicate n 7" "[0, 0]", unfolded e] by simp
  moreover have "Suc (Suc (Suc (Suc 0))) = 4" "Suc (Suc (Suc (Suc (Suc 0)))) = 5" by simp_all
  ultimately show ?thesis by (simp only:)
qed

section \<open>Decoding in pieces\<close>

















end
