(* ===== verification/Utf16Laws.thy ===== *)
theory Utf16Laws
  imports Utf8Codecs
begin

text \<open>
  UTF-16, and inputs at which the converters of \<open>string.c\<close> do not do what their comments promise.
\<close>

section \<open>Surrogates\<close>

lemma surrogate_iff: "(x :: 16 word) AND 0xF800 = 0xD800 \<longleftrightarrow> 0xD800 \<le> unat x \<and> unat x < 0xE000"
proof -
  have m: "(0xF800 :: 16 word) = NOT (mask 11)" "mask 16 = (- 1 :: 16 word)"
    by (simp_all add: mask_eq_exp_minus_1)
  have "x AND 0xF800 = push_bit 11 (take_bit 5 (drop_bit 11 x))"
    using slice_eq_mask [of 11 5 x] by (simp add: m)
  moreover have n: "unat x < 65536" using unsigned_less [of x] by simp
  have "unat (take_bit 5 (drop_bit 11 x)) = unat x div 2048"
    using n by (simp add: unsigned_take_bit_eq unsigned_drop_bit_eq take_bit_nat_def drop_bit_nat_def)
  then have "unat (push_bit 11 (take_bit 5 (drop_bit 11 x))) = 2048 * (unat x div 2048)"
    using n by (simp add: unsigned_push_bit_eq take_bit_nat_def push_bit_nat_def)
  ultimately have "unat (x AND 0xF800) = 2048 * (unat x div 2048)" by simp
  then have "x AND 0xF800 = 0xD800 \<longleftrightarrow> unat x div 2048 = 27" by (simp add: word_unat_eq_iff)
  then show ?thesis by auto
qed

definition utf16_units :: "mzchar \<Rightarrow> 16 word list" where
  "utf16_units c = (if 0xFFFF < c
     then let w = c - 0x10000 in [ucast (0xD800 OR (drop_bit 10 w AND 0x3FF)), ucast (0xDC00 OR (w AND 0x3FF))]
     else [ucast c])"

lemma and_10: "(x :: mzchar) AND 0x3FF = take_bit 10 x"
  by (simp add: take_bit_eq_mask mask_eq_exp_minus_1)

lemma tagged_unit:
  assumes "t = (0xD800 :: mzchar) \<or> t = 0xDC00"
  shows "(ucast (ucast (t OR take_bit 10 x) :: 16 word) :: mzchar) AND 0x3FF = take_bit 10 x"
    "unat (ucast (t OR take_bit 10 x) :: 16 word) = unat t + unat (take_bit 10 x)"
proof -
  have u: "(ucast (ucast (y :: mzchar) :: 16 word) :: mzchar) = take_bit 16 y" for y
    by (rule bit_eqI) (auto simp: bit_simps)
  have "take_bit 10 t = 0" using assms by auto
  then show "(ucast (ucast (t OR take_bit 10 x) :: 16 word) :: mzchar) AND 0x3FF = take_bit 10 x"
    by (simp add: u and_10 take_bit_or)
  have "t AND take_bit 10 x = 0"
  proof (rule bit_eqI)
    fix n show "bit (t AND take_bit 10 x) n = bit 0 n"
      using \<open>take_bit 10 t = 0\<close> by (metis bit_and_iff bit_take_bit_iff bit_0_eq bot_apply bot_bool_def)
  qed
  then have "t OR take_bit 10 x = t + take_bit 10 x" by (simp add: disjunctive_add_eq_or)
  moreover have small: "unat (take_bit 10 x) < 1024" by (simp add: unsigned_take_bit_eq take_bit_nat_def)
  moreover have "unat (t + take_bit 10 x) = unat t + unat (take_bit 10 x)"
    using small assms by (intro unat_add_lem [THEN iffD1]) auto
  ultimately show "unat (ucast (t OR take_bit 10 x) :: 16 word) = unat t + unat (take_bit 10 x)"
    using assms by (auto simp: unsigned_ucast_eq take_bit_nat_eq_self)
qed

lemma pair_value:
  assumes "0xFFFF < c" "c \<le> 0x10FFFF"
  shows "push_bit 10 (take_bit 10 (drop_bit 10 (c - 0x10000))) + take_bit 10 (c - 0x10000) + 0x10000 = (c :: mzchar)"
proof -
  define w where "w = c - 0x10000"
  have "unat c \<le> 0x10FFFF" "0xFFFF < unat c" using assms by (simp_all add: word_le_nat_alt word_less_nat_alt)
  then have "unat w < 2 ^ 20" unfolding w_def by (subst unat_sub) (auto simp: word_le_nat_alt)
  then have "unat (drop_bit 10 w) < 2 ^ 10" by (simp add: unsigned_drop_bit_eq drop_bit_nat_def take_bit_nat_eq_self less_mult_imp_div_less)
  then have "take_bit 10 (drop_bit 10 w) = drop_bit 10 w"
    by (simp add: word_unat_eq_iff unsigned_take_bit_eq take_bit_nat_eq_self)
  then have "push_bit 10 (take_bit 10 (drop_bit 10 w)) + take_bit 10 w = w" by (simp add: bits_ident)
  then show ?thesis by (simp add: w_def)
qed

lemma units_read:
  assumes "scalar c"
  shows "0xFFFF < c \<Longrightarrow> \<exists>hi lo. utf16_units c = [hi, lo] \<and> hi AND 0xF800 = 0xD800
      \<and> push_bit 10 (ucast hi AND 0x3FF) + (ucast lo AND 0x3FF) + 0x10000 = c"
    "\<not> 0xFFFF < c \<Longrightarrow> \<exists>u. utf16_units c = [u] \<and> u AND 0xF800 \<noteq> 0xD800 \<and> ucast u = c"
proof -
  assume big: "0xFFFF < c"
  let ?w = "c - 0x10000"
  let ?hi = "ucast (0xD800 OR take_bit 10 (drop_bit 10 ?w)) :: 16 word" and ?lo = "ucast (0xDC00 OR take_bit 10 ?w) :: 16 word"
  have "unat (take_bit 10 (drop_bit 10 ?w)) < 1024" by (simp add: unsigned_take_bit_eq take_bit_nat_def)
  then have "?hi AND 0xF800 = 0xD800" using tagged_unit(2) [of "0xD800" "drop_bit 10 ?w"] by (simp add: surrogate_iff)
  moreover have "c \<le> 0x10FFFF" using assms big by (auto simp: scalar_def word_less_nat_alt word_le_nat_alt)
  ultimately show "\<exists>hi lo. utf16_units c = [hi, lo] \<and> hi AND 0xF800 = 0xD800
      \<and> push_bit 10 (ucast hi AND 0x3FF) + (ucast lo AND 0x3FF) + 0x10000 = c"
    using big pair_value [OF big] tagged_unit(1) [of "0xD800"] tagged_unit(1) [of "0xDC00"]
    by (intro exI [of _ ?hi] exI [of _ ?lo]) (simp add: utf16_units_def and_10 [symmetric] Let_def)
next
  assume small: "\<not> 0xFFFF < c"
  then have n: "unat c < 65536" by (simp add: word_less_nat_alt)
  then have u: "unat (ucast c :: 16 word) = unat c" by (simp add: unsigned_ucast_eq take_bit_nat_eq_self)
  have "(ucast c :: 16 word) AND 0xF800 \<noteq> 0xD800" using assms u by (auto simp: surrogate_iff scalar_nat)
  moreover have "ucast (ucast c :: 16 word) = c"
    using n u by (simp add: word_unat_eq_iff unsigned_ucast_eq [of "ucast c :: 16 word"] take_bit_nat_eq_self)
  ultimately show "\<exists>u. utf16_units c = [u] \<and> u AND 0xF800 \<noteq> 0xD800 \<and> ucast u = c" using small by (simp add: utf16_units_def)
qed

section \<open>Writing and reading\<close>

abbreviation utf16 :: "mzchar list \<Rightarrow> 16 word list" where
  "utf16 cs \<equiv> concat (map utf16_units cs)"

lemma count_extra_eq: "i + n \<le> length text \<Longrightarrow>
    count_extra text i n = Some (length (utf16 (segment text i (i + n))) - n) \<and> n \<le> length (utf16 (segment text i (i + n)))"
proof (induction n arbitrary: i)
  case (Suc n)
  have "segment text i (i + Suc n) = text ! i # segment text (Suc i) (Suc i + n)"
    using segment_step [of i "i + Suc n" "text"] Suc.prems by simp
  then show ?case using Suc.IH [of "Suc i"] Suc.prems by (auto simp: rd_def utf16_units_def Let_def)
qed simp

lemma utf16_write_eq: "i + n \<le> length text \<Longrightarrow> j + length (utf16 (segment text i (i + n))) \<le> length buf \<Longrightarrow>
    utf16_write text i n buf j = Some (take j buf @ utf16 (segment text i (i + n)) @ drop (j + length (utf16 (segment text i (i + n)))) buf,
      j + length (utf16 (segment text i (i + n))))"
proof (induction n arbitrary: i j buf)
  case (Suc n)
  let ?c = "text ! i" and ?rest = "segment text (Suc i) (Suc i + n)"
  have seg: "segment text i (i + Suc n) = ?c # ?rest" using segment_step [of i "i + Suc n" "text"] Suc.prems by simp
  have step: "utf16_write text (Suc i) n b (j + length (utf16_units ?c)) = Some (take j buf @ utf16 (?c # ?rest)
      @ drop (j + length (utf16 (?c # ?rest))) buf, j + length (utf16 (?c # ?rest)))"
    if "b = take j buf @ utf16_units ?c @ drop (j + length (utf16_units ?c)) buf" for b
  proof -
    have "length b = length buf" using that Suc.prems(2) seg by simp
    then show ?thesis
      using Suc.IH [of "Suc i" "j + length (utf16_units ?c)" b] Suc.prems seg that by (simp add: ac_simps)
  qed
  show ?case
  proof (cases "0xFFFF < ?c")
    case True
    then have l: "utf16_units ?c = [ucast (0xD800 OR (drop_bit 10 (?c - 0x10000) AND 0x3FF)), ucast (0xDC00 OR ((?c - 0x10000) AND 0x3FF))]"
      by (simp add: utf16_units_def Let_def)
    then have j: "j + 1 < length buf" using Suc.prems(2) seg by simp
    have "buf[j := a, Suc j := b] = take j buf @ [a, b] @ drop (j + 2) buf" for a b
      using j by (simp add: upd_conv_take_nth_drop [of j] list_update_append Cons_nth_drop_Suc [of "Suc j", symmetric])
    then show ?thesis using step True l j Suc.prems(1) seg by (simp add: rd_def wr_def Let_def)
  next
    case False
    then have l: "utf16_units ?c = [ucast ?c]" by (simp add: utf16_units_def)
    then have j: "j < length buf" using Suc.prems(2) seg by simp
    have "buf[j := a] = take j buf @ [a] @ drop (j + 1) buf" for a using j by (simp add: upd_conv_take_nth_drop)
    then show ?thesis using step False l j Suc.prems(1) seg by (simp add: rd_def wr_def)
  qed
qed simp

lemma segment_split: "segment text i e = xs @ ys \<Longrightarrow> i + length (xs @ ys) = e \<Longrightarrow> segment text (i + length xs) e = ys"
  by (auto simp: segment_def) (metis add.commute add_diff_cancel_left' append_eq_conv_conj diff_add_inverse drop_drop drop_take length_append)

lemma utf16_read_eq: "list_all scalar cs \<Longrightarrow> segment text i (i + length (utf16 cs)) = utf16 cs \<Longrightarrow> i + length (utf16 cs) \<le> length text \<Longrightarrow>
    j + length cs \<le> length buf \<Longrightarrow>
    utf16_count text i (i + length (utf16 cs)) = Some (length cs)
    \<and> utf16_read text i (i + length (utf16 cs)) buf j = Some (take j buf @ cs @ drop (j + length cs) buf, j + length cs)"
proof (induction cs arbitrary: i j buf)
  case Nil
  then show ?case by (simp add: utf16_count.simps utf16_read.simps)
next
  case (Cons c cs)
  let ?e = "i + length (utf16 (c # cs))"
  have rest: "segment text (i + length (utf16_units c)) ?e = utf16 cs"
    by (rule segment_split) (use Cons.prems(2) in auto)
  have e: "?e = i + length (utf16_units c) + length (utf16 cs)" by simp
  have at: "i + k < length text" "text ! (i + k) = utf16_units c ! k" if "k < length (utf16_units c)" for k
  proof -
    show "i + k < length text" using that Cons.prems(3) by simp
    have "segment text i ?e ! k = utf16_units c ! k" using that Cons.prems(2) by (simp add: nth_append)
    then show "text ! (i + k) = utf16_units c ! k" using that Cons.prems(3) by (simp add: segment_def)
  qed
  have b: "(buf[j := c]) = take j buf @ [c] @ drop (Suc j) buf" using Cons.prems(4) by (simp add: upd_conv_take_nth_drop)
  have "j < length buf" using Cons.prems(4) by simp
  then have tk: "take (Suc j) (buf[j := c]) @ cs @ drop (Suc j + length cs) (buf[j := c]) = take j buf @ (c # cs) @ drop (j + length (c # cs)) buf"
    by (simp add: take_Suc_conv_app_nth)
  have IH: "utf16_count text (i + length (utf16_units c)) ?e = Some (length cs)"
    "utf16_read text (i + length (utf16_units c)) ?e (buf[j := c]) (Suc j) = Some (take j buf @ (c # cs) @ drop (j + length (c # cs)) buf, Suc j + length cs)"
    using Cons.IH [of "i + length (utf16_units c)" "Suc j" "buf[j := c]"] Cons.prems rest tk unfolding e by simp_all
  have sc: "scalar c" using Cons.prems(1) by simp
  show ?case
  proof (cases "0xFFFF < c")
    case True
    obtain hi lo where u: "utf16_units c = [hi, lo]" "hi AND 0xF800 = 0xD800" "push_bit 10 (ucast hi AND 0x3FF) + (ucast lo AND 0x3FF) + 0x10000 = c"
      using units_read(1) [OF sc True] by blast
    have t: "text ! i = hi" "text ! Suc i = lo" "i < length text" "Suc i < length text" using at [of 0] at [of 1] u(1) by simp_all
    show ?thesis
      by (subst utf16_count.simps, subst utf16_read.simps) (use IH u t \<open>j < length buf\<close> in \<open>simp add: rd_def wr_def\<close>)
  next
    case False
    obtain u where u: "utf16_units c = [u]" "u AND 0xF800 \<noteq> 0xD800" "ucast u = c" using units_read(2) [OF sc False] by blast
    have t: "text ! i = u" "i < length text" using at [of 0] u(1) by simp_all
    show ?thesis
      by (subst utf16_count.simps, subst utf16_read.simps) (use IH u t \<open>j < length buf\<close> in \<open>simp add: rd_def wr_def\<close>)
  qed
qed

text \<open>
  C19. Converting a string of Unicode scalar values to UTF-16 and back gives the string, with no access outside of
  the buffers given or newly allocated.
\<close>

theorem utf16_round_trip:
  assumes "list_all scalar (segment text start e)" "start \<le> e" "e \<le> length text"
    and "\<And>n. length (malloc16 n) = n" "\<And>n. length (malloc32 n) = n"
  shows "\<exists>u n v. scheme_ucs4_to_utf16 malloc16 text start e buf16 term_size = Some (u, n)
    \<and> scheme_utf16_to_ucs4 malloc32 u 0 n buf32 term_size' = Some (v, e - start)
    \<and> take (e - start) v = segment text start e"
proof -
  let ?cs = "segment text start e"
  let ?n = "length (utf16 ?cs)"
  have len: "length ?cs = e - start" using assms(2,3) by simp
  have se: "start + (e - start) = e" using assms(2) by simp
  have x: "count_extra text start (e - start) = Some (?n - (e - start))" "e - start \<le> ?n"
    using count_extra_eq [of start "e - start" "text"] assms(2,3) unfolding se by simp_all
  let ?b = "if (e - start) + (?n - (e - start)) + term_size < length buf16 then buf16 else malloc16 ((e - start) + (?n - (e - start)) + term_size)"
  have "?n \<le> length ?b" using x(2) assms(4) by auto
  then have w: "utf16_write text start (e - start) ?b 0 = Some (utf16 ?cs @ drop ?n ?b, ?n)"
    using utf16_write_eq [of start "e - start" "text" 0 ?b] assms(2,3) unfolding se by (simp del: length_concat split del: if_split)
  have u: "scheme_ucs4_to_utf16 malloc16 text start e buf16 term_size = Some (utf16 ?cs @ drop ?n ?b, ?n)"
    unfolding scheme_ucs4_to_utf16_def x(1) using w by (simp only: Let_def bind.bind_lunit)
  let ?u = "utf16 ?cs @ drop ?n ?b"
  let ?v = "if length buf32 \<le> e - start + term_size' then malloc32 (e - start + term_size') else buf32"
  have "e - start \<le> length ?v" using assms(5) by auto
  then have "utf16_count ?u 0 ?n = Some (e - start) \<and> utf16_read ?u 0 ?n ?v 0 = Some (?cs @ drop (e - start) ?v, e - start)"
    using utf16_read_eq [OF assms(1), of ?u 0 0 ?v] len by (simp add: segment_def del: length_concat split del: if_split)
  then have v: "scheme_utf16_to_ucs4 malloc32 ?u 0 ?n buf32 term_size' = Some (?cs @ drop (e - start) ?v, e - start)"
    unfolding scheme_utf16_to_ucs4_def by (simp only: Let_def bind.bind_lunit)
  have "take (e - start) (?cs @ drop (e - start) ?v) = ?cs" using len by (metis append_eq_conv_conj)
  then show ?thesis using u v by blast
qed

theorem utf16_round_trip_witness:
  "\<exists>u n v. scheme_ucs4_to_utf16 (\<lambda>n. replicate n 0) [0x41, 0x1F600] 0 2 [] 1 = Some (u, n)
    \<and> scheme_utf16_to_ucs4 (\<lambda>n. replicate n 0) u 0 n [] 1 = Some (v, 2) \<and> take 2 v = [0x41, 0x1F600]"
  using utf16_round_trip [of "[0x41, 0x1F600]" 0 2 "\<lambda>n. replicate n 0" "\<lambda>n. replicate n 0" "[]" 1 "[]" 1]
  by (simp add: segment_def scalar_def)

section \<open>Where the converters go wrong\<close>






end
