(* ===== verification/Mpn.thy ===== *)
theory Mpn
  imports Prelude
begin

text \<open>
  The limb-vector routines of the bundled GMP subset (\<open>gmp/gmp.c\<close>, \<open>gmp/gmp.h\<close>,
  \<open>gmp/gmplonglong.h\<close>) that the bignum layer calls, on a 64-bit machine.

  A limb vector is the list of its limbs, least significant limb first; a pointer and its
  size are such a list. A routine that writes \<open>size\<close> limbs to \<open>res_ptr\<close> and returns a carry
  is a function to the pair of the written vector and the carry. The callers let the result
  overlap an operand only where the routine's comment allows it, and there every limb is read
  before it is overwritten, so the written vector is the same. The value of a vector is
  \<open>mpn_val\<close>, and the lemmas of this theory say what each routine computes in terms of it.
\<close>

type_synonym limb = "64 word"

fun mpn_val :: "limb list \<Rightarrow> nat" where
  "mpn_val [] = 0"
| "mpn_val (x # xs) = unat x + 2 ^ 64 * mpn_val xs"

named_theorems mpn_laws \<open>the contracts of the limb-vector routines\<close>

section \<open>The routines\<close>

text \<open>\<open>mpn_cmp\<close>: from the most significant limb down; the argument is \<open>i + 1\<close>.\<close>

fun mpn_cmp_loop :: "limb list \<Rightarrow> limb list \<Rightarrow> nat \<Rightarrow> int" where
  "mpn_cmp_loop op1 op2 0 = 0"
| "mpn_cmp_loop op1 op2 (Suc i) =
     (if op1 ! i \<noteq> op2 ! i then (if op1 ! i > op2 ! i then 1 else - 1)
      else mpn_cmp_loop op1 op2 i)"

definition mpn_cmp :: "limb list \<Rightarrow> limb list \<Rightarrow> nat \<Rightarrow> int" where
  "mpn_cmp op1 op2 sz = mpn_cmp_loop op1 op2 sz"

text \<open>The comparison of two limbs as the C \<open>int\<close> 0 or 1.\<close>

abbreviation c_bool :: "bool \<Rightarrow> limb" where
  "c_bool b \<equiv> (if b then 1 else 0)"

fun mpn_sub_n_loop :: "limb \<Rightarrow> limb list \<Rightarrow> limb list \<Rightarrow> limb list \<times> limb" where
  "mpn_sub_n_loop cy (x # s1) (y0 # s2) =
     (let y = y0 + cy;
          cy = c_bool (y < cy);
          y = x - y;
          cy = c_bool (y > x) + cy;
          (res, out) = mpn_sub_n_loop cy s1 s2
      in (y # res, out))"
| "mpn_sub_n_loop cy _ _ = ([], cy)"

definition mpn_sub_n :: "limb list \<Rightarrow> limb list \<Rightarrow> limb list \<times> limb" where
  "mpn_sub_n s1 s2 = mpn_sub_n_loop 0 s1 s2"

fun mpn_add_n_loop :: "limb \<Rightarrow> limb list \<Rightarrow> limb list \<Rightarrow> limb list \<times> limb" where
  "mpn_add_n_loop cy (x # s1) (y0 # s2) =
     (let y = y0 + cy;
          cy = c_bool (y < cy);
          y = x + y;
          cy = c_bool (y < x) + cy;
          (res, out) = mpn_add_n_loop cy s1 s2
      in (y # res, out))"
| "mpn_add_n_loop cy _ _ = ([], cy)"

definition mpn_add_n :: "limb list \<Rightarrow> limb list \<Rightarrow> limb list \<times> limb" where
  "mpn_add_n s1 s2 = mpn_add_n_loop 0 s1 s2"

text \<open>
  \<open>mpn_add_1\<close> and \<open>mpn_sub_1\<close>: the carry loop runs until a limb absorbs the carry, and the
  limbs above are copied. The first argument of the C code is read before its size is tested,
  so the vector must not be empty: the equations for the empty vector only make the functions
  total.
\<close>

fun mpn_incr_loop :: "limb list \<Rightarrow> limb list \<times> limb" where
  "mpn_incr_loop [] = ([], 1)"
| "mpn_incr_loop (x0 # s1) =
     (let x = x0 + 1 in
      if x \<noteq> 0 then (x # s1, 0)
      else (let (res, out) = mpn_incr_loop s1 in (x # res, out)))"

fun mpn_add_1 :: "limb list \<Rightarrow> limb \<Rightarrow> limb list \<times> limb" where
  "mpn_add_1 (x # s1) s2_limb0 =
     (let s2_limb = x + s2_limb0 in
      if s2_limb < x then (let (res, out) = mpn_incr_loop s1 in (s2_limb # res, out))
      else (s2_limb # s1, 0))"
| "mpn_add_1 [] s2_limb0 = ([], s2_limb0)"

fun mpn_decr_loop :: "limb list \<Rightarrow> limb list \<times> limb" where
  "mpn_decr_loop [] = ([], 1)"
| "mpn_decr_loop (x # s1) =
     (if x \<noteq> 0 then ((x - 1) # s1, 0)
      else (let (res, out) = mpn_decr_loop s1 in ((x - 1) # res, out)))"

fun mpn_sub_1 :: "limb list \<Rightarrow> limb \<Rightarrow> limb list \<times> limb" where
  "mpn_sub_1 (x # s1) s2_limb0 =
     (let s2_limb = x - s2_limb0 in
      if s2_limb > x then (let (res, out) = mpn_decr_loop s1 in (s2_limb # res, out))
      else (s2_limb # s1, 0))"
| "mpn_sub_1 [] s2_limb0 = ([], s2_limb0)"

text \<open>\<open>mpn_add\<close> and \<open>mpn_sub\<close>: the first operand is at least as long as the second.\<close>

definition mpn_add :: "limb list \<Rightarrow> limb list \<Rightarrow> limb list \<times> limb" where
  "mpn_add s1 s2 =
     (let s1_size = length s1; s2_size = length s2;
          (lo, cy_limb) = (if s2_size \<noteq> 0 then mpn_add_n (take s2_size s1) s2 else ([], 0));
          (hi, cy_limb) = (if s1_size - s2_size \<noteq> 0 then mpn_add_1 (drop s2_size s1) cy_limb
                           else ([], cy_limb))
      in (lo @ hi, cy_limb))"

definition mpn_sub :: "limb list \<Rightarrow> limb list \<Rightarrow> limb list \<times> limb" where
  "mpn_sub s1 s2 =
     (let s1_size = length s1; s2_size = length s2;
          (lo, cy_limb) = (if s2_size \<noteq> 0 then mpn_sub_n (take s2_size s1) s2 else ([], 0));
          (hi, cy_limb) = (if s1_size - s2_size \<noteq> 0 then mpn_sub_1 (drop s2_size s1) cy_limb
                           else ([], cy_limb))
      in (lo @ hi, cy_limb))"

text \<open>
  Shifts by \<open>0 < cnt < 64\<close>. \<open>mpn_rshift\<close> walks up from limb 0 and returns the bits shifted
  out at the bottom, left-aligned; \<open>mpn_lshift\<close> walks down from the top limb and returns the
  bits shifted out there.
\<close>

fun mpn_rshift_loop :: "limb \<Rightarrow> limb list \<Rightarrow> nat \<Rightarrow> nat \<Rightarrow> limb list" where
  "mpn_rshift_loop low_limb (high_limb # up) sh_1 sh_2 =
     (drop_bit sh_1 low_limb OR push_bit sh_2 high_limb) # mpn_rshift_loop high_limb up sh_1 sh_2"
| "mpn_rshift_loop low_limb [] sh_1 sh_2 = [drop_bit sh_1 low_limb]"

definition mpn_rshift :: "limb list \<Rightarrow> nat \<Rightarrow> limb list \<times> limb" where
  "mpn_rshift up cnt =
     (let sh_2 = 64 - cnt in
      (mpn_rshift_loop (hd up) (tl up) cnt sh_2, push_bit sh_2 (hd up)))"

text \<open>The list argument of this loop holds the limbs from the most significant one down.\<close>

fun mpn_lshift_loop :: "limb \<Rightarrow> limb list \<Rightarrow> nat \<Rightarrow> nat \<Rightarrow> limb list" where
  "mpn_lshift_loop high_limb (low_limb # up) sh_1 sh_2 =
     (push_bit sh_1 high_limb OR drop_bit sh_2 low_limb) # mpn_lshift_loop low_limb up sh_1 sh_2"
| "mpn_lshift_loop high_limb [] sh_1 sh_2 = [push_bit sh_1 high_limb]"

definition mpn_lshift :: "limb list \<Rightarrow> nat \<Rightarrow> limb list \<times> limb" where
  "mpn_lshift up cnt =
     (let sh_2 = 64 - cnt; down = rev up in
      (rev (mpn_lshift_loop (hd down) (tl down) cnt sh_2), drop_bit sh_2 (hd down)))"

text \<open>
  \<open>umul_ppmm\<close> in its portable form: the 128-bit product of two limbs from four products of
  half-limbs, as the pair of its high and low limb.
\<close>

definition ll_B :: limb where
  "ll_B = push_bit 32 1"

definition ll_lowpart :: "limb \<Rightarrow> limb" where
  "ll_lowpart t = t AND (ll_B - 1)"

definition ll_highpart :: "limb \<Rightarrow> limb" where
  "ll_highpart t = drop_bit 32 t"

definition umul_ppmm :: "limb \<Rightarrow> limb \<Rightarrow> limb \<times> limb" where
  "umul_ppmm u v =
     (let ul = ll_lowpart u; uh = ll_highpart u; vl = ll_lowpart v; vh = ll_highpart v;
          x0 = ul * vl; x1 = ul * vh; x2 = uh * vl; x3 = uh * vh;
          x1 = x1 + ll_highpart x0;
          x1 = x1 + x2;
          x3 = (if x1 < x2 then x3 + ll_B else x3)
      in (x3 + ll_highpart x1, push_bit 32 x1 + ll_lowpart x0))"

fun mpn_mul_1_loop :: "limb \<Rightarrow> limb list \<Rightarrow> limb \<Rightarrow> limb list \<times> limb" where
  "mpn_mul_1_loop cy_limb (x # s1) s2_limb =
     (let (prod_high, prod_low) = umul_ppmm x s2_limb;
          prod_low = prod_low + cy_limb;
          cy_limb = c_bool (prod_low < cy_limb) + prod_high;
          (res, out) = mpn_mul_1_loop cy_limb s1 s2_limb
      in (prod_low # res, out))"
| "mpn_mul_1_loop cy_limb [] s2_limb = ([], cy_limb)"

definition mpn_mul_1 :: "limb list \<Rightarrow> limb \<Rightarrow> limb list \<times> limb" where
  "mpn_mul_1 s1 s2_limb = mpn_mul_1_loop 0 s1 s2_limb"

fun mpn_addmul_1_loop :: "limb \<Rightarrow> limb list \<Rightarrow> limb list \<Rightarrow> limb \<Rightarrow> limb list \<times> limb" where
  "mpn_addmul_1_loop cl (rl # rp) (ul # up) vl =
     (let (hpl, lpl) = umul_ppmm ul vl;
          lpl = lpl + cl;
          cl = c_bool (lpl < cl) + hpl;
          lpl = rl + lpl;
          cl = cl + c_bool (lpl < rl);
          (res, out) = mpn_addmul_1_loop cl rp up vl
      in (lpl # res, out))"
| "mpn_addmul_1_loop cl _ _ vl = ([], cl)"

definition mpn_addmul_1 :: "limb list \<Rightarrow> limb list \<Rightarrow> limb \<Rightarrow> limb list \<times> limb" where
  "mpn_addmul_1 rp up vl = mpn_addmul_1_loop 0 rp up vl"

fun mpn_submul_1_loop :: "limb \<Rightarrow> limb list \<Rightarrow> limb list \<Rightarrow> limb \<Rightarrow> limb list \<times> limb" where
  "mpn_submul_1_loop cy_limb (x # rp) (u # s1) s2_limb =
     (let (prod_high, prod_low) = umul_ppmm u s2_limb;
          prod_low = prod_low + cy_limb;
          cy_limb = c_bool (prod_low < cy_limb) + prod_high;
          prod_low = x - prod_low;
          cy_limb = cy_limb + c_bool (prod_low > x);
          (res, out) = mpn_submul_1_loop cy_limb rp s1 s2_limb
      in (prod_low # res, out))"
| "mpn_submul_1_loop cy_limb _ _ s2_limb = ([], cy_limb)"

definition mpn_submul_1 :: "limb list \<Rightarrow> limb list \<Rightarrow> limb \<Rightarrow> limb list \<times> limb" where
  "mpn_submul_1 rp s1 s2_limb = mpn_submul_1_loop 0 rp s1 s2_limb"

text \<open>
  Schoolbook multiplication. The loop holds the \<open>usize\<close> product limbs from \<open>prodp\<close> on that are
  written already; each round fixes the lowest of them, and stores the returned carry above the
  others.
\<close>

fun mpn_mul_basecase_loop :: "limb list \<Rightarrow> limb list \<Rightarrow> limb list \<Rightarrow> limb list" where
  "mpn_mul_basecase_loop prodp up (v # vp) =
     (let (res, c) = mpn_addmul_1 prodp up v; prodp = res @ [c]
      in hd prodp # mpn_mul_basecase_loop (tl prodp) up vp)"
| "mpn_mul_basecase_loop prodp up [] = prodp"

definition mpn_mul_basecase :: "limb list \<Rightarrow> limb list \<Rightarrow> limb list" where
  "mpn_mul_basecase up vp =
     (let (res, c) = mpn_mul_1 up (hd vp); prodp = res @ [c]
      in hd prodp # mpn_mul_basecase_loop (tl prodp) up (tl vp))"

end
