(* ===== verification/Bignum.thy ===== *)
theory Bignum
  imports Mpn
begin

text \<open>
  Exact integers that do not fit a machine word, \<open>bignum.c\<close>, on a 64-bit machine
  (\<open>SIXTY_FOUR_BIT_INTEGERS\<close>, so that one \<open>bigdig\<close> is one GMP limb).

  \<^item> A \<open>Scheme_Bignum\<close> is a sign and its digits, least significant digit first;
    \<open>SCHEME_BIGLEN\<close> is the length of the digit list, and what an array holds beyond that
    length is not represented. A \<open>Small_Bignum\<close> is a bignum of at most one digit.
  \<^item> A \<open>Scheme_Object\<close> that is an exact integer is a fixnum, given by the word that
    \<open>SCHEME_INT_VAL\<close> reads from it, or a bignum.
  \<^item> Where the code could read outside of an array the operation returns an option, and
    \<open>None\<close> stands for that read.
\<close>

type_synonym bigdig = limb
type_synonym intptr = "64 word"

record bignum =
  bigpos :: bool
  bigdig :: "limb list"

datatype integer_obj = Fix intptr | Big bignum

abbreviation biglen :: "bignum \<Rightarrow> nat" where
  "biglen b \<equiv> length (bigdig b)"

definition FIRST_BIT_MASK :: limb where
  "FIRST_BIT_MASK = 0x8000000000000000"

definition MAX_TWO_BIT_MASK :: limb where
  "MAX_TWO_BIT_MASK = 0xC000000000000000"

definition ALL_ONES :: limb where
  "ALL_ONES = NOT 0"

definition WORD_SIZE :: nat where
  "WORD_SIZE = 64"

text \<open>
  \<open>scheme_make_integer\<close> shifts the word left to make room for the tag bit, and
  \<open>SCHEME_INT_VAL\<close> shifts it back arithmetically.
\<close>

definition scheme_make_integer :: "intptr \<Rightarrow> integer_obj" where
  "scheme_make_integer i = Fix (signed_drop_bit 1 (push_bit 1 i OR 1))"

section \<open>Creation and conversion\<close>

definition scheme_make_small_bignum :: "intptr \<Rightarrow> bignum" where
  "scheme_make_small_bignum v =
     (let bv = (if sint v < 0 then - v else v) in
      \<lparr>bigpos = (0 \<le> sint v), bigdig = (if bv = 0 then [] else [bv])\<rparr>)"

definition scheme_make_bignum :: "intptr \<Rightarrow> bignum" where
  "scheme_make_bignum v = scheme_make_small_bignum v"

definition scheme_make_bignum_from_unsigned :: "uintptr \<Rightarrow> bignum" where
  "scheme_make_bignum_from_unsigned v = \<lparr>bigpos = True, bigdig = (if v = 0 then [] else [v])\<rparr>"

definition scheme_make_bignum_from_long_long :: "intptr \<Rightarrow> bignum" where
  "scheme_make_bignum_from_long_long v = scheme_make_bignum v"

definition scheme_make_bignum_from_unsigned_long_long :: "uintptr \<Rightarrow> bignum" where
  "scheme_make_bignum_from_unsigned_long_long v = scheme_make_bignum_from_unsigned v"

definition bignum_one :: bignum where
  "bignum_one = scheme_make_bignum 1"

text \<open>The conversions return whether the number fits; here \<open>None\<close> stands for the result 0.\<close>

definition scheme_bignum_get_int_val :: "bignum \<Rightarrow> intptr option" where
  "scheme_bignum_get_int_val o1 =
     (if biglen o1 > 1 then None
      else if biglen o1 = 0 then Some 0
      else if bigdig o1 ! 0 = FIRST_BIT_MASK \<and> \<not> bigpos o1 then Some (bigdig o1 ! 0)
      else if bigdig o1 ! 0 AND FIRST_BIT_MASK \<noteq> 0 then None
      else if bigpos o1 then Some (bigdig o1 ! 0)
      else Some (- (bigdig o1 ! 0)))"

definition scheme_bignum_get_unsigned_int_val :: "bignum \<Rightarrow> uintptr option" where
  "scheme_bignum_get_unsigned_int_val o1 =
     (if biglen o1 > 1 \<or> \<not> bigpos o1 then None
      else if biglen o1 = 0 then Some 0
      else Some (bigdig o1 ! 0))"

definition MAX_BN_SIZE_FOR_LL :: nat where
  "MAX_BN_SIZE_FOR_LL = 1"

definition scheme_bignum_get_long_long_val :: "bignum \<Rightarrow> intptr option" where
  "scheme_bignum_get_long_long_val o1 =
     (if biglen o1 > MAX_BN_SIZE_FOR_LL then None
      else if biglen o1 = 0 then Some 0
      else if bigdig o1 ! (MAX_BN_SIZE_FOR_LL - 1) = FIRST_BIT_MASK \<and> \<not> bigpos o1
        then Some (push_bit 63 1)
      else if bigdig o1 ! (MAX_BN_SIZE_FOR_LL - 1) AND FIRST_BIT_MASK \<noteq> 0 then None
      else let v2 = bigdig o1 ! 0;
               v2 = (if biglen o1 > 1 then v2 OR push_bit 32 (bigdig o1 ! 1) else v2)
           in Some (if \<not> bigpos o1 then - v2 else v2))"

definition scheme_bignum_get_unsigned_long_long_val :: "bignum \<Rightarrow> uintptr option" where
  "scheme_bignum_get_unsigned_long_long_val o1 =
     (if biglen o1 > MAX_BN_SIZE_FOR_LL \<or> \<not> bigpos o1 then None
      else if biglen o1 = 0 then Some 0
      else let v2 = bigdig o1 ! 0
           in Some (if biglen o1 > 1 then v2 OR push_bit 32 (bigdig o1 ! 1) else v2))"

definition scheme_bignum_normalize :: "bignum \<Rightarrow> integer_obj" where
  "scheme_bignum_normalize o1 =
     (case scheme_bignum_get_int_val o1 of
        Some v \<Rightarrow>
          (let t = v AND MAX_TWO_BIT_MASK in
           if t = 0 \<or> t = MAX_TWO_BIT_MASK then scheme_make_integer v else Big o1)
      | None \<Rightarrow> Big o1)"

definition make_single_bigdig_result :: "bool \<Rightarrow> limb \<Rightarrow> integer_obj" where
  "make_single_bigdig_result pos d = scheme_bignum_normalize \<lparr>bigpos = pos, bigdig = [d]\<rparr>"

definition bignum_copy :: "bignum \<Rightarrow> limb \<Rightarrow> bignum" where
  "bignum_copy a msd =
     \<lparr>bigpos = bigpos a, bigdig = (if msd \<noteq> 0 then bigdig a @ [msd] else bigdig a)\<rparr>"

section \<open>Comparison, negation\<close>

definition scheme_bignum_eq :: "bignum \<Rightarrow> bignum \<Rightarrow> bool" where
  "scheme_bignum_eq a b =
     (let a_len = biglen a; b_len = biglen b in
      if a_len = 0 \<and> b_len = 0 then True
      else if a_len = b_len \<and> bigpos a = bigpos b then mpn_cmp (bigdig a) (bigdig b) b_len = 0
      else False)"

definition bignum_abs_cmp :: "bignum \<Rightarrow> bignum \<Rightarrow> int" where
  "bignum_abs_cmp a b =
     (let a_len = biglen a; b_len = biglen b in
      if a_len > b_len then 1
      else if a_len < b_len then - 1
      else if a_len = 0 then 0
      else mpn_cmp (bigdig a) (bigdig b) b_len)"

definition scheme_bignum_lt :: "bignum \<Rightarrow> bignum \<Rightarrow> bool" where
  "scheme_bignum_lt a b =
     (let a_pos = bigpos a; b_pos = bigpos b in
      if \<not> a_pos \<and> b_pos then True
      else if a_pos \<and> \<not> b_pos then False
      else let res = bignum_abs_cmp a b in
           if \<not> a_pos then res > 0 else res < 0)"

definition scheme_bignum_gt :: "bignum \<Rightarrow> bignum \<Rightarrow> bool" where
  "scheme_bignum_gt a b = scheme_bignum_lt b a"

definition scheme_bignum_le :: "bignum \<Rightarrow> bignum \<Rightarrow> bool" where
  "scheme_bignum_le a b = (\<not> scheme_bignum_gt a b)"

definition scheme_bignum_ge :: "bignum \<Rightarrow> bignum \<Rightarrow> bool" where
  "scheme_bignum_ge a b = (\<not> scheme_bignum_lt a b)"

definition scheme_bignum_negate :: "bignum \<Rightarrow> bignum" where
  "scheme_bignum_negate n = \<lparr>bigpos = (\<not> bigpos n), bigdig = bigdig n\<rparr>"

definition scheme_bignum_copy :: "bignum \<Rightarrow> bignum" where
  "scheme_bignum_copy n = \<lparr>bigpos = bigpos n, bigdig = bigdig n\<rparr>"

definition scheme_bignum_max :: "bignum \<Rightarrow> bignum \<Rightarrow> integer_obj" where
  "scheme_bignum_max a b = scheme_bignum_normalize (if scheme_bignum_lt a b then b else a)"

definition scheme_bignum_min :: "bignum \<Rightarrow> bignum \<Rightarrow> integer_obj" where
  "scheme_bignum_min a b = scheme_bignum_normalize (if scheme_bignum_lt a b then a else b)"

section \<open>Addition, subtraction, multiplication\<close>

definition allocate_bigdig_array :: "nat \<Rightarrow> limb list" where
  "allocate_bigdig_array n = replicate n 0"

fun bigdig_length :: "limb list \<Rightarrow> nat \<Rightarrow> nat" where
  "bigdig_length array 0 = 0"
| "bigdig_length array (Suc n) = (if array ! n = 0 then bigdig_length array n else Suc n)"

text \<open>The bignum on an array whose length is set by \<open>bigdig_length\<close>.\<close>

definition set_digits :: "bool \<Rightarrow> limb list \<Rightarrow> bignum" where
  "set_digits pos array = \<lparr>bigpos = pos, bigdig = take (bigdig_length array (length array)) array\<rparr>"

definition bignum_add_sub :: "bignum \<Rightarrow> bignum \<Rightarrow> bool \<Rightarrow> integer_obj" where
  "bignum_add_sub a b sub =
     (let a_size = biglen a; b_size = biglen b;
          a_pos = bigpos a; b_pos = (bigpos b \<noteq> sub);
          a_digs = bigdig a; b_digs = bigdig b
      in if b_size = 0 then scheme_bignum_normalize (bignum_copy a 0)
         else if a_size = 0 then scheme_bignum_normalize ((bignum_copy b 0)\<lparr>bigpos := b_pos\<rparr>)
         else if a_pos = b_pos then
           (let (o_digs, carry) = (if a_size > b_size then mpn_add a_digs b_digs else mpn_add b_digs a_digs);
                o1 = \<lparr>bigpos = a_pos, bigdig = o_digs\<rparr>
            in scheme_bignum_normalize (if carry \<noteq> 0 then bignum_copy o1 1 else o1))
         else
           (let cmp = mpn_cmp a_digs b_digs a_size in
            if a_size = b_size \<and> cmp = 0 then scheme_make_integer 0
            else let sw = (if a_size > b_size then False
                           else if b_size > a_size then True
                           else \<not> cmp > 0);
                     o_digs = fst (if sw then mpn_sub b_digs a_digs else mpn_sub a_digs b_digs)
                 in scheme_bignum_normalize (set_digits (sw \<noteq> a_pos) o_digs)))"

definition scheme_bignum_add :: "bignum \<Rightarrow> bignum \<Rightarrow> integer_obj" where
  "scheme_bignum_add a b = bignum_add_sub a b False"

definition scheme_bignum_subtract :: "bignum \<Rightarrow> bignum \<Rightarrow> integer_obj" where
  "scheme_bignum_subtract a b = bignum_add_sub a b True"

definition scheme_bignum_add1 :: "bignum \<Rightarrow> integer_obj" where
  "scheme_bignum_add1 n = bignum_add_sub n bignum_one False"

definition scheme_bignum_sub1 :: "bignum \<Rightarrow> integer_obj" where
  "scheme_bignum_sub1 n = bignum_add_sub n bignum_one True"

text \<open>
  The loops over the low zero digits test the digit before the bound, so on an array of zeros
  they read one digit past its end.
\<close>

fun skip_zero_digits :: "limb list \<Rightarrow> nat option" where
  "skip_zero_digits [] = None"
| "skip_zero_digits (d # ds) = (if d = 0 then map_option Suc (skip_zero_digits ds) else Some 0)"

text \<open>
  \<open>mpn_mul\<close> is the multiplication of limb vectors, with the longer operand first; above the
  Karatsuba threshold GMP has faster routines than \<open>mpn_mul_basecase\<close>.
\<close>

definition bignum_multiply ::
  "(limb list \<Rightarrow> limb list \<Rightarrow> limb list) \<Rightarrow> bignum \<Rightarrow> bignum \<Rightarrow> bool \<Rightarrow> integer_obj option" where
  "bignum_multiply mpn_mul a b norm =
     (let a_size = biglen a; b_size = biglen b in
      if a_size = 0 \<or> b_size = 0 then
        Some (if norm then scheme_make_integer 0 else Big (scheme_make_bignum 0))
      else do {
        i \<leftarrow> skip_zero_digits (bigdig a);
        j \<leftarrow> skip_zero_digits (bigdig b);
        let prod = (if a_size - i > b_size - j
                    then mpn_mul (drop i (bigdig a)) (drop j (bigdig b))
                    else mpn_mul (drop j (bigdig b)) (drop i (bigdig a)));
        let o1 = set_digits (bigpos a = bigpos b) (replicate (i + j) 0 @ prod);
        Some (if norm then scheme_bignum_normalize o1 else Big o1)
      })"

definition scheme_bignum_multiply ::
  "(limb list \<Rightarrow> limb list \<Rightarrow> limb list) \<Rightarrow> bignum \<Rightarrow> bignum \<Rightarrow> integer_obj option" where
  "scheme_bignum_multiply mpn_mul a b = bignum_multiply mpn_mul a b True"

section \<open>Bitwise operations and shifts\<close>

definition bitop :: "nat \<Rightarrow> limb \<Rightarrow> limb \<Rightarrow> limb" where
  "bitop op a_val b_val =
     (if op = 0 then a_val AND b_val else if op = 1 then a_val OR b_val else a_val XOR b_val)"

text \<open>
  One digit of the two's complement of a negative number: the digit is complemented and the
  carry from the digits below is added. For a positive number the digit and the carry are kept.
\<close>

definition complement_digit :: "bool \<Rightarrow> limb \<Rightarrow> limb \<Rightarrow> limb \<times> limb" where
  "complement_digit pos carry_out val =
     (if \<not> pos then
        (let carry_in = carry_out;
             carry_out = (if carry_in = 1 \<and> val = 0 then 1 else 0)
         in (NOT val + carry_in, carry_out))
      else (val, carry_out))"

text \<open>
  The loop of \<open>do_bitop\<close> for the remaining \<open>n\<close> result digits, on the digits of the operands that
  are left and the three carries; \<open>b\<close> may run out of digits, and then has the digits of its
  sign.
\<close>

fun do_bitop_loop ::
  "nat \<Rightarrow> bool \<Rightarrow> bool \<Rightarrow> bool \<Rightarrow> nat \<Rightarrow> limb list \<Rightarrow> limb list \<Rightarrow> limb \<Rightarrow> limb \<Rightarrow> limb
   \<Rightarrow> (limb list \<times> limb) option" where
  "do_bitop_loop op a_pos b_pos res_pos 0 a_digs b_digs ca cb cr = Some ([], cr)"
| "do_bitop_loop op a_pos b_pos res_pos (Suc n) a_digs b_digs ca cb cr =
     (case a_digs of
        [] \<Rightarrow> None
      | a0 # a_digs \<Rightarrow>
          (let (a_val, ca) = complement_digit a_pos ca a0;
               (b_val, cb) = (case b_digs of
                   b0 # _ \<Rightarrow> complement_digit b_pos cb b0
                 | [] \<Rightarrow> (if b_pos then 0 else ALL_ONES, cb));
               (res_val, cr) = complement_digit res_pos cr (bitop op a_val b_val)
           in do {
             (res, out) \<leftarrow> do_bitop_loop op a_pos b_pos res_pos n a_digs (tl b_digs) ca cb cr;
             Some (res_val # res, out)
           }))"

definition do_bitop :: "bignum \<Rightarrow> bignum \<Rightarrow> nat \<Rightarrow> integer_obj option" where
  "do_bitop a b op =
     (let a_size = biglen a; b_size = biglen b in
      if a_size = 0 then Some (scheme_make_integer 0)
      else if b_size = 0 then
        Some (if op = 0 then scheme_make_integer 0 else scheme_bignum_normalize (bignum_copy a 0))
      else
        (let a_pos = bigpos a; b_pos = bigpos b;
             (res_pos, res_alloc) =
               (if op = 0 then (a_pos \<or> b_pos, if b_pos then b_size else a_size)
                else if op = 1 then (a_pos \<and> b_pos, if b_pos then a_size else b_size)
                else (a_pos = b_pos, a_size))
         in do {
           (res_digs, carry_out_res) \<leftarrow> do_bitop_loop op a_pos b_pos res_pos res_alloc (bigdig a) (bigdig b) 1 1 1;
           let res_digs = (if \<not> res_pos \<and> carry_out_res = 1 then replicate res_alloc 0 @ [1]
                           else take (bigdig_length res_digs res_alloc) res_digs);
           Some (if length res_digs = 0 then scheme_make_integer 0
                 else if length res_digs = 1 then make_single_bigdig_result res_pos (res_digs ! 0)
                 else Big \<lparr>bigpos = res_pos, bigdig = res_digs\<rparr>)
         }))"

definition scheme_bignum_and :: "bignum \<Rightarrow> bignum \<Rightarrow> integer_obj option" where
  "scheme_bignum_and a b = (if biglen a > biglen b then do_bitop a b 0 else do_bitop b a 0)"

definition scheme_bignum_or :: "bignum \<Rightarrow> bignum \<Rightarrow> integer_obj option" where
  "scheme_bignum_or a b = (if biglen a > biglen b then do_bitop a b 1 else do_bitop b a 1)"

definition scheme_bignum_xor :: "bignum \<Rightarrow> bignum \<Rightarrow> integer_obj option" where
  "scheme_bignum_xor a b = (if biglen a > biglen b then do_bitop a b 2 else do_bitop b a 2)"

text \<open>
  \<open>scheme_bignum_shift\<close>: a left shift by \<open>shift > 0\<close>, a right shift, rounding towards minus
  infinity, by \<open>- shift\<close> otherwise. The right shift works on the magnitude, and adds 1 to it when
  a bit was lost from a negative number. The shift is a machine integer other than the least one,
  which C cannot negate; it is an \<open>int\<close> here.
\<close>

definition shift_right_digits :: "bignum \<Rightarrow> nat \<Rightarrow> limb list" where
  "shift_right_digits n shift =
     (let shift_words = shift div WORD_SIZE; shift_bits = shift mod WORD_SIZE;
          n_size = biglen n;
          res_alloc = n_size - shift_words;
          res_alloc = (if shift_bits = 0 \<and> \<not> bigpos n then res_alloc + 1 else res_alloc);
          shifted_off_one = (\<not> bigpos n \<and> (\<exists>d \<in> set (take shift_words (bigdig n)). d \<noteq> 0));
          res_digs = drop shift_words (bigdig n) @ replicate (res_alloc - (n_size - shift_words)) 0;
          (res_digs, shift_out) = (if shift_bits \<noteq> 0 then mpn_rshift res_digs shift_bits else (res_digs, 0))
      in if \<not> bigpos n \<and> (shifted_off_one \<or> shift_out \<noteq> 0) then fst (mpn_add_1 res_digs 1)
         else res_digs)"

definition shift_left_digits :: "bignum \<Rightarrow> nat \<Rightarrow> limb list" where
  "shift_left_digits n shift =
     (let shift_words = shift div WORD_SIZE; shift_bits = shift mod WORD_SIZE;
          res_digs = bigdig n @ (if shift_bits \<noteq> 0 then [0] else [])
      in replicate shift_words 0 @ (if shift_bits \<noteq> 0 then fst (mpn_lshift res_digs shift_bits) else res_digs))"

definition scheme_bignum_shift :: "bignum \<Rightarrow> int \<Rightarrow> integer_obj" where
  "scheme_bignum_shift n shift =
     (if biglen n = 0 then scheme_make_integer 0
      else if shift = 0 then scheme_bignum_normalize (bignum_copy n 0)
      else if shift < 0 \<and> nat (- shift) div WORD_SIZE \<ge> biglen n then
        (if bigpos n then scheme_make_integer 0 else scheme_make_integer (- 1))
      else
        (let res_digs = (if shift < 0 then shift_right_digits n (nat (- shift))
                         else shift_left_digits n (nat shift));
             o1 = set_digits (bigpos n) res_digs
         in if biglen o1 = 0 then scheme_make_integer 0
            else if biglen o1 = 1 then make_single_bigdig_result (bigpos n) (bigdig o1 ! 0)
            else scheme_bignum_normalize o1))"

end
