(* ===== verification/Integers.thy ===== *)
theory Integers
  imports Bignum "HOL-Library.Signed_Division"
begin

text \<open>
  Exact-integer arithmetic over both representations: the fixnum paths of \<open>numarith.c\<close>,
  \<open>numcomp.c\<close> and \<open>number.c\<close>, which test whether the machine result is right and fall back to
  bignums when it is not, the dispatch of the macros of \<open>nummacs.h\<close> on the two kinds of
  exact integer, and exponentiation. The other number types that the macros handle are not
  modelled; every argument here is an exact integer.
\<close>

abbreviation SCHEME_INT_VAL :: "integer_obj \<Rightarrow> intptr" where
  "SCHEME_INT_VAL x \<equiv> (case x of Fix i \<Rightarrow> i | Big _ \<Rightarrow> 0)"

section \<open>Conversion\<close>

definition scheme_make_integer_value :: "intptr \<Rightarrow> integer_obj" where
  "scheme_make_integer_value i =
     (let o1 = scheme_make_integer i in
      if SCHEME_INT_VAL o1 = i then o1 else Big (scheme_make_bignum i))"

definition scheme_make_integer_value_from_unsigned :: "uintptr \<Rightarrow> integer_obj" where
  "scheme_make_integer_value_from_unsigned i =
     (let o1 = scheme_make_integer i in
      if 0 \<le> sint (SCHEME_INT_VAL o1) \<and> SCHEME_INT_VAL o1 = i then o1
      else Big (scheme_make_bignum_from_unsigned i))"

definition scheme_get_int_val :: "integer_obj \<Rightarrow> intptr option" where
  "scheme_get_int_val o1 = (case o1 of Fix i \<Rightarrow> Some i | Big b \<Rightarrow> scheme_bignum_get_int_val b)"

definition scheme_get_unsigned_int_val :: "integer_obj \<Rightarrow> uintptr option" where
  "scheme_get_unsigned_int_val o1 =
     (case o1 of Fix i \<Rightarrow> (if sint i < 0 then None else Some i)
      | Big b \<Rightarrow> scheme_bignum_get_unsigned_int_val b)"

section \<open>Addition, subtraction, multiplication\<close>

definition ADD_slow :: "intptr \<Rightarrow> intptr \<Rightarrow> integer_obj" where
  "ADD_slow a b = scheme_bignum_add (scheme_make_small_bignum a) (scheme_make_small_bignum b)"

definition ADD :: "intptr \<Rightarrow> intptr \<Rightarrow> integer_obj" where
  "ADD a b =
     (let r = a + b; o1 = scheme_make_integer r; r = SCHEME_INT_VAL o1 in
      if b = r - a then o1 else ADD_slow a b)"

definition SUBTRACT_slow :: "intptr \<Rightarrow> intptr \<Rightarrow> integer_obj" where
  "SUBTRACT_slow a b = scheme_bignum_subtract (scheme_make_small_bignum a) (scheme_make_small_bignum b)"

definition SUBTRACT :: "intptr \<Rightarrow> intptr \<Rightarrow> integer_obj" where
  "SUBTRACT a b =
     (let r = a - b; o1 = scheme_make_integer r; r = SCHEME_INT_VAL o1 in
      if a = r + b then o1 else SUBTRACT_slow a b)"

text \<open>The C division \<open>r / b\<close> truncates, as \<open>sdiv\<close> on \<open>int\<close> does.\<close>

definition MULTIPLY ::
  "(limb list \<Rightarrow> limb list \<Rightarrow> limb list) \<Rightarrow> intptr \<Rightarrow> intptr \<Rightarrow> integer_obj option" where
  "MULTIPLY mpn_mul a b =
     (if b = 0 then Some (scheme_make_integer 0)
      else let r = a * b; o1 = scheme_make_integer r; r = SCHEME_INT_VAL o1 in
           if (if b = - 1 then a = r * - 1 else sint a = sint r sdiv sint b) then Some o1
           else scheme_bignum_multiply mpn_mul (scheme_make_small_bignum a) (scheme_make_small_bignum b))"

definition scheme_bin_plus :: "integer_obj \<Rightarrow> integer_obj \<Rightarrow> integer_obj" where
  "scheme_bin_plus n1 n2 =
     (case n1 of
        Fix a \<Rightarrow>
          (case n2 of
             Fix b \<Rightarrow> ADD a b
           | Big y \<Rightarrow> if a = 0 then n2 else scheme_bignum_add (scheme_make_small_bignum a) y)
      | Big x \<Rightarrow>
          (case n2 of
             Fix b \<Rightarrow> if b = 0 then n1 else scheme_bignum_add x (scheme_make_small_bignum b)
           | Big y \<Rightarrow> scheme_bignum_add x y))"

definition scheme_bin_minus :: "integer_obj \<Rightarrow> integer_obj \<Rightarrow> integer_obj" where
  "scheme_bin_minus n1 n2 =
     (case n1 of
        Fix a \<Rightarrow>
          (case n2 of
             Fix b \<Rightarrow> SUBTRACT a b
           | Big y \<Rightarrow> scheme_bignum_subtract (scheme_make_small_bignum a) y)
      | Big x \<Rightarrow>
          (case n2 of
             Fix b \<Rightarrow> if b = 0 then n1 else scheme_bignum_subtract x (scheme_make_small_bignum b)
           | Big y \<Rightarrow> scheme_bignum_subtract x y))"

definition scheme_bin_mult ::
  "(limb list \<Rightarrow> limb list \<Rightarrow> limb list) \<Rightarrow> integer_obj \<Rightarrow> integer_obj \<Rightarrow> integer_obj option" where
  "scheme_bin_mult mpn_mul n1 n2 =
     (case n1 of
        Fix a \<Rightarrow>
          (case n2 of
             Fix b \<Rightarrow> MULTIPLY mpn_mul a b
           | Big y \<Rightarrow> if a = 0 then Some (scheme_make_integer 0) else if a = 1 then Some n2
                     else scheme_bignum_multiply mpn_mul (scheme_make_small_bignum a) y)
      | Big x \<Rightarrow>
          (case n2 of
             Fix b \<Rightarrow> if b = 0 then Some (scheme_make_integer 0) else if b = 1 then Some n1
                     else scheme_bignum_multiply mpn_mul x (scheme_make_small_bignum b)
           | Big y \<Rightarrow> scheme_bignum_multiply mpn_mul x y))"

section \<open>Comparison\<close>

definition scheme_bin_eq :: "integer_obj \<Rightarrow> integer_obj \<Rightarrow> bool" where
  "scheme_bin_eq n1 n2 =
     (case n1 of
        Fix a \<Rightarrow> (case n2 of Fix b \<Rightarrow> sint a = sint b | Big y \<Rightarrow> scheme_bignum_eq (scheme_make_small_bignum a) y)
      | Big x \<Rightarrow> (case n2 of Fix b \<Rightarrow> scheme_bignum_eq x (scheme_make_small_bignum b) | Big y \<Rightarrow> scheme_bignum_eq x y))"

definition scheme_bin_lt :: "integer_obj \<Rightarrow> integer_obj \<Rightarrow> bool" where
  "scheme_bin_lt n1 n2 =
     (case n1 of
        Fix a \<Rightarrow> (case n2 of Fix b \<Rightarrow> sint a < sint b | Big y \<Rightarrow> scheme_bignum_lt (scheme_make_small_bignum a) y)
      | Big x \<Rightarrow> (case n2 of Fix b \<Rightarrow> scheme_bignum_lt x (scheme_make_small_bignum b) | Big y \<Rightarrow> scheme_bignum_lt x y))"

definition scheme_bin_gt :: "integer_obj \<Rightarrow> integer_obj \<Rightarrow> bool" where
  "scheme_bin_gt n1 n2 =
     (case n1 of
        Fix a \<Rightarrow> (case n2 of Fix b \<Rightarrow> sint a > sint b | Big y \<Rightarrow> scheme_bignum_gt (scheme_make_small_bignum a) y)
      | Big x \<Rightarrow> (case n2 of Fix b \<Rightarrow> scheme_bignum_gt x (scheme_make_small_bignum b) | Big y \<Rightarrow> scheme_bignum_gt x y))"

definition scheme_bin_lt_eq :: "integer_obj \<Rightarrow> integer_obj \<Rightarrow> bool" where
  "scheme_bin_lt_eq n1 n2 =
     (case n1 of
        Fix a \<Rightarrow> (case n2 of Fix b \<Rightarrow> sint a \<le> sint b | Big y \<Rightarrow> scheme_bignum_le (scheme_make_small_bignum a) y)
      | Big x \<Rightarrow> (case n2 of Fix b \<Rightarrow> scheme_bignum_le x (scheme_make_small_bignum b) | Big y \<Rightarrow> scheme_bignum_le x y))"

definition scheme_bin_gt_eq :: "integer_obj \<Rightarrow> integer_obj \<Rightarrow> bool" where
  "scheme_bin_gt_eq n1 n2 =
     (case n1 of
        Fix a \<Rightarrow> (case n2 of Fix b \<Rightarrow> sint a \<ge> sint b | Big y \<Rightarrow> scheme_bignum_ge (scheme_make_small_bignum a) y)
      | Big x \<Rightarrow> (case n2 of Fix b \<Rightarrow> scheme_bignum_ge x (scheme_make_small_bignum b) | Big y \<Rightarrow> scheme_bignum_ge x y))"

definition scheme_is_negative :: "integer_obj \<Rightarrow> bool" where
  "scheme_is_negative o1 = (case o1 of Fix i \<Rightarrow> sint i < 0 | Big b \<Rightarrow> \<not> bigpos b)"

section \<open>Bitwise operations\<close>

text \<open>\<open>GEN_BIN_INT_OP\<close>, for the C operator and the bignum operation of each instance.\<close>

definition GEN_BIN_INT_OP ::
  "(limb \<Rightarrow> limb \<Rightarrow> limb) \<Rightarrow> (bignum \<Rightarrow> bignum \<Rightarrow> integer_obj option) \<Rightarrow> integer_obj \<Rightarrow> integer_obj \<Rightarrow> integer_obj option" where
  "GEN_BIN_INT_OP op bigop n1 n2 =
     (case n1 of
        Fix a \<Rightarrow>
          (case n2 of
             Fix b \<Rightarrow> Some (scheme_make_integer (op a b))
           | Big y \<Rightarrow> bigop (scheme_make_small_bignum a) y)
      | Big x \<Rightarrow>
          (case n2 of
             Fix b \<Rightarrow> bigop x (scheme_make_small_bignum b)
           | Big y \<Rightarrow> bigop x y))"

definition bin_bitwise_and :: "integer_obj \<Rightarrow> integer_obj \<Rightarrow> integer_obj option" where
  "bin_bitwise_and = GEN_BIN_INT_OP (AND) scheme_bignum_and"

definition bin_bitwise_or :: "integer_obj \<Rightarrow> integer_obj \<Rightarrow> integer_obj option" where
  "bin_bitwise_or = GEN_BIN_INT_OP (OR) scheme_bignum_or"

definition bin_bitwise_xor :: "integer_obj \<Rightarrow> integer_obj \<Rightarrow> integer_obj option" where
  "bin_bitwise_xor = GEN_BIN_INT_OP (XOR) scheme_bignum_xor"

definition scheme_bignum_not :: "bignum \<Rightarrow> integer_obj" where
  "scheme_bignum_not a =
     (case scheme_bignum_add1 a of
        Big o1 \<Rightarrow> scheme_bignum_normalize (o1\<lparr>bigpos := \<not> bigpos o1\<rparr>)
      | Fix i \<Rightarrow> scheme_bin_minus (scheme_make_integer 0) (Fix i))"

definition bitwise_not :: "integer_obj \<Rightarrow> integer_obj" where
  "bitwise_not o1 = (case o1 of Fix a \<Rightarrow> scheme_make_integer (NOT a) | Big b \<Rightarrow> scheme_bignum_not b)"

definition MAX_SHIFT_TRY :: int where
  "MAX_SHIFT_TRY = 61"

definition MAX_SHIFT_EVER :: int where
  "MAX_SHIFT_EVER = 64"

text \<open>
  \<open>arithmetic-shift\<close>: errors are the out-of-memory exception for a shift by a positive bignum, and
  the refusal to fold a big shift at compile time.
\<close>

datatype shift_error = Out_of_memory | Too_big_to_fold

definition scheme_bitwise_shift :: "bool \<Rightarrow> integer_obj \<Rightarrow> integer_obj \<Rightarrow> shift_error + integer_obj" where
  "scheme_bitwise_shift constant_folding v so =
     (case so of
        Big s \<Rightarrow>
          (if \<not> bigpos s then
             Inr (if scheme_is_negative v then scheme_make_integer (- 1) else scheme_make_integer 0)
           else Inl Out_of_memory)
      | Fix sw \<Rightarrow>
          (let shift = sint sw in
           if shift = 0 then Inr v
           else
             let slow = (\<lambda>b. if constant_folding \<and> shift > 100 then Inl Too_big_to_fold
                             else Inr (scheme_bignum_shift b shift)) in
             (case v of
                Big b \<Rightarrow> slow b
              | Fix i \<Rightarrow>
                  (if i = 0 then Inr v
                   else if sint i > 0 \<and> shift < 0 then
                     (if - shift < MAX_SHIFT_EVER then Inr (scheme_make_integer (signed_drop_bit (nat (- shift)) i))
                      else Inr (scheme_make_integer 0))
                   else if sint i > 0 \<and> shift \<le> MAX_SHIFT_TRY \<and>
                      (let n = push_bit (nat shift) i in
                       sint n > 0 \<and> signed_drop_bit (nat shift) (SCHEME_INT_VAL (scheme_make_integer n)) = i)
                     then Inr (scheme_make_integer (push_bit (nat shift) i))
                   else slow (scheme_make_bignum i)))))"

section \<open>Exponentiation and square root\<close>

text \<open>
  \<open>do_power\<close>: the first loop finds the highest bit of the exponent; the argument of
  \<open>highest_bit\<close> is \<open>i + 1\<close>. It shifts before it tests \<open>i \<ge> 0\<close>, so for the exponent 0 it shifts by
  a negative amount, which has no result in C.
\<close>

fun highest_bit :: "uintptr \<Rightarrow> nat \<Rightarrow> nat option" where
  "highest_bit b 0 = None"
| "highest_bit b (Suc i) = (if bit b i then Some (Suc i) else highest_bit b i)"

fun power_loop ::
  "(limb list \<Rightarrow> limb list \<Rightarrow> limb list) \<Rightarrow> integer_obj \<Rightarrow> uintptr \<Rightarrow> nat \<Rightarrow> integer_obj \<Rightarrow> integer_obj option" where
  "power_loop mpn_mul a b 0 result = Some result"
| "power_loop mpn_mul a b (Suc i) result = do {
     result \<leftarrow> scheme_bin_mult mpn_mul result result;
     result \<leftarrow> (if bit b i then scheme_bin_mult mpn_mul a result else Some result);
     power_loop mpn_mul a b i result
   }"

definition do_power ::
  "(limb list \<Rightarrow> limb list \<Rightarrow> limb list) \<Rightarrow> integer_obj \<Rightarrow> uintptr \<Rightarrow> integer_obj option" where
  "do_power mpn_mul a b = do {
     i \<leftarrow> highest_bit b 64;
     power_loop mpn_mul a b i (scheme_make_integer 1)
   }"

definition SQRT_BIT_MAX :: nat where
  "SQRT_BIT_MAX = 31"

fun sqrt_loop :: "uintptr \<Rightarrow> nat \<Rightarrow> uintptr \<Rightarrow> uintptr \<Rightarrow> uintptr \<times> uintptr" where
  "sqrt_loop n 0 root square = (root, square)"
| "sqrt_loop n (Suc i) root square =
     (let try_root = root OR push_bit i 1; try_square = try_root * try_root in
      if try_square \<le> n then sqrt_loop n i try_root try_square else sqrt_loop n i root square)"

definition fixnum_sqrt :: "uintptr \<Rightarrow> uintptr \<times> uintptr" where
  "fixnum_sqrt n = (let (root, square) = sqrt_loop n (Suc SQRT_BIT_MAX) 0 0 in (root, n - square))"

end
