(* ===== verification/MpnLaws.thy ===== *)
theory MpnLaws
  imports Mpn
begin

text \<open>
  What the limb-vector routines compute: each contract gives the value of the written vector
  together with the returned carry, and the length of the vector.
\<close>

section \<open>Values of limb vectors\<close>

lemma unat_limb_less: "unat (x :: limb) < 2 ^ 64"
  using unsigned_less [of x, where ?'a = nat] by simp

lemma mpn_val_append [simp]: "mpn_val (xs @ ys) = mpn_val xs + 2 ^ (64 * length xs) * mpn_val ys"
  by (induction xs) (simp_all add: algebra_simps power_add)

lemma mpn_val_less: "mpn_val xs < 2 ^ (64 * length xs)"
proof (induction xs)
  case (Cons x xs)
  have "unat x + 2 ^ 64 * mpn_val xs < 2 ^ 64 * Suc (mpn_val xs)"
    using unat_limb_less [of x] by simp
  also have "\<dots> \<le> 2 ^ 64 * 2 ^ (64 * length xs)"
    using Cons by (intro mult_le_mono2) simp
  finally show ?case by (simp add: power_add)
qed simp

lemma mpn_val_replicate_0 [simp]: "mpn_val (replicate n 0) = 0"
  by (induction n) simp_all

lemma mpn_val_eq_0_iff: "mpn_val xs = 0 \<longleftrightarrow> (\<forall>x \<in> set xs. x = 0)"
  by (induction xs) (auto simp: unat_eq_zero)

lemma mpn_val_inj: "length xs = length ys \<Longrightarrow> mpn_val xs = mpn_val ys \<longleftrightarrow> xs = ys"
proof (induction xs ys rule: list_induct2)
  case (Cons x xs y ys)
  have "unat x + 2 ^ 64 * mpn_val xs = unat y + 2 ^ 64 * mpn_val ys \<Longrightarrow>
        unat x = unat y \<and> mpn_val xs = mpn_val ys"
  proof -
    assume e: "unat x + 2 ^ 64 * mpn_val xs = unat y + 2 ^ 64 * mpn_val ys"
    have "(unat x + 2 ^ 64 * mpn_val xs) mod 2 ^ 64 = unat x"
         "(unat y + 2 ^ 64 * mpn_val ys) mod 2 ^ 64 = unat y"
      using unat_limb_less [of x] unat_limb_less [of y] by (simp_all only: mod_mult_self2 mod_less)
    then have "unat x = unat y" using e by metis
    then show ?thesis using e by simp
  qed
  then show ?case using Cons by (auto simp: word_unat_eq_iff)
qed simp

lemma mpn_val_split: "mpn_val xs = mpn_val (take n xs) + 2 ^ (64 * min n (length xs)) * mpn_val (drop n xs)"
  by (metis append_take_drop_id length_take min.commute mpn_val_append)

lemma mpn_val_ge: "xs \<noteq> [] \<Longrightarrow> last xs \<noteq> 0 \<Longrightarrow> 2 ^ (64 * (length xs - 1)) \<le> mpn_val xs"
proof -
  assume "xs \<noteq> []" "last xs \<noteq> 0"
  then have "mpn_val xs = mpn_val (butlast xs) + 2 ^ (64 * (length xs - 1)) * unat (last xs)"
    and "0 < unat (last xs)"
    by (metis append_butlast_last_id length_butlast mpn_val.simps mpn_val_append mult_0_right add_0_right)
       (simp add: \<open>last xs \<noteq> 0\<close> unat_gt_0)
  then show ?thesis by (simp add: Suc_le_eq [symmetric] trans_le_add2)
qed

lemma mpn_val_less_iff:
  assumes "length xs = length ys" "x \<noteq> y"
  shows "mpn_val (xs @ [x]) < mpn_val (ys @ [y]) \<longleftrightarrow> x < y"
proof -
  have *: "mpn_val (as @ [a]) < mpn_val (bs @ [b])" if "length as = length bs" "a < b" for as bs and a b :: limb
  proof -
    have "mpn_val (as @ [a]) < 2 ^ (64 * length as) * Suc (unat a)"
      using mpn_val_less [of as] by simp
    also have "\<dots> \<le> 2 ^ (64 * length as) * unat b"
      using that by (intro mult_le_mono2) (simp add: word_less_nat_alt)
    also have "\<dots> \<le> mpn_val (bs @ [b])" using that by simp
    finally show ?thesis .
  qed
  show ?thesis
    using * [of xs ys x y] * [of ys xs y x] assms by (metis less_asym neqE)
qed

section \<open>Comparison\<close>

lemma mpn_cmp_loop_take:
  "i \<le> length a \<Longrightarrow> i \<le> length b \<Longrightarrow>
   mpn_cmp_loop a b i = sgn (int (mpn_val (take i a)) - int (mpn_val (take i b)))"
proof (induction i)
  case (Suc i)
  let ?a = "take i a" and ?b = "take i b"
  have t: "take (Suc i) a = ?a @ [a ! i]" "take (Suc i) b = ?b @ [b ! i]"
    using Suc.prems by (simp_all add: take_Suc_conv_app_nth)
  have l: "length ?a = length ?b" using Suc.prems by simp
  show ?case
  proof (cases "a ! i = b ! i")
    case True
    then show ?thesis using Suc l by (simp add: t)
  next
    case False
    have "mpn_val (take (Suc i) a) < mpn_val (take (Suc i) b) \<longleftrightarrow> a ! i < b ! i"
      unfolding t by (rule mpn_val_less_iff [OF l False])
    moreover have "mpn_val (take (Suc i) b) < mpn_val (take (Suc i) a) \<longleftrightarrow> b ! i < a ! i"
      unfolding t by (rule mpn_val_less_iff [OF l [symmetric] not_sym [OF False]])
    ultimately show ?thesis using False by (cases "a ! i < b ! i") (auto simp: sgn_if)
  qed
qed simp

lemma mpn_cmp_sgn [mpn_laws]:
  "length a = n \<Longrightarrow> length b = n \<Longrightarrow> mpn_cmp a b n = sgn (int (mpn_val a) - int (mpn_val b))"
  by (simp add: mpn_cmp_def mpn_cmp_loop_take)

section \<open>Addition and subtraction\<close>

lemma limb_le_1:
  fixes cy :: limb
  assumes "cy \<le> 1"
  shows "cy = 0 \<or> cy = 1"
proof -
  have "unat cy \<le> 1" using assms by (simp add: word_le_nat_alt)
  then have "unat cy = unat (0 :: limb) \<or> unat cy = unat (1 :: limb)" by auto
  then show ?thesis by (simp only: word_unat_eq_iff)
qed

lemma add_carry_step:
  fixes x y cy :: limb
  assumes "cy \<le> 1"
  defines "z \<equiv> y + cy"
  defines "s \<equiv> x + z"
  defines "c \<equiv> c_bool (s < x) + c_bool (z < cy)"
  shows "unat s + 2 ^ 64 * unat c = unat x + unat y + unat cy" "c \<le> 1"
proof -
  have cy: "cy = 0 \<or> cy = 1" using assms(1) by (rule limb_le_1)
  have "unat x < 2 ^ 64" "unat y < 2 ^ 64" by (rule unat_limb_less)+
  then show "unat s + 2 ^ 64 * unat c = unat x + unat y + unat cy" "c \<le> 1"
    using cy unfolding s_def c_def z_def
    by (auto simp: word_less_nat_alt unat_plus_if' word_le_nat_alt unat_eq_zero split: if_splits)
qed

lemma sub_carry_step:
  fixes x y cy :: limb
  assumes "cy \<le> 1"
  defines "z \<equiv> y + cy"
  defines "s \<equiv> x - z"
  defines "c \<equiv> c_bool (s > x) + c_bool (z < cy)"
  shows "unat s + unat y + unat cy = unat x + 2 ^ 64 * unat c" "c \<le> 1"
proof -
  have cy: "cy = 0 \<or> cy = 1" using assms(1) by (rule limb_le_1)
  have "unat x < 2 ^ 64" "unat y < 2 ^ 64" by (rule unat_limb_less)+
  then show "unat s + unat y + unat cy = unat x + 2 ^ 64 * unat c" "c \<le> 1"
    using cy unfolding s_def c_def z_def
    by (auto simp: word_less_nat_alt unat_plus_if' unat_sub_if' word_le_nat_alt unat_eq_zero split: if_splits)
qed

lemma mpn_add_n_loop_correct:
  "length s1 = length s2 \<Longrightarrow> cy \<le> 1 \<Longrightarrow> mpn_add_n_loop cy s1 s2 = (r, c) \<Longrightarrow>
   mpn_val r + 2 ^ (64 * length s1) * unat c = mpn_val s1 + mpn_val s2 + unat cy
   \<and> length r = length s1 \<and> c \<le> 1"
proof (induction s1 s2 arbitrary: cy r c rule: list_induct2)
  case (Cons x s1 y s2)
  define z where "z = y + cy"
  define d where "d = c_bool (x + z < x) + c_bool (z < cy)"
  obtain r' where r: "mpn_add_n_loop d s1 s2 = (r', c)" "r = (x + z) # r'"
    using Cons.prems(2) by (auto simp: Let_def z_def d_def split: prod.splits)
  note step = add_carry_step [OF Cons.prems(1), of x y, folded z_def, folded d_def]
  have IH: "mpn_val r' + 2 ^ (64 * length s1) * unat c = mpn_val s1 + mpn_val s2 + unat d"
      "length r' = length s1" "c \<le> 1"
    using Cons.IH [OF step(2) r(1)] by auto
  have "mpn_val r + 2 ^ (64 * length (x # s1)) * unat c
      = unat (x + z) + 2 ^ 64 * (mpn_val r' + 2 ^ (64 * length s1) * unat c)"
    by (simp add: r power_add algebra_simps)
  also have "\<dots> = (unat (x + z) + 2 ^ 64 * unat d) + 2 ^ 64 * (mpn_val s1 + mpn_val s2)"
    unfolding IH by (simp add: algebra_simps)
  also have "\<dots> = mpn_val (x # s1) + mpn_val (y # s2) + unat cy"
    unfolding step by (simp add: algebra_simps)
  finally show ?case using IH r by simp
qed simp

lemma mpn_add_n_correct [mpn_laws]:
  assumes "length s1 = length s2" "mpn_add_n s1 s2 = (r, c)"
  shows "mpn_val r + 2 ^ (64 * length s1) * unat c = mpn_val s1 + mpn_val s2"
    and "length r = length s1" and "c \<le> 1"
  using mpn_add_n_loop_correct [of s1 s2 0 r c] assms by (simp_all add: mpn_add_n_def)

lemma mpn_sub_n_loop_correct:
  "length s1 = length s2 \<Longrightarrow> cy \<le> 1 \<Longrightarrow> mpn_sub_n_loop cy s1 s2 = (r, c) \<Longrightarrow>
   mpn_val r + mpn_val s2 + unat cy = mpn_val s1 + 2 ^ (64 * length s1) * unat c
   \<and> length r = length s1 \<and> c \<le> 1"
proof (induction s1 s2 arbitrary: cy r c rule: list_induct2)
  case (Cons x s1 y s2)
  define z where "z = y + cy"
  define d where "d = c_bool (x - z > x) + c_bool (z < cy)"
  obtain r' where r: "mpn_sub_n_loop d s1 s2 = (r', c)" "r = (x - z) # r'"
    using Cons.prems(2) by (auto simp: Let_def z_def d_def split: prod.splits)
  note step = sub_carry_step [OF Cons.prems(1), where x = x and y = y, folded z_def, folded d_def]
  have IH: "mpn_val r' + mpn_val s2 + unat d = mpn_val s1 + 2 ^ (64 * length s1) * unat c"
      "length r' = length s1" "c \<le> 1"
    using Cons.IH [OF step(2) r(1)] by auto
  have "mpn_val r + mpn_val (y # s2) + unat cy
      = (unat (x - z) + unat y + unat cy) + 2 ^ 64 * (mpn_val r' + mpn_val s2)"
    by (simp add: r algebra_simps)
  also have "\<dots> = unat x + 2 ^ 64 * (mpn_val r' + mpn_val s2 + unat d)"
    unfolding step by (simp add: algebra_simps)
  also have "\<dots> = mpn_val (x # s1) + 2 ^ (64 * length (x # s1)) * unat c"
    unfolding IH by (simp add: algebra_simps power_add)
  finally show ?case using IH r by simp
qed simp

lemma mpn_sub_n_correct [mpn_laws]:
  assumes "length s1 = length s2" "mpn_sub_n s1 s2 = (r, c)"
  shows "mpn_val r + mpn_val s2 = mpn_val s1 + 2 ^ (64 * length s1) * unat c"
    and "length r = length s1" and "c \<le> 1"
  using mpn_sub_n_loop_correct [of s1 s2 0 r c] assms by (simp_all add: mpn_sub_n_def)

lemma unat_minus_1_limb: "unat (- 1 :: limb) = 2 ^ 64 - 1"
  by (simp add: unsigned_minus_1_eq_mask mask_eq_exp_minus_1)

lemma mpn_incr_loop_correct:
  "mpn_incr_loop s = (r, c) \<Longrightarrow>
   mpn_val r + 2 ^ (64 * length s) * unat c = mpn_val s + 1 \<and> length r = length s \<and> c \<le> 1"
proof (induction s arbitrary: r c rule: mpn_incr_loop.induct)
  case (2 x s)
  show ?case
  proof (cases "x + 1 = 0")
    case True
    then have x: "unat x = 2 ^ 64 - 1"
      using unat_minus_1_limb by (simp add: add_eq_0_iff2)
    obtain r' where r: "mpn_incr_loop s = (r', c)" "r = 0 # r'"
      using 2 True by (auto split: prod.splits)
    then show ?thesis using "2.IH" [of "x + 1" r' c] True x
      by (auto simp: power_add algebra_simps)
  next
    case False
    then have "unat (x + 1) = unat x + 1" using unatSuc [of x] by (simp add: add.commute)
    then show ?thesis using 2 False by auto
  qed
qed simp

lemma mpn_decr_loop_correct:
  "mpn_decr_loop s = (r, c) \<Longrightarrow>
   mpn_val r + 1 = mpn_val s + 2 ^ (64 * length s) * unat c \<and> length r = length s \<and> c \<le> 1"
proof (induction s arbitrary: r c rule: mpn_decr_loop.induct)
  case (2 x s)
  show ?case
  proof (cases "x = 0")
    case True
    then have x: "unat (x - 1) = 2 ^ 64 - 1" using unat_minus_1_limb by simp
    obtain r' where r: "mpn_decr_loop s = (r', c)" "r = (x - 1) # r'"
      using 2 True by (auto split: prod.splits)
    then show ?thesis using "2.IH" [of r' c] True x
      by (auto simp: power_add algebra_simps)
  next
    case False
    then have "unat (x - 1) + 1 = unat x" by (simp add: unat_minus_one unat_gt_0 Suc_pred)
    then show ?thesis using 2 False by auto
  qed
qed simp

lemma mpn_add_1_correct [mpn_laws]:
  assumes "mpn_add_1 s v = (r, c)" "s \<noteq> []"
  shows "mpn_val r + 2 ^ (64 * length s) * unat c = mpn_val s + unat v"
    and "length r = length s" and "c \<le> 1"
proof -
  obtain x s1 where s: "s = x # s1" using assms(2) by (cases s) auto
  have lim: "unat x < 2 ^ 64" "unat v < 2 ^ 64" by (rule unat_limb_less)+
  obtain r1 c1 where i: "mpn_incr_loop s1 = (r1, c1)" by fastforce
  note inc = mpn_incr_loop_correct [OF i]
  have carry: "unat (x + v) = unat x + unat v - 2 ^ 64 \<and> 2 ^ 64 \<le> unat x + unat v" if "x + v < x"
    using that lim by (auto simp: word_less_nat_alt unat_plus_if' split: if_splits)
  have no_carry: "unat (x + v) = unat x + unat v" if "\<not> x + v < x"
    using that lim by (auto simp: word_less_nat_alt unat_plus_if' split: if_splits)
  show "mpn_val r + 2 ^ (64 * length s) * unat c = mpn_val s + unat v"
    using assms(1) i inc carry no_carry
    by (cases "x + v < x") (auto simp: s power_add algebra_simps)
  show "length r = length s" "c \<le> 1"
    using assms(1) i inc by (auto simp: s Let_def split: if_splits)
qed

lemma mpn_sub_1_correct [mpn_laws]:
  assumes "mpn_sub_1 s v = (r, c)" "s \<noteq> []"
  shows "mpn_val r + unat v = mpn_val s + 2 ^ (64 * length s) * unat c"
    and "length r = length s" and "c \<le> 1"
proof -
  obtain x s1 where s: "s = x # s1" using assms(2) by (cases s) auto
  have lim: "unat x < 2 ^ 64" "unat v < 2 ^ 64" by (rule unat_limb_less)+
  obtain r1 c1 where d: "mpn_decr_loop s1 = (r1, c1)" by fastforce
  note dec = mpn_decr_loop_correct [OF d]
  have borrow: "unat (x - v) = unat x + 2 ^ 64 - unat v \<and> unat v \<le> unat x + 2 ^ 64" if "x - v > x"
    using that lim by (auto simp: word_less_nat_alt unat_sub_if' split: if_splits)
  have no_borrow: "unat (x - v) + unat v = unat x" if "\<not> x - v > x"
    using that lim by (auto simp: word_less_nat_alt unat_sub_if' split: if_splits)
  show "mpn_val r + unat v = mpn_val s + 2 ^ (64 * length s) * unat c"
    using assms(1) d dec borrow no_borrow
    by (cases "x - v > x") (auto simp: s power_add algebra_simps)
  show "length r = length s" "c \<le> 1"
    using assms(1) d dec by (auto simp: s Let_def split: if_splits)
qed

lemma mpn_val_take_drop: "n \<le> length s \<Longrightarrow> mpn_val s = mpn_val (take n s) + 2 ^ (64 * n) * mpn_val (drop n s)"
  using mpn_val_split [of s n] by (simp add: min_def)

lemma mpn_add_correct [mpn_laws]:
  assumes "mpn_add s1 s2 = (r, c)" "length s2 \<le> length s1"
  shows "mpn_val r + 2 ^ (64 * length s1) * unat c = mpn_val s1 + mpn_val s2"
    and "length r = length s1" and "c \<le> 1"
proof -
  let ?n = "length s2"
  obtain lo d where lo: "(if ?n \<noteq> 0 then mpn_add_n (take ?n s1) s2 else ([], 0)) = (lo, d)" by fastforce
  have L: "mpn_val lo + 2 ^ (64 * ?n) * unat d = mpn_val (take ?n s1) + mpn_val s2"
      "length lo = ?n" "d \<le> 1"
    using lo mpn_add_n_correct [of "take ?n s1" s2 lo d] assms(2) by (auto split: if_splits)
  obtain hi where hi: "(if length s1 - ?n \<noteq> 0 then mpn_add_1 (drop ?n s1) d else ([], d)) = (hi, c)"
      "r = lo @ hi"
    using assms(1) lo by (auto simp: mpn_add_def Let_def split: prod.splits)
  have H: "mpn_val hi + 2 ^ (64 * (length s1 - ?n)) * unat c = mpn_val (drop ?n s1) + unat d"
      "length hi = length s1 - ?n" "c \<le> 1"
    using hi(1) mpn_add_1_correct [of "drop ?n s1" d hi c] L(3) by (auto split: if_splits)
  have "(2 :: nat) ^ (64 * length s1) = 2 ^ (64 * ?n) * 2 ^ (64 * (length s1 - ?n))"
    using assms(2) by (simp flip: power_add add: algebra_simps)
  then have "mpn_val r + 2 ^ (64 * length s1) * unat c
      = mpn_val lo + 2 ^ (64 * ?n) * (mpn_val hi + 2 ^ (64 * (length s1 - ?n)) * unat c)"
    using hi L by (simp add: algebra_simps)
  also have "\<dots> = (mpn_val lo + 2 ^ (64 * ?n) * unat d) + 2 ^ (64 * ?n) * mpn_val (drop ?n s1)"
    unfolding H by (simp add: algebra_simps)
  also have "\<dots> = mpn_val s1 + mpn_val s2"
    unfolding L using mpn_val_take_drop [OF assms(2)] by simp
  finally show "mpn_val r + 2 ^ (64 * length s1) * unat c = mpn_val s1 + mpn_val s2" .
  show "length r = length s1" "c \<le> 1" using hi L H assms(2) by simp_all
qed

lemma mpn_sub_correct [mpn_laws]:
  assumes "mpn_sub s1 s2 = (r, c)" "length s2 \<le> length s1"
  shows "mpn_val r + mpn_val s2 = mpn_val s1 + 2 ^ (64 * length s1) * unat c"
    and "length r = length s1" and "c \<le> 1"
proof -
  let ?n = "length s2"
  obtain lo d where lo: "(if ?n \<noteq> 0 then mpn_sub_n (take ?n s1) s2 else ([], 0)) = (lo, d)" by fastforce
  have L: "mpn_val lo + mpn_val s2 = mpn_val (take ?n s1) + 2 ^ (64 * ?n) * unat d"
      "length lo = ?n" "d \<le> 1"
    using lo mpn_sub_n_correct [of "take ?n s1" s2 lo d] assms(2) by (auto split: if_splits)
  obtain hi where hi: "(if length s1 - ?n \<noteq> 0 then mpn_sub_1 (drop ?n s1) d else ([], d)) = (hi, c)"
      "r = lo @ hi"
    using assms(1) lo by (auto simp: mpn_sub_def Let_def split: prod.splits)
  have H: "mpn_val hi + unat d = mpn_val (drop ?n s1) + 2 ^ (64 * (length s1 - ?n)) * unat c"
      "length hi = length s1 - ?n" "c \<le> 1"
    using hi(1) mpn_sub_1_correct [of "drop ?n s1" d hi c] L(3) by (auto split: if_splits)
  have p: "(2 :: nat) ^ (64 * length s1) = 2 ^ (64 * ?n) * 2 ^ (64 * (length s1 - ?n))"
    using assms(2) by (simp flip: power_add add: algebra_simps)
  have "mpn_val r + mpn_val s2 = (mpn_val lo + mpn_val s2) + 2 ^ (64 * ?n) * mpn_val hi"
    using hi L by simp
  also have "\<dots> = mpn_val (take ?n s1) + 2 ^ (64 * ?n) * (mpn_val hi + unat d)"
    unfolding L by (simp add: algebra_simps)
  also have "\<dots> = mpn_val s1 + 2 ^ (64 * length s1) * unat c"
    unfolding H p using mpn_val_take_drop [OF assms(2)] by (simp add: algebra_simps)
  finally show "mpn_val r + mpn_val s2 = mpn_val s1 + 2 ^ (64 * length s1) * unat c" .
  show "length r = length s1" "c \<le> 1" using hi L H assms(2) by simp_all
qed

lemma mpn_sub_no_borrow:
  assumes "mpn_sub s1 s2 = (r, c)" "length s2 \<le> length s1" "mpn_val s2 \<le> mpn_val s1"
  shows "mpn_val r = mpn_val s1 - mpn_val s2" "c = 0"
proof -
  note S = mpn_sub_correct [OF assms(1,2)]
  have "mpn_val r < 2 ^ (64 * length s1)" using mpn_val_less [of r] S(2) by simp
  then have "\<not> 2 ^ (64 * length s1) * 1 \<le> 2 ^ (64 * length s1) * unat c" using S(1) assms(3) by linarith
  then have "unat c = 0" by simp
  then show "c = 0" "mpn_val r = mpn_val s1 - mpn_val s2"
    using S(1) by (simp_all add: unat_eq_zero)
qed

section \<open>Shifts\<close>

lemma unat_drop_limb: "unat (drop_bit k (x :: limb)) = unat x div 2 ^ k"
  by (rule trans [OF unat_drop_bit_eq]) (rule drop_bit_eq_div)

lemma limb_rshift_join:
  fixes low high :: limb
  assumes "0 < k" "k < 64"
  shows "unat (drop_bit k low OR push_bit (64 - k) high)
       = unat low div 2 ^ k + 2 ^ (64 - k) * (unat high mod 2 ^ k)"
proof -
  have p: "(2 :: nat) ^ 64 = 2 ^ k * 2 ^ (64 - k)"
    using assms by (simp flip: power_add)
  have d: "unat (drop_bit k low) = unat low div 2 ^ k"
    by (rule unat_drop_limb)
  have u: "unat (push_bit (64 - k) high) = 2 ^ (64 - k) * (unat high mod 2 ^ k)"
  proof -
    have "unat (push_bit (64 - k) high) = take_bit 64 (push_bit (64 - k) (unat high))"
      by (simp only: unsigned_push_bit_eq len_bit0 len_num1) simp
    also have "\<dots> = (2 ^ (64 - k) * unat high) mod (2 ^ (64 - k) * 2 ^ k)"
      unfolding take_bit_eq_mod push_bit_eq_mult p by (simp only: mult.commute)
    also have "\<dots> = 2 ^ (64 - k) * (unat high mod 2 ^ k)" by (rule mult_mod_right [symmetric])
    finally show ?thesis .
  qed
  have "drop_bit k low AND push_bit (64 - k) high = 0"
    by (rule bit_word_eqI) (auto simp: bit_simps dest: bit_imp_le_length)
  then have "drop_bit k low OR push_bit (64 - k) high = drop_bit k low + push_bit (64 - k) high"
    by (simp add: disjunctive_add_eq_or)
  moreover have "unat low div 2 ^ k + 2 ^ (64 - k) * (unat high mod 2 ^ k) < 2 ^ 64"
  proof -
    have "unat low div 2 ^ k < 2 ^ (64 - k)"
      using unat_limb_less [of low] p by (simp add: less_mult_imp_div_less mult.commute)
    moreover have "Suc (unat high mod 2 ^ k) \<le> 2 ^ k" by (simp add: Suc_le_eq)
    then have "2 ^ (64 - k) * Suc (unat high mod 2 ^ k) \<le> 2 ^ (64 - k) * 2 ^ k" by (rule mult_le_mono2)
    ultimately show ?thesis unfolding p by (simp add: mult.commute)
  qed
  ultimately show ?thesis using d u by (simp add: unat_plus_if')
qed

lemma pow_64_split: "k \<le> 64 \<Longrightarrow> (2 :: nat) ^ 64 = 2 ^ k * 2 ^ (64 - k)"
  by (simp flip: power_add)

lemma mpn_val_mod_pow: "k \<le> 64 \<Longrightarrow> mpn_val (x # xs) mod 2 ^ k = unat x mod 2 ^ k"
  by (simp only: mpn_val.simps pow_64_split mult.assoc mod_mult_self2)

lemma mpn_rshift_loop_val:
  "0 < k \<Longrightarrow> k < 64 \<Longrightarrow>
   mpn_val (mpn_rshift_loop low up k (64 - k)) = mpn_val (low # up) div 2 ^ k"
proof (induction up arbitrary: low)
  case Nil
  show ?case by (simp only: mpn_rshift_loop.simps mpn_val.simps unat_drop_limb) simp
next
  case (Cons high up)
  define V where "V = mpn_val (high # up)"
  have p: "(2 :: nat) ^ 64 = 2 ^ k * 2 ^ (64 - k)" using Cons.prems by (intro pow_64_split) simp
  have m: "V mod 2 ^ k = unat high mod 2 ^ k" using Cons.prems by (simp only: V_def mpn_val_mod_pow)
  have "mpn_val (low # high # up) div 2 ^ k = (unat low + 2 ^ k * (2 ^ (64 - k) * V)) div 2 ^ k"
    unfolding mpn_val.simps(2) [of low] V_def p mult.assoc ..
  also have "\<dots> = unat low div 2 ^ k + 2 ^ (64 - k) * V"
    by (simp add: div_mult_self2)
  also have "2 ^ (64 - k) * V = 2 ^ (64 - k) * (V mod 2 ^ k + 2 ^ k * (V div 2 ^ k))" by simp
  also have "\<dots> = 2 ^ (64 - k) * (unat high mod 2 ^ k) + 2 ^ 64 * (V div 2 ^ k)"
    unfolding p m by (simp only: algebra_simps)
  finally show ?case
    using Cons limb_rshift_join [of k low high] by (simp only: mpn_rshift_loop.simps mpn_val.simps V_def add.assoc)
qed

lemma length_mpn_rshift_loop [simp]: "length (mpn_rshift_loop low up a b) = Suc (length up)"
  by (induction up arbitrary: low) simp_all

lemma push_bit_eq_0_iff: "0 < k \<Longrightarrow> k < 64 \<Longrightarrow> push_bit (64 - k) (x :: limb) = 0 \<longleftrightarrow> unat x mod 2 ^ k = 0"
  using limb_rshift_join [of k 0 x] by (auto simp flip: unat_eq_zero)

lemma mpn_rshift_correct [mpn_laws]:
  assumes "mpn_rshift up k = (r, c)" "up \<noteq> []" "0 < k" "k < 64"
  shows "mpn_val r = mpn_val up div 2 ^ k" "length r = length up" "c = 0 \<longleftrightarrow> mpn_val up mod 2 ^ k = 0"
proof -
  obtain u us where up: "up = u # us" using assms(2) by (cases up) auto
  show "mpn_val r = mpn_val up div 2 ^ k" "length r = length up"
    using assms mpn_rshift_loop_val [of k u us] by (auto simp: up mpn_rshift_def Let_def)
  show "c = 0 \<longleftrightarrow> mpn_val up mod 2 ^ k = 0"
    using assms push_bit_eq_0_iff [of k u] mpn_val_mod_pow [of k u us]
    by (auto simp: up mpn_rshift_def Let_def)
qed

lemma length_mpn_lshift_loop [simp]: "length (mpn_lshift_loop high up a b) = Suc (length up)"
  by (induction up arbitrary: high) simp_all

lemma mpn_lshift_loop_val:
  "0 < k \<Longrightarrow> k < 64 \<Longrightarrow>
   mpn_val (rev (mpn_lshift_loop high up k (64 - k))) + 2 ^ (64 * Suc (length up)) * (unat high div 2 ^ (64 - k))
   = 2 ^ k * mpn_val (rev (high # up))"
proof (induction up arbitrary: high)
  case Nil
  have p: "(2 :: nat) ^ 64 = 2 ^ k * 2 ^ (64 - k)" using Nil by (intro pow_64_split) simp
  have "unat (push_bit k high) = 2 ^ k * (unat high mod 2 ^ (64 - k))"
    using limb_rshift_join [of "64 - k" 0 high] Nil by simp
  then have "mpn_val (rev (mpn_lshift_loop high [] k (64 - k))) + 2 ^ 64 * (unat high div 2 ^ (64 - k))
      = 2 ^ k * (unat high mod 2 ^ (64 - k) + 2 ^ (64 - k) * (unat high div 2 ^ (64 - k)))"
    unfolding p by (simp only: mpn_lshift_loop.simps rev.simps append.simps mpn_val.simps distrib_left
        mult_0_right add_0_right mult.assoc)
  then show ?case by simp
next
  case (Cons low up)
  let ?n = "64 * Suc (length up)" and ?j = "push_bit k high OR drop_bit (64 - k) low"
  let ?d = "unat high div 2 ^ (64 - k)" and ?m = "unat high mod 2 ^ (64 - k)"
  have p: "(2 :: nat) ^ 64 = 2 ^ k * 2 ^ (64 - k)" using Cons.prems by (intro pow_64_split) simp
  have j: "unat ?j = unat low div 2 ^ (64 - k) + 2 ^ k * ?m"
    using limb_rshift_join [of "64 - k" low high] Cons.prems by (simp add: or.commute)
  have h: "unat high = ?m + 2 ^ (64 - k) * ?d" by simp
  have n: "(2 :: nat) ^ (64 * Suc (length (low # up))) = 2 ^ ?n * (2 ^ k * 2 ^ (64 - k))"
    unfolding p [symmetric] power_add [symmetric] by (rule arg_cong [where f = "power 2"]) (use Cons.prems in simp)
  have "mpn_val (rev (mpn_lshift_loop high (low # up) k (64 - k))) + 2 ^ (64 * Suc (length (low # up))) * ?d
      = mpn_val (rev (mpn_lshift_loop low up k (64 - k))) + 2 ^ ?n * (unat low div 2 ^ (64 - k))
        + 2 ^ ?n * 2 ^ k * (?m + 2 ^ (64 - k) * ?d)"
    unfolding n mpn_lshift_loop.simps rev.simps mpn_val_append mpn_val.simps j length_rev length_mpn_lshift_loop
    by (simp only: algebra_simps mult_0_right add_0_right)
  also have "\<dots> = 2 ^ k * mpn_val (rev (high # low # up))"
    unfolding Cons.IH [OF Cons.prems] h [symmetric] by (simp add: algebra_simps power_add)
  finally show ?case .
qed

lemma mpn_lshift_correct [mpn_laws]:
  assumes "mpn_lshift up k = (r, c)" "up \<noteq> []" "0 < k" "k < 64"
  shows "mpn_val r + 2 ^ (64 * length up) * unat c = 2 ^ k * mpn_val up" "length r = length up"
proof -
  obtain h us where up: "rev up = h # us" using assms(2) by (cases "rev up") auto
  then have l: "length up = Suc (length us)" "rev (h # us) = up"
    by (metis length_Cons length_rev) (metis up rev_rev_ident)
  have "c = drop_bit (64 - k) h" and r: "r = rev (mpn_lshift_loop h us k (64 - k))"
    using assms(1) by (auto simp: mpn_lshift_def Let_def up)
  then have c: "unat c = unat h div 2 ^ (64 - k)" by (simp only: unat_drop_limb)
  show "mpn_val r + 2 ^ (64 * length up) * unat c = 2 ^ k * mpn_val up"
    using mpn_lshift_loop_val [OF assms(3,4), of h us] unfolding c r l .
  show "length r = length up" by (simp add: r l)
qed

section \<open>Multiplication\<close>

lemma unat_lowpart: "unat (ll_lowpart x) = unat x mod 2 ^ 32"
proof -
  have "ll_B - 1 = mask 32" by (simp add: ll_B_def mask_eq_exp_minus_1)
  then have "ll_lowpart x = take_bit 32 x" by (simp add: ll_lowpart_def take_bit_eq_mask)
  then have "unat (ll_lowpart x) = take_bit 32 (unat x)" by (simp only: unsigned_take_bit_eq)
  then show ?thesis by (simp only: take_bit_eq_mod)
qed

lemma unat_highpart: "unat (ll_highpart x) = unat x div 2 ^ 32"
  unfolding ll_highpart_def by (rule unat_drop_limb)

lemma half_less: "unat (x :: limb) div 2 ^ 32 < 2 ^ 32" "unat (x :: limb) mod 2 ^ 32 < 2 ^ 32"
  using unat_limb_less [of x] by (simp_all add: less_mult_imp_div_less)

lemma unat_mult_halves:
  "unat (a :: limb) < 2 ^ 32 \<Longrightarrow> unat b < 2 ^ 32 \<Longrightarrow> unat (a * b) = unat a * unat b"
proof -
  assume "unat a < 2 ^ 32" "unat b < 2 ^ 32"
  then have "unat a * unat b < 2 ^ 32 * 2 ^ 32" by (intro mult_strict_mono) simp_all
  then show ?thesis by (simp add: unat_word_ariths(2))
qed

lemma halves_arith:
  fixes a b c d :: nat
  assumes "a < 2 ^ 32" "b < 2 ^ 32" "c < 2 ^ 32" "d < 2 ^ 32"
  defines "y \<equiv> a * d + a * c div 2 ^ 32"
  defines "w \<equiv> (if y + b * c < 2 ^ 64 then y + b * c else y + b * c - 2 ^ 64)"
  defines "h \<equiv> b * d + (if y + b * c < 2 ^ 64 then 0 else 2 ^ 32) + w div 2 ^ 32"
  shows "y < 2 ^ 64" "y + b * c < 2 ^ 64 \<longleftrightarrow> \<not> w < b * c"
    "(w mod 2 ^ 32) * 2 ^ 32 + (a * c) mod 2 ^ 32 + 2 ^ 64 * h = (a + 2 ^ 32 * b) * (c + 2 ^ 32 * d)"
    "h < 2 ^ 64"
proof -
  have m: "x * z \<le> (2 ^ 32 - 1) * (2 ^ 32 - 1)" if "x < 2 ^ 32" "z < 2 ^ 32" for x z :: nat
    using that by (intro mult_le_mono) simp_all
  have ac: "a * c div 2 ^ 32 < 2 ^ 32"
    using m [OF assms(1,3)] by (simp add: less_mult_imp_div_less)
  show y: "y < 2 ^ 64" using m [OF assms(1,4)] ac by (simp add: y_def)
  show "y + b * c < 2 ^ 64 \<longleftrightarrow> \<not> w < b * c" using y by (auto simp: w_def)
  define e :: nat where "e = (if y + b * c < 2 ^ 64 then 0 else 1)"
  have w: "w + 2 ^ 64 * e = y + b * c" by (auto simp: w_def e_def)
  have h: "h = b * d + 2 ^ 32 * e + w div 2 ^ 32" by (simp add: h_def e_def)
  have split: "r * 2 ^ 32 + t + 2 ^ 64 * (b * d + 2 ^ 32 * e + q)
      = 2 ^ 32 * (r + 2 ^ 32 * q + 2 ^ 64 * e) + t + 2 ^ 64 * (b * d)" for r q t
    by (simp add: algebra_simps)
  have "(w mod 2 ^ 32) * 2 ^ 32 + (a * c) mod 2 ^ 32 + 2 ^ 64 * h
      = 2 ^ 32 * (w mod 2 ^ 32 + 2 ^ 32 * (w div 2 ^ 32) + 2 ^ 64 * e) + (a * c) mod 2 ^ 32 + 2 ^ 64 * (b * d)"
    unfolding h by (rule split)
  also have "\<dots> = 2 ^ 32 * (a * d + b * c) + (2 ^ 32 * (a * c div 2 ^ 32) + (a * c) mod 2 ^ 32) + 2 ^ 64 * (b * d)"
    unfolding mod_mult_div_eq w unfolding y_def by (simp add: algebra_simps)
  also have "\<dots> = (a + 2 ^ 32 * b) * (c + 2 ^ 32 * d)" by (simp add: algebra_simps)
  finally show e: "(w mod 2 ^ 32) * 2 ^ 32 + (a * c) mod 2 ^ 32 + 2 ^ 64 * h = (a + 2 ^ 32 * b) * (c + 2 ^ 32 * d)" .
  have "(a + 2 ^ 32 * b) * (c + 2 ^ 32 * d) < 2 ^ 64 * 2 ^ 64"
    using assms(1-4) by (intro mult_strict_mono) simp_all
  then have "2 ^ 64 * h < 2 ^ 64 * 2 ^ 64" using e by linarith
  then show "h < 2 ^ 64" by simp
qed

lemma umul_ppmm_correct:
  assumes "umul_ppmm u v = (hi, lo)"
  shows "unat lo + 2 ^ 64 * unat hi = unat u * unat v"
proof -
  define a b c d where "a = unat u mod 2 ^ 32" and "b = unat u div 2 ^ 32"
    and "c = unat v mod 2 ^ 32" and "d = unat v div 2 ^ 32"
  have lim: "a < 2 ^ 32" "b < 2 ^ 32" "c < 2 ^ 32" "d < 2 ^ 32"
    unfolding a_def b_def c_def d_def by (rule half_less)+
  note A = halves_arith [OF lim]
  have uv: "unat u = a + 2 ^ 32 * b" "unat v = c + 2 ^ 32 * d"
    unfolding a_def b_def c_def d_def by simp_all
  have parts: "unat (ll_lowpart u) = a" "unat (ll_highpart u) = b" "unat (ll_lowpart v) = c" "unat (ll_highpart v) = d"
    unfolding a_def b_def c_def d_def by (rule unat_lowpart unat_highpart)+
  define x0 x2 y x1 where "x0 = ll_lowpart u * ll_lowpart v" and "x2 = ll_highpart u * ll_lowpart v"
    and "y = ll_lowpart u * ll_highpart v + ll_highpart x0" and "x1 = y + x2"
  have p: "unat x0 = a * c" "unat x2 = b * c" "unat (ll_lowpart u * ll_highpart v) = a * d"
      "unat (ll_highpart u * ll_highpart v) = b * d"
    unfolding x0_def x2_def using lim parts by (simp_all add: unat_mult_halves)
  have y: "unat y = a * d + a * c div 2 ^ 32"
    using A(1) unfolding y_def by (simp add: unat_plus_if' p unat_highpart)
  have x1: "unat x1 = (if unat y + b * c < 2 ^ 64 then unat y + b * c else unat y + b * c - 2 ^ 64)"
    unfolding x1_def by (simp add: unat_plus_if' p)
  have lt: "x1 < x2 \<longleftrightarrow> \<not> unat y + b * c < 2 ^ 64"
    unfolding word_less_nat_alt p x1 y using A(2) by blast
  have hi: "hi = (if x1 < x2 then ll_highpart u * ll_highpart v + ll_B else ll_highpart u * ll_highpart v) + ll_highpart x1"
    and lo: "lo = push_bit 32 x1 + ll_lowpart x0"
    using assms by (auto simp: umul_ppmm_def Let_def x0_def x1_def x2_def y_def)
  define h where "h = b * d + (if unat y + b * c < 2 ^ 64 then 0 else 2 ^ 32) + unat x1 div 2 ^ 32"
  have h: "h < 2 ^ 64" using A(4) unfolding h_def x1 y .
  have B: "unat ll_B = 2 ^ 32" by (simp add: ll_B_def)
  have "unat hi = h"
    using h unfolding hi h_def by (auto simp: unat_plus_if' p lt B unat_highpart)
  moreover have "unat lo = (unat x1 mod 2 ^ 32) * 2 ^ 32 + (a * c) mod 2 ^ 32"
  proof -
    have "unat (push_bit 32 x1) = 2 ^ 32 * (unat x1 mod 2 ^ 32)"
      using limb_rshift_join [of 32 0 x1] by simp
    then show ?thesis unfolding lo using half_less(2) [of x1] half_less(2) [of x0]
      by (simp add: unat_plus_if' unat_lowpart p mult.commute)
  qed
  ultimately show ?thesis using A(3) unfolding h_def x1 y uv by simp
qed

text \<open>One step of a multiplying loop: product, carry-in and one more addend.\<close>

lemma mul_step:
  fixes x v cy :: limb
  assumes "umul_ppmm x v = (h, l)"
  defines "l' \<equiv> l + cy"
  defines "c' \<equiv> c_bool (l' < cy) + h"
  shows "unat l' + 2 ^ 64 * unat c' = unat x * unat v + unat cy"
proof -
  have e: "unat l + 2 ^ 64 * unat h = unat x * unat v" by (rule umul_ppmm_correct [OF assms(1)])
  have lim: "unat l < 2 ^ 64" "unat cy < 2 ^ 64" by (rule unat_limb_less)+
  have "unat x * unat v \<le> (2 ^ 64 - 1) * (2 ^ 64 - 1)"
    using unat_limb_less [of x] unat_limb_less [of v] by (intro mult_le_mono) simp_all
  then have "unat h + 1 < 2 ^ 64" using e by simp
  then show ?thesis
    unfolding l'_def c'_def using e lim
    by (auto simp: word_less_nat_alt unat_plus_if' split: if_splits)
qed

lemma mul_bound:
  fixes x v a b :: limb
  shows "unat x * unat v + unat a + unat b < 2 ^ 64 * 2 ^ 64"
proof -
  have "unat x * unat v \<le> (2 ^ 64 - 1) * (2 ^ 64 - 1)"
    using unat_limb_less [of x] unat_limb_less [of v] by (intro mult_le_mono) simp_all
  then show ?thesis using unat_limb_less [of a] unat_limb_less [of b] by simp
qed

lemma addmul_step:
  fixes x v cy r :: limb
  assumes "umul_ppmm x v = (h, l)"
  defines "l' \<equiv> l + cy"
  defines "c' \<equiv> c_bool (l' < cy) + h"
  defines "s \<equiv> r + l'"
  defines "d \<equiv> c' + c_bool (s < r)"
  shows "unat s + 2 ^ 64 * unat d = unat x * unat v + unat cy + unat r"
proof -
  have e: "unat l' + 2 ^ 64 * unat c' = unat x * unat v + unat cy"
    unfolding l'_def c'_def by (rule mul_step [OF assms(1)])
  have lim: "unat l' < 2 ^ 64" "unat r < 2 ^ 64" "unat c' < 2 ^ 64" by (rule unat_limb_less)+
  have "unat r + unat l' < 2 ^ 64 \<or> unat c' + 1 < 2 ^ 64"
    using e mul_bound [of x v cy r] by (cases "unat r + unat l' < 2 ^ 64") simp_all
  then show ?thesis
    unfolding s_def d_def using e lim
    by (auto simp: word_less_nat_alt unat_plus_if' split: if_splits)
qed

lemma submul_step:
  fixes x v cy r :: limb
  assumes "umul_ppmm x v = (h, l)"
  defines "l' \<equiv> l + cy"
  defines "c' \<equiv> c_bool (l' < cy) + h"
  defines "s \<equiv> r - l'"
  defines "d \<equiv> c' + c_bool (s > r)"
  shows "unat s + unat x * unat v + unat cy = unat r + 2 ^ 64 * unat d"
proof -
  have e: "unat l' + 2 ^ 64 * unat c' = unat x * unat v + unat cy"
    unfolding l'_def c'_def by (rule mul_step [OF assms(1)])
  have lim: "unat l' < 2 ^ 64" "unat r < 2 ^ 64" "unat c' < 2 ^ 64" by (rule unat_limb_less)+
  have "unat x * unat v \<le> (2 ^ 64 - 1) * (2 ^ 64 - 1)"
    using unat_limb_less [of x] unat_limb_less [of v] by (intro mult_le_mono) simp_all
  then have "unat c' + 1 < 2 ^ 64" if "unat r < unat l'"
    using that e unat_limb_less [of cy] by simp
  then show ?thesis
    unfolding s_def d_def using e lim
    by (auto simp: word_less_nat_alt unat_plus_if' unat_sub_if' split: if_splits)
qed

lemma mpn_mul_1_loop_correct:
  "mpn_mul_1_loop cy s v = (r, c) \<Longrightarrow>
   mpn_val r + 2 ^ (64 * length s) * unat c = mpn_val s * unat v + unat cy \<and> length r = length s"
proof (induction s arbitrary: cy r c)
  case (Cons x s)
  obtain h l where hl: "umul_ppmm x v = (h, l)" by fastforce
  define l' where "l' = l + cy"
  define d where "d = c_bool (l' < cy) + h"
  obtain r' where r: "mpn_mul_1_loop d s v = (r', c)" "r = l' # r'"
    using Cons.prems hl by (auto simp: Let_def l'_def d_def split: prod.splits)
  note step = mul_step [OF hl, of cy, folded l'_def, folded d_def]
  have IH: "mpn_val r' + 2 ^ (64 * length s) * unat c = mpn_val s * unat v + unat d" "length r' = length s"
    using Cons.IH [OF r(1)] by auto
  have "mpn_val r + 2 ^ (64 * length (x # s)) * unat c
      = unat l' + 2 ^ 64 * (mpn_val r' + 2 ^ (64 * length s) * unat c)"
    by (simp add: r power_add algebra_simps)
  also have "\<dots> = (unat l' + 2 ^ 64 * unat d) + 2 ^ 64 * (mpn_val s * unat v)"
    unfolding IH by (simp add: algebra_simps)
  also have "\<dots> = mpn_val (x # s) * unat v + unat cy" unfolding step by (simp add: algebra_simps)
  finally show ?case using IH r by simp
qed simp

lemma mpn_addmul_1_loop_correct:
  "length rp = length up \<Longrightarrow> mpn_addmul_1_loop cy rp up v = (r, c) \<Longrightarrow>
   mpn_val r + 2 ^ (64 * length up) * unat c = mpn_val rp + mpn_val up * unat v + unat cy
   \<and> length r = length up"
proof (induction rp up arbitrary: cy r c rule: list_induct2)
  case (Cons y rp x up)
  obtain h l where hl: "umul_ppmm x v = (h, l)" by fastforce
  define l' where "l' = l + cy"
  define e where "e = c_bool (l' < cy) + h"
  define d where "d = e + c_bool (y + l' < y)"
  obtain r' where r: "mpn_addmul_1_loop d rp up v = (r', c)" "r = (y + l') # r'"
    using Cons.prems hl by (auto simp: Let_def l'_def d_def e_def split: prod.splits)
  note step = addmul_step [OF hl, of y cy, folded l'_def, folded e_def, folded d_def]
  have IH: "mpn_val r' + 2 ^ (64 * length up) * unat c = mpn_val rp + mpn_val up * unat v + unat d"
      "length r' = length up"
    using Cons.IH [OF r(1)] by auto
  have "mpn_val r + 2 ^ (64 * length (x # up)) * unat c
      = unat (y + l') + 2 ^ 64 * (mpn_val r' + 2 ^ (64 * length up) * unat c)"
    by (simp add: r power_add algebra_simps)
  also have "\<dots> = (unat (y + l') + 2 ^ 64 * unat d) + 2 ^ 64 * (mpn_val rp + mpn_val up * unat v)"
    unfolding IH by (simp add: algebra_simps)
  also have "\<dots> = mpn_val (y # rp) + mpn_val (x # up) * unat v + unat cy"
    unfolding step by (simp add: algebra_simps)
  finally show ?case using IH r by simp
qed simp

lemma mpn_submul_1_loop_correct:
  "length rp = length up \<Longrightarrow> mpn_submul_1_loop cy rp up v = (r, c) \<Longrightarrow>
   mpn_val r + mpn_val up * unat v + unat cy = mpn_val rp + 2 ^ (64 * length up) * unat c
   \<and> length r = length up"
proof (induction rp up arbitrary: cy r c rule: list_induct2)
  case (Cons y rp x up)
  obtain h l where hl: "umul_ppmm x v = (h, l)" by fastforce
  define l' where "l' = l + cy"
  define e where "e = c_bool (l' < cy) + h"
  define d where "d = e + c_bool (y - l' > y)"
  obtain r' where r: "mpn_submul_1_loop d rp up v = (r', c)" "r = (y - l') # r'"
    using Cons.prems hl by (auto simp: Let_def l'_def d_def e_def split: prod.splits)
  note step = submul_step [OF hl, where cy = cy and r = y, folded l'_def, folded e_def, folded d_def]
  have IH: "mpn_val r' + mpn_val up * unat v + unat d = mpn_val rp + 2 ^ (64 * length up) * unat c"
      "length r' = length up"
    using Cons.IH [OF r(1)] by auto
  have "mpn_val r + mpn_val (x # up) * unat v + unat cy
      = (unat (y - l') + unat x * unat v + unat cy) + 2 ^ 64 * (mpn_val r' + mpn_val up * unat v)"
    by (simp add: r algebra_simps)
  also have "\<dots> = unat y + 2 ^ 64 * (mpn_val r' + mpn_val up * unat v + unat d)"
    unfolding step by (simp add: algebra_simps)
  also have "\<dots> = mpn_val (y # rp) + 2 ^ (64 * length (x # up)) * unat c"
    unfolding IH by (simp add: algebra_simps power_add)
  finally show ?case using IH r by simp
qed simp

lemma mpn_mul_1_correct [mpn_laws]:
  assumes "mpn_mul_1 s v = (r, c)"
  shows "mpn_val r + 2 ^ (64 * length s) * unat c = mpn_val s * unat v" "length r = length s"
  using mpn_mul_1_loop_correct [of 0 s v r c] assms by (simp_all add: mpn_mul_1_def)

lemma mpn_addmul_1_correct [mpn_laws]:
  assumes "mpn_addmul_1 rp up v = (r, c)" "length rp = length up"
  shows "mpn_val r + 2 ^ (64 * length up) * unat c = mpn_val rp + mpn_val up * unat v" "length r = length up"
  using mpn_addmul_1_loop_correct [of rp up 0 v r c] assms by (simp_all add: mpn_addmul_1_def)

lemma mpn_submul_1_correct [mpn_laws]:
  assumes "mpn_submul_1 rp up v = (r, c)" "length rp = length up"
  shows "mpn_val r + mpn_val up * unat v = mpn_val rp + 2 ^ (64 * length up) * unat c" "length r = length up"
  using mpn_submul_1_loop_correct [of rp up 0 v r c] assms by (simp_all add: mpn_submul_1_def)

lemma mpn_mul_basecase_loop_correct:
  "length prodp = length up \<Longrightarrow>
   mpn_val (mpn_mul_basecase_loop prodp up vp) = mpn_val prodp + mpn_val up * mpn_val vp
   \<and> length (mpn_mul_basecase_loop prodp up vp) = length up + length vp"
proof (induction vp arbitrary: prodp)
  case (Cons v vp)
  obtain r c where rc: "mpn_addmul_1 prodp up v = (r, c)" by fastforce
  note A = mpn_addmul_1_correct [OF rc Cons.prems]
  have ne: "r @ [c] \<noteq> []" by simp
  obtain y p where y: "r @ [c] = y # p" by (cases "r @ [c]") auto
  have l: "length p = length up" using arg_cong [OF y, of length] A(2) by simp
  have "mpn_val (y # p) = mpn_val prodp + mpn_val up * unat v"
    using A by (simp flip: y)
  then show ?case using Cons.IH [OF l] rc y by (simp add: Let_def algebra_simps)
qed simp

lemma mpn_mul_basecase_correct:
  assumes "vp \<noteq> []"
  shows "mpn_val (mpn_mul_basecase up vp) = mpn_val up * mpn_val vp"
    and "length (mpn_mul_basecase up vp) = length up + length vp"
proof -
  obtain v vs where vp: "vp = v # vs" using assms by (cases vp) auto
  obtain r c where rc: "mpn_mul_1 up v = (r, c)" by fastforce
  note A = mpn_mul_1_correct [OF rc]
  obtain y p where y: "r @ [c] = y # p" by (cases "r @ [c]") auto
  have l: "length p = length up" using arg_cong [OF y, of length] A(2) by simp
  have "mpn_val (y # p) = mpn_val up * unat v"
    using A by (simp flip: y)
  then show "mpn_val (mpn_mul_basecase up vp) = mpn_val up * mpn_val vp"
    "length (mpn_mul_basecase up vp) = length up + length vp"
    using mpn_mul_basecase_loop_correct [OF l, of vs] rc y
    by (simp_all add: mpn_mul_basecase_def vp Let_def algebra_simps)
qed

end
