(* ===== verification/BignumProps.thy ===== *)
theory BignumProps
  imports Bignum MpnLaws
begin

text \<open>
  The integer a bignum stands for, the representation invariants, and what comparison,
  normalization, addition, subtraction and multiplication compute.
\<close>

section \<open>Values and invariants\<close>

definition big_val :: "bignum \<Rightarrow> int" where
  "big_val b = (if bigpos b then int (mpn_val (bigdig b)) else - int (mpn_val (bigdig b)))"

primrec int_val :: "integer_obj \<Rightarrow> int" where
  "int_val (Fix w) = sint w"
| "int_val (Big b) = big_val b"

text \<open>
  An operand of the bignum operations has no leading zero digit; zero is the empty digit list,
  and may have either sign. A result is normal: it is a bignum only if it is not a fixnum.
\<close>

definition big_ok :: "bignum \<Rightarrow> bool" where
  "big_ok b \<longleftrightarrow> (bigdig b \<noteq> [] \<longrightarrow> last (bigdig b) \<noteq> 0)"

definition fixnum_range :: "int \<Rightarrow> bool" where
  "fixnum_range x \<longleftrightarrow> - (2 ^ 62) \<le> x \<and> x < 2 ^ 62"

primrec int_ok :: "integer_obj \<Rightarrow> bool" where
  "int_ok (Fix w) = fixnum_range (sint w)"
| "int_ok (Big b) = (big_ok b \<and> \<not> fixnum_range (big_val b))"

named_theorems big_simps \<open>values of bignums in terms of their fields\<close>

lemma big_val_fields [big_simps]: "big_val \<lparr>bigpos = p, bigdig = ds\<rparr> = (if p then 1 else - 1) * int (mpn_val ds)"
  by (simp add: big_val_def)

lemma big_ok_fields [big_simps]: "big_ok \<lparr>bigpos = p, bigdig = ds\<rparr> \<longleftrightarrow> (ds \<noteq> [] \<longrightarrow> last ds \<noteq> 0)"
  by (simp add: big_ok_def)

lemma uint_less_iff: "uint (w :: 64 word) < 2 ^ k \<longleftrightarrow> unat w < 2 ^ k"
proof -
  have "int (unat w) < int (2 ^ k) \<longleftrightarrow> unat w < 2 ^ k" by (rule of_nat_less_iff)
  then show ?thesis by simp
qed

lemma sint_limb: "sint (w :: 64 word) = (if unat w < 2 ^ 63 then int (unat w) else int (unat w) - 2 ^ 64)"
proof -
  have b: "0 \<le> uint w" "uint w < 2 ^ 64" using uint_lt2p [of w] by simp_all
  have e: "sint w = signed_take_bit 63 (uint w)" by (simp add: sint_uint)
  show ?thesis
  proof (cases "uint w < 2 ^ 63")
    case True
    then have "signed_take_bit 63 (uint w) = uint w" by (intro signed_take_bit_int_eq_self) (use b True in linarith)+
    then show ?thesis using True by (simp only: e uint_less_iff if_True) simp
  next
    case False
    have "signed_take_bit 63 (uint w) = signed_take_bit 63 (uint w - 2 ^ 64)"
      by (simp only: signed_take_bit_eq_iff_take_bit_eq take_bit_eq_mod) simp
    also have "\<dots> = uint w - 2 ^ 64" by (intro signed_take_bit_int_eq_self) (use b False in simp_all)
    finally show ?thesis using False by (simp only: e uint_less_iff if_False) simp
  qed
qed

lemma sint_limb_bounds: "- (2 ^ 63) \<le> sint (w :: 64 word)" "sint w < 2 ^ 63"
  using sint_ge [of w] sint_lt [of w] by simp_all

lemma sint_word_of_int: "- (2 ^ 63) \<le> x \<Longrightarrow> x < 2 ^ 63 \<Longrightarrow> sint (word_of_int x :: 64 word) = x"
  by (simp add: sint_sbintrunc' signed_take_bit_int_eq_self)

lemma make_integer_word: "scheme_make_integer i = Fix (signed_take_bit 62 i)"
proof -
  have "signed_drop_bit 1 (push_bit 1 i OR 1) = signed_take_bit 62 i"
  proof (rule bit_word_eqI)
    fix n assume "n < LENGTH(64)"
    then consider "n < 62" | "n = 62" | "n = 63" by (simp, linarith)
    then show "bit (signed_drop_bit 1 (push_bit 1 i OR 1)) n = bit (signed_take_bit 62 i) n"
      by cases (auto simp: bit_signed_drop_bit_iff bit_signed_take_bit_iff bit_or_iff bit_push_bit_iff bit_1_iff min_def
          simp del: push_bit_Suc push_bit_of_1 One_nat_def)
  qed
  then show ?thesis by (simp only: scheme_make_integer_def)
qed

lemma make_integer_value:
  "int_val (scheme_make_integer i) = signed_take_bit 62 (sint i)" "int_ok (scheme_make_integer i)"
proof -
  have e: "sint (signed_take_bit 62 i) = signed_take_bit 62 (sint i)"
    by (rule bit_eqI) (auto simp: bit_sint_iff bit_signed_take_bit_iff min_def)
  then show "int_val (scheme_make_integer i) = signed_take_bit 62 (sint i)"
    by (simp add: make_integer_word)
  show "int_ok (scheme_make_integer i)"
    using signed_take_bit_int_greater_eq_minus_exp [of 62 "sint i"] signed_take_bit_int_less_exp [of 62 "sint i"]
    by (simp add: make_integer_word e fixnum_range_def)
qed

lemma make_integer_exact: "fixnum_range (sint i) \<Longrightarrow> int_val (scheme_make_integer i) = sint i"
  by (simp add: make_integer_value fixnum_range_def signed_take_bit_int_eq_self)

lemma make_integer_consts [simp]:
  "int_val (scheme_make_integer 0) = 0" "int_val (scheme_make_integer (- 1)) = - 1"
  by (simp_all add: make_integer_exact fixnum_range_def)

section \<open>Normalization\<close>

lemma big_cases:
  assumes "big_ok b"
  obtains "bigdig b = []" "big_val b = 0"
  | d where "bigdig b = [d]" "d \<noteq> 0" "big_val b = (if bigpos b then int (unat d) else - int (unat d))"
  | "1 < biglen b" "2 ^ 64 \<le> \<bar>big_val b\<bar>"
proof -
  consider "bigdig b = []" | d where "bigdig b = [d]" | "1 < length (bigdig b)"
    by (cases "bigdig b" rule: remdups_adj.cases) auto
  then show thesis
  proof cases
    case 3
    then have ne: "bigdig b \<noteq> []" by auto
    have "(2 :: nat) ^ 64 \<le> 2 ^ (64 * (biglen b - 1))" using 3 by (intro power_increasing) simp_all
    also have "\<dots> \<le> mpn_val (bigdig b)"
      using mpn_val_ge [OF ne] assms ne by (simp add: big_ok_def)
    finally have "(2 :: nat) ^ 64 \<le> mpn_val (bigdig b)" .
    then have "int (2 ^ 64) \<le> int (mpn_val (bigdig b))" by (simp only: of_nat_le_iff)
    then have "2 ^ 64 \<le> \<bar>big_val b\<bar>" by (simp add: big_val_def)
    then show thesis using 3 that(3) by blast
  qed (use assms that(1,2) in \<open>auto simp: big_val_def big_ok_def\<close>)
qed

lemma first_bit: "(d :: limb) AND FIRST_BIT_MASK \<noteq> 0 \<longleftrightarrow> 2 ^ 63 \<le> unat d"
proof -
  have m: "FIRST_BIT_MASK = push_bit 63 1" by (simp add: FIRST_BIT_MASK_def)
  have "d AND FIRST_BIT_MASK \<noteq> 0 \<longleftrightarrow> bit d 63"
  proof
    assume "d AND FIRST_BIT_MASK \<noteq> 0"
    then obtain n where "bit d n" "63 \<le> n" "n < 64"
      by (auto simp: m bit_eq_iff bit_simps simp del: push_bit_of_1)
    moreover have "n = 63" using calculation by linarith
    ultimately show "bit d 63" by simp
  next
    assume "bit d 63"
    then have "bit (d AND FIRST_BIT_MASK) 63" by (simp add: m bit_simps del: push_bit_of_1)
    then show "d AND FIRST_BIT_MASK \<noteq> 0" by (metis bit_0_eq bot_apply bot_bool_def)
  qed
  also have "\<dots> \<longleftrightarrow> bit (unat d) 63" by (simp add: bit_unsigned_iff)
  also have "\<dots> \<longleftrightarrow> odd (unat d div 2 ^ 63)" by (rule bit_iff_odd)
  also have "\<dots> \<longleftrightarrow> 2 ^ 63 \<le> unat d"
  proof -
    have "unat d div 2 ^ 63 < 2" using unat_limb_less [of d] by (simp add: less_mult_imp_div_less)
    then have "odd (unat d div 2 ^ 63) \<longleftrightarrow> unat d div 2 ^ 63 \<noteq> 0" by (auto simp: less_2_cases_iff)
    also have "\<dots> \<longleftrightarrow> 2 ^ 63 \<le> unat d" by (simp add: div_eq_0_iff not_less)
    finally show ?thesis .
  qed
  finally show ?thesis .
qed

lemma first_bit_eq: "(d :: limb) = FIRST_BIT_MASK \<longleftrightarrow> unat d = 2 ^ 63"
  by (simp add: FIRST_BIT_MASK_def word_unat_eq_iff)

lemma get_int_val_correct:
  assumes "big_ok b"
  shows "scheme_bignum_get_int_val b =
    (if - (2 ^ 63) \<le> big_val b \<and> big_val b < 2 ^ 63 then Some (word_of_int (big_val b)) else None)"
  using assms
proof (cases rule: big_cases)
  case 1
  then show ?thesis by (simp add: scheme_bignum_get_int_val_def)
next
  case (2 d)
  have n: "(word_of_int (- int (unat d)) :: limb) = - d" "(word_of_int (int (unat d)) :: limb) = d"
    by simp_all
  have m: "- FIRST_BIT_MASK = FIRST_BIT_MASK" by (simp add: FIRST_BIT_MASK_def)
  have l: "- (2 ^ 63) \<le> int k \<longleftrightarrow> True" "int k < 2 ^ 63 \<longleftrightarrow> k < 2 ^ 63" "- (2 ^ 63) \<le> - int k \<longleftrightarrow> k \<le> 2 ^ 63" "- int k < 2 ^ 63 \<longleftrightarrow> True"
    for k by auto
  show ?thesis
  proof (cases "bigpos b")
    case True
    have v: "big_val b = int (unat d)" using 2 True by simp
    have "scheme_bignum_get_int_val b = (if 2 ^ 63 \<le> unat d then None else Some d)"
      using 2 True by (simp only: scheme_bignum_get_int_val_def first_bit) simp
    then show ?thesis unfolding v l n by auto
  next
    case False
    have v: "big_val b = - int (unat d)" using 2 False by simp
    have "scheme_bignum_get_int_val b =
        (if d = FIRST_BIT_MASK then Some d else if 2 ^ 63 \<le> unat d then None else Some (- d))"
      using 2 False by (simp only: scheme_bignum_get_int_val_def first_bit) simp
    moreover have "d = FIRST_BIT_MASK \<Longrightarrow> - d = d" using m by simp
    ultimately show ?thesis unfolding v l n using first_bit_eq [of d] by auto
  qed
next
  case 3
  then show ?thesis by (auto simp: scheme_bignum_get_int_val_def)
qed

lemma two_bit_test:
  "(v AND MAX_TWO_BIT_MASK = 0 \<or> v AND MAX_TWO_BIT_MASK = MAX_TWO_BIT_MASK) \<longleftrightarrow> fixnum_range (sint v)"
proof -
  have m: "MAX_TWO_BIT_MASK = NOT (mask 62)" by (simp add: MAX_TWO_BIT_MASK_def mask_eq_exp_minus_1)
  have "v AND MAX_TWO_BIT_MASK = push_bit 62 (drop_bit 62 v)"
    unfolding m by (rule bit_word_eqI) (auto simp: bit_and_iff bit_not_iff bit_mask_iff bit_push_bit_iff bit_drop_bit_eq)
  then have u: "unat (v AND MAX_TWO_BIT_MASK) = 2 ^ 62 * (unat v div 2 ^ 62 mod 4)"
    using limb_rshift_join [of 2 0 "drop_bit 62 v"] unat_drop_limb [of 62 v] by simp
  have q: "unat v div 2 ^ 62 < 4" using unat_limb_less [of v] by (simp add: less_mult_imp_div_less)
  have "v AND MAX_TWO_BIT_MASK = 0 \<longleftrightarrow> unat v div 2 ^ 62 = 0"
    using u q unat_eq_zero [of "v AND MAX_TWO_BIT_MASK"] by simp
  moreover have "v AND MAX_TWO_BIT_MASK = MAX_TWO_BIT_MASK \<longleftrightarrow> unat v div 2 ^ 62 = 3"
    using u q by (simp add: word_unat_eq_iff MAX_TWO_BIT_MASK_def)
  moreover have "fixnum_range (sint v) \<longleftrightarrow> unat v < 2 ^ 62 \<or> 3 * 2 ^ 62 \<le> unat v"
  proof -
    have "fixnum_range (if n < 2 ^ 63 then int n else int n - 2 ^ 64) \<longleftrightarrow> n < 2 ^ 62 \<or> 3 * 2 ^ 62 \<le> n"
      if "n < 2 ^ 64" for n :: nat
      using that by (auto simp: fixnum_range_def)
    then show ?thesis unfolding sint_limb using unat_limb_less [of v] by blast
  qed
  moreover have "unat v div 2 ^ 62 = 0 \<longleftrightarrow> unat v < 2 ^ 62" by (simp add: div_eq_0_iff)
  moreover have "unat v div 2 ^ 62 = 3 \<longleftrightarrow> 3 * 2 ^ 62 \<le> unat v"
  proof -
    have "3 \<le> unat v div 2 ^ 62 \<longleftrightarrow> 3 * 2 ^ 62 \<le> unat v" by (simp add: le_div_geq less_eq_div_iff_mult_less_eq)
    then show ?thesis using q by linarith
  qed
  ultimately show ?thesis by simp
qed

lemma normalize_correct:
  assumes "big_ok b"
  shows "int_val (scheme_bignum_normalize b) = big_val b" "int_ok (scheme_bignum_normalize b)"
proof -
  let ?w = "word_of_int (big_val b) :: limb"
  have "int_val (scheme_bignum_normalize b) = big_val b \<and> int_ok (scheme_bignum_normalize b)"
  proof (cases "- (2 ^ 63) \<le> big_val b \<and> big_val b < 2 ^ 63")
    case True
    then have s: "sint ?w = big_val b" by (simp add: sint_word_of_int)
    have "scheme_bignum_normalize b = (if fixnum_range (sint ?w) then scheme_make_integer ?w else Big b)"
      using True by (simp only: scheme_bignum_normalize_def get_int_val_correct [OF assms] simp_thms if_True option.case Let_def two_bit_test)
    then show ?thesis
      using s assms make_integer_exact [of ?w] make_integer_value(2) [of ?w] by simp
  next
    case False
    then have "\<not> fixnum_range (big_val b)" by (auto simp: fixnum_range_def)
    moreover have "scheme_bignum_normalize b = Big b"
      using False by (auto simp: scheme_bignum_normalize_def get_int_val_correct [OF assms])
    ultimately show ?thesis using assms by simp
  qed
  then show "int_val (scheme_bignum_normalize b) = big_val b" "int_ok (scheme_bignum_normalize b)" by blast+
qed

lemma bigdig_length_spec:
  "n \<le> length ds \<Longrightarrow>
   bigdig_length ds n \<le> n \<and> mpn_val (take (bigdig_length ds n) ds) = mpn_val (take n ds)
   \<and> (bigdig_length ds n \<noteq> 0 \<longrightarrow> ds ! (bigdig_length ds n - 1) \<noteq> 0)"
proof (induction n)
  case (Suc n)
  then show ?case by (auto simp: take_Suc_conv_app_nth)
qed simp

lemma set_digits_correct:
  "big_ok (set_digits p ds)" "big_val (set_digits p ds) = (if p then 1 else - 1) * int (mpn_val ds)"
proof -
  let ?k = "bigdig_length ds (length ds)"
  have k: "?k \<le> length ds" "mpn_val (take ?k ds) = mpn_val ds" "?k \<noteq> 0 \<longrightarrow> ds ! (?k - 1) \<noteq> 0"
    using bigdig_length_spec [of "length ds" ds] by auto
  then show "big_val (set_digits p ds) = (if p then 1 else - 1) * int (mpn_val ds)"
    by (simp add: set_digits_def big_simps)
  show "big_ok (set_digits p ds)"
  proof (cases "?k = 0")
    case False
    then have "last (take ?k ds) = ds ! (?k - 1)" using k(1) by (subst last_conv_nth) auto
    then show ?thesis using k False by (simp add: set_digits_def big_simps)
  qed (simp add: set_digits_def big_simps)
qed

lemma normalize_set_digits:
  "int_val (scheme_bignum_normalize (set_digits p ds)) = (if p then 1 else - 1) * int (mpn_val ds)"
  "int_ok (scheme_bignum_normalize (set_digits p ds))"
  using normalize_correct [OF set_digits_correct(1), of p ds] by (simp_all add: set_digits_correct(2))

lemma small_bignum_correct:
  "big_ok (scheme_make_small_bignum v)" "big_val (scheme_make_small_bignum v) = sint v"
  "bigpos (scheme_make_small_bignum v) \<longleftrightarrow> 0 \<le> sint v"
proof -
  show "big_ok (scheme_make_small_bignum v)"
    by (simp add: scheme_make_small_bignum_def Let_def big_simps)
  show "bigpos (scheme_make_small_bignum v) \<longleftrightarrow> 0 \<le> sint v"
    by (simp add: scheme_make_small_bignum_def Let_def)
  show "big_val (scheme_make_small_bignum v) = sint v"
  proof (cases "sint v < 0")
    case True
    then have v: "2 ^ 63 \<le> unat v" "v \<noteq> 0" by (auto simp: sint_limb split: if_splits)
    have "unat (0 - v) = 2 ^ 64 - unat v"
      using v by (subst unat_sub_if') simp
    then have "int (unat (- v)) = 2 ^ 64 - int (unat v)"
      using less_imp_le [OF unat_limb_less [of v]] by (simp only: diff_0 of_nat_diff) simp
    then show ?thesis using True v
      by (simp add: scheme_make_small_bignum_def Let_def big_simps) (simp add: sint_limb)
  next
    case False
    have "unat v < 2 ^ 63"
    proof (rule ccontr)
      assume "\<not> unat v < 2 ^ 63"
      then have "sint v = int (unat v) - 2 ^ 64" by (simp only: sint_limb if_False)
      then show "False" using False uint_lt2p [of v] by simp
    qed
    then show ?thesis using False by (auto simp: scheme_make_small_bignum_def Let_def big_simps sint_limb)
  qed
qed

section \<open>Comparison\<close>

text \<open>Zero with a negative sign is not a result of the operations, and \<open>scheme_bignum_lt\<close> orders it wrongly.\<close>

definition big_canon :: "bignum \<Rightarrow> bool" where
  "big_canon b \<longleftrightarrow> big_ok b \<and> (bigdig b = [] \<longrightarrow> bigpos b)"

lemma mpn_val_longer:
  assumes "length xs < length ys" "last ys \<noteq> 0"
  shows "mpn_val xs < mpn_val ys"
proof -
  have ne: "ys \<noteq> []" using assms(1) by auto
  have "mpn_val xs < 2 ^ (64 * length xs)" by (rule mpn_val_less)
  also have "\<dots> \<le> 2 ^ (64 * (length ys - 1))" using assms(1) by (intro power_increasing) auto
  also have "\<dots> \<le> mpn_val ys" by (rule mpn_val_ge [OF ne assms(2)])
  finally show ?thesis .
qed

lemma abs_cmp_correct:
  assumes "big_ok a" "big_ok b"
  shows "bignum_abs_cmp a b = sgn (int (mpn_val (bigdig a)) - int (mpn_val (bigdig b)))"
proof -
  consider "biglen a > biglen b" | "biglen a < biglen b" | "biglen a = biglen b" by linarith
  then show ?thesis
  proof cases
    case 1
    then have "last (bigdig a) \<noteq> 0" using assms(1) by (auto simp: big_ok_def)
    from mpn_val_longer [OF 1 this] show ?thesis using 1 by (simp add: bignum_abs_cmp_def)
  next
    case 2
    then have "last (bigdig b) \<noteq> 0" using assms(2) by (auto simp: big_ok_def)
    from mpn_val_longer [OF 2 this] show ?thesis using 2 by (simp add: bignum_abs_cmp_def)
  next
    case 3
    then show ?thesis by (auto simp: bignum_abs_cmp_def mpn_cmp_sgn)
  qed
qed

lemma mpn_val_pos: "big_ok b \<Longrightarrow> bigdig b \<noteq> [] \<Longrightarrow> 0 < mpn_val (bigdig b)"
  using mpn_val_longer [of "[]" "bigdig b"] by (simp add: big_ok_def)

lemma big_lt_correct:
  assumes "big_canon a" "big_canon b"
  shows "scheme_bignum_lt a b \<longleftrightarrow> big_val a < big_val b"
proof -
  have ok: "big_ok a" "big_ok b" using assms by (simp_all add: big_canon_def)
  have z: "\<not> bigpos a \<Longrightarrow> 0 < mpn_val (bigdig a)" "\<not> bigpos b \<Longrightarrow> 0 < mpn_val (bigdig b)"
    using assms ok mpn_val_pos by (auto simp: big_canon_def)
  show ?thesis
    by (cases "bigpos a"; cases "bigpos b")
       (use z in \<open>auto simp: scheme_bignum_lt_def Let_def big_val_def abs_cmp_correct [OF ok] sgn_if\<close>)
qed

lemma big_eq_correct:
  assumes "big_canon a" "big_canon b"
  shows "scheme_bignum_eq a b \<longleftrightarrow> big_val a = big_val b"
proof -
  have ok: "big_ok a" "big_ok b" using assms by (simp_all add: big_canon_def)
  have c: "bignum_abs_cmp a b = 0 \<longleftrightarrow> mpn_val (bigdig a) = mpn_val (bigdig b)"
    by (simp add: abs_cmp_correct [OF ok] sgn_0_0)
  have e: "scheme_bignum_eq a b \<longleftrightarrow> bignum_abs_cmp a b = 0 \<and> bigpos a = bigpos b"
    using assms by (auto simp: scheme_bignum_eq_def bignum_abs_cmp_def Let_def big_canon_def mpn_cmp_def)
  have z: "\<not> bigpos a \<Longrightarrow> 0 < mpn_val (bigdig a)" "\<not> bigpos b \<Longrightarrow> 0 < mpn_val (bigdig b)"
    using assms ok mpn_val_pos by (auto simp: big_canon_def)
  show ?thesis unfolding e c using z
    by (cases "bigpos a"; cases "bigpos b") (auto simp: big_val_def)
qed

section \<open>Addition and subtraction\<close>

lemma bignum_copy_0: "bignum_copy a 0 = a"
  by (simp add: bignum_copy_def)

lemma add_magnitudes:
  fixes p :: bool
  assumes "mpn_add xs ys = (r, c)" "length ys \<le> length xs" "xs \<noteq> []" "last xs \<noteq> 0" "ys \<noteq> []" "last ys \<noteq> 0"
  defines "o1 \<equiv> (if c \<noteq> 0 then bignum_copy \<lparr>bigpos = p, bigdig = r\<rparr> 1 else \<lparr>bigpos = p, bigdig = r\<rparr>)"
  shows "big_ok o1" "big_val o1 = (if p then 1 else - 1) * (int (mpn_val xs) + int (mpn_val ys))"
proof -
  note A = mpn_add_correct [OF assms(1,2)]
  show "big_val o1 = (if p then 1 else - 1) * (int (mpn_val xs) + int (mpn_val ys))"
    using A limb_le_1 [OF A(3)] unfolding o1_def
    by (auto simp: bignum_copy_def big_simps algebra_simps simp flip: of_nat_add)
  show "big_ok o1"
  proof (cases "c = 0")
    case True
    have ne: "r \<noteq> []" using A(2) assms(3) by auto
    have "last r \<noteq> 0"
    proof
      assume z: "last r = 0"
      have "mpn_val r = mpn_val (butlast r) + 2 ^ (64 * length (butlast r)) * unat (last r)"
        using mpn_val_append [of "butlast r" "[last r]"] ne by simp
      then have "mpn_val r < 2 ^ (64 * (length xs - 1))"
        using z mpn_val_less [of "butlast r"] A(2) by simp
      moreover have "2 ^ (64 * (length xs - 1)) \<le> mpn_val xs" by (rule mpn_val_ge [OF assms(3,4)])
      ultimately show False using A(1) True by simp
    qed
    then show ?thesis using True by (simp add: o1_def big_simps)
  qed (simp add: o1_def bignum_copy_def big_simps)
qed

theorem add_sub_correct:
  assumes "big_ok a" "big_ok b"
  shows "int_val (bignum_add_sub a b sub) = (if sub then big_val a - big_val b else big_val a + big_val b)"
    and "int_ok (bignum_add_sub a b sub)"
proof -
  let ?A = "int (mpn_val (bigdig a))" and ?B = "int (mpn_val (bigdig b))"
  let ?bp = "bigpos b \<noteq> sub"
  let ?s = "(if bigpos a then ?A else - ?A) + (if ?bp then ?B else - ?B)"
  have spec: "(if sub then big_val a - big_val b else big_val a + big_val b) = ?s"
    by (auto simp: big_val_def)
  have last: "biglen a \<noteq> 0 \<Longrightarrow> last (bigdig a) \<noteq> 0" "biglen b \<noteq> 0 \<Longrightarrow> last (bigdig b) \<noteq> 0"
    using assms by (simp_all add: big_ok_def)
  have "int_val (bignum_add_sub a b sub) = ?s \<and> int_ok (bignum_add_sub a b sub)"
  proof -
    consider (b0) "biglen b = 0" | (a0) "biglen b \<noteq> 0" "biglen a = 0"
      | (add) "biglen b \<noteq> 0" "biglen a \<noteq> 0" "bigpos a = ?bp" | (sub) "biglen b \<noteq> 0" "biglen a \<noteq> 0" "bigpos a \<noteq> ?bp"
      by blast
    then show ?thesis
    proof cases
      case b0
      then show ?thesis using normalize_correct [OF assms(1)]
        by (auto simp: bignum_add_sub_def bignum_copy_0 big_val_def)
    next
      case a0
      have ok: "big_ok (b\<lparr>bigpos := ?bp\<rparr>)" using assms(2) by (simp add: big_ok_def)
      show ?thesis using a0 normalize_correct [OF ok]
        by (auto simp: bignum_add_sub_def bignum_copy_0 big_val_def)
    next
      case add
      define xs ys where "xs = (if biglen a > biglen b then bigdig a else bigdig b)"
        and "ys = (if biglen a > biglen b then bigdig b else bigdig a)"
      have l: "length ys \<le> length xs" "xs \<noteq> []" "ys \<noteq> []" "last xs \<noteq> 0" "last ys \<noteq> 0"
        and v: "int (mpn_val xs) + int (mpn_val ys) = ?A + ?B"
        using add last by (auto simp: xs_def ys_def)
      obtain r c where rc: "mpn_add xs ys = (r, c)" by fastforce
      define o1 where "o1 = (if c \<noteq> 0 then bignum_copy \<lparr>bigpos = bigpos a, bigdig = r\<rparr> 1 else \<lparr>bigpos = bigpos a, bigdig = r\<rparr>)"
      have e: "(if biglen a > biglen b then mpn_add (bigdig a) (bigdig b) else mpn_add (bigdig b) (bigdig a)) = (r, c)"
        using rc by (simp add: xs_def ys_def split: if_splits)
      have "bignum_add_sub a b sub = scheme_bignum_normalize o1"
        using add unfolding bignum_add_sub_def Let_def o1_def e by auto
      moreover have "big_ok o1" "big_val o1 = (if bigpos a then 1 else - 1) * (?A + ?B)"
        unfolding o1_def v [symmetric] by (rule add_magnitudes [OF rc l(1,2,4,3,5)])+
      ultimately show ?thesis using normalize_correct [of o1] add(3) by auto
    next
      case sub
      let ?c = "mpn_cmp (bigdig a) (bigdig b) (biglen a)"
      have sign: "?s = (if bigpos a then ?A - ?B else ?B - ?A)" using sub(3) by auto
      show ?thesis
      proof (cases "biglen a = biglen b \<and> ?c = 0")
        case True
        then have l: "biglen b = biglen a" and c: "?c = 0" by auto
        have "?A = ?B" using mpn_cmp_sgn [OF refl l] unfolding c by (metis eq_iff_diff_eq_0 sgn_0_0)
        moreover have "bignum_add_sub a b sub = scheme_make_integer 0"
          using sub l c unfolding bignum_add_sub_def Let_def by auto
        ultimately show ?thesis using make_integer_value(2) [of 0] unfolding sign by auto
      next
        case False
        define sw where "sw = (if biglen a > biglen b then False else if biglen b > biglen a then True else \<not> ?c > 0)"
        define xs ys where "xs = (if sw then bigdig b else bigdig a)" and "ys = (if sw then bigdig a else bigdig b)"
        have le: "length ys \<le> length xs" by (auto simp: xs_def ys_def sw_def)
        have vl: "mpn_val ys \<le> mpn_val xs"
        proof (cases "length ys < length xs")
          case True
          then show ?thesis using last sub(1,2) by (intro less_imp_le mpn_val_longer) (auto simp: xs_def ys_def)
        next
          case eq: False
          then have "biglen a = biglen b" using le by (auto simp: xs_def ys_def split: if_splits)
          then show ?thesis
            by (auto simp: xs_def ys_def sw_def mpn_cmp_sgn not_less)
        qed
        obtain r c where rc: "mpn_sub xs ys = (r, c)" by fastforce
        have r: "int (mpn_val r) = int (mpn_val xs) - int (mpn_val ys)"
          using mpn_sub_no_borrow [OF rc le vl] vl by (simp add: of_nat_diff)
        have fst: "fst (if sw then mpn_sub (bigdig b) (bigdig a) else mpn_sub (bigdig a) (bigdig b)) = r"
          using rc by (simp add: xs_def ys_def split: if_splits)
        have "bignum_add_sub a b sub = scheme_bignum_normalize (set_digits (sw \<noteq> bigpos a) r)"
          using sub False fst unfolding bignum_add_sub_def Let_def sw_def [symmetric] by auto
        then show ?thesis using normalize_set_digits [of "sw \<noteq> bigpos a" r] r
          unfolding sign by (auto simp: xs_def ys_def)
      qed
    qed
  qed
  then show "int_val (bignum_add_sub a b sub) = (if sub then big_val a - big_val b else big_val a + big_val b)"
    and "int_ok (bignum_add_sub a b sub)" using spec by simp_all
qed

section \<open>Multiplication\<close>

text \<open>What the bignum layer relies on in GMP's multiplication; the longer operand comes first.\<close>

locale mpn_multiplier =
  fixes mpn_mul :: "limb list \<Rightarrow> limb list \<Rightarrow> limb list"
  assumes mul_val: "ys \<noteq> [] \<Longrightarrow> length ys \<le> length xs \<Longrightarrow> mpn_val (mpn_mul xs ys) = mpn_val xs * mpn_val ys"
begin

lemma mul_zeros:
  "mpn_val (replicate n 0 @ ds) = 2 ^ (64 * n) * mpn_val ds"
  by simp

end

lemma skip_zero_digits_correct:
  "last ds \<noteq> 0 \<Longrightarrow> ds \<noteq> [] \<Longrightarrow>
   \<exists>i. skip_zero_digits ds = Some i \<and> i < length ds \<and> mpn_val ds = 2 ^ (64 * i) * mpn_val (drop i ds)"
proof (induction ds)
  case (Cons d ds)
  show ?case
  proof (cases "d = 0")
    case True
    then have "ds \<noteq> []" "last ds \<noteq> 0" using Cons.prems by (auto split: if_splits)
    then obtain i where "skip_zero_digits ds = Some i" "i < length ds" "mpn_val ds = 2 ^ (64 * i) * mpn_val (drop i ds)"
      using Cons.IH by auto
    then show ?thesis using True by (auto simp: power_add)
  qed simp
qed simp

context mpn_multiplier
begin

lemma multiply_correct:
  assumes "big_ok a" "big_ok b"
  shows "\<exists>r. bignum_multiply mpn_mul a b norm = Some r \<and> int_val r = big_val a * big_val b
    \<and> (norm \<longrightarrow> int_ok r) \<and> (\<not> norm \<longrightarrow> (\<exists>o1. r = Big o1 \<and> big_ok o1))"
proof (cases "biglen a = 0 \<or> biglen b = 0")
  case True
  then have "big_val a * big_val b = 0" by (auto simp: big_val_def)
  moreover have "big_ok (scheme_make_bignum 0)" "big_val (scheme_make_bignum 0) = 0"
    using small_bignum_correct [of 0] by (simp_all add: scheme_make_bignum_def)
  ultimately show ?thesis using True make_integer_value(2) [of 0]
    by (cases norm) (auto simp: bignum_multiply_def)
next
  case False
  then have ne: "bigdig a \<noteq> []" "bigdig b \<noteq> []" and last: "last (bigdig a) \<noteq> 0" "last (bigdig b) \<noteq> 0"
    using assms by (auto simp: big_ok_def)
  obtain i where i: "skip_zero_digits (bigdig a) = Some i" "i < biglen a"
      "mpn_val (bigdig a) = 2 ^ (64 * i) * mpn_val (drop i (bigdig a))"
    using skip_zero_digits_correct [OF last(1) ne(1)] by auto
  obtain j where j: "skip_zero_digits (bigdig b) = Some j" "j < biglen b"
      "mpn_val (bigdig b) = 2 ^ (64 * j) * mpn_val (drop j (bigdig b))"
    using skip_zero_digits_correct [OF last(2) ne(2)] by auto
  define prod where "prod = (if biglen a - i > biglen b - j then mpn_mul (drop i (bigdig a)) (drop j (bigdig b))
                             else mpn_mul (drop j (bigdig b)) (drop i (bigdig a)))"
  define ds where "ds = replicate (i + j) 0 @ prod"
  have "mpn_val prod = mpn_val (drop i (bigdig a)) * mpn_val (drop j (bigdig b))"
    using i(2) j(2) mul_val [of "drop j (bigdig b)" "drop i (bigdig a)"] mul_val [of "drop i (bigdig a)" "drop j (bigdig b)"]
    by (auto simp: prod_def)
  then have v: "mpn_val ds = mpn_val (bigdig a) * mpn_val (bigdig b)"
    unfolding ds_def mul_zeros i(3) j(3) by (simp add: distrib_left power_add)
  have e: "bignum_multiply mpn_mul a b norm =
      Some (if norm then scheme_bignum_normalize (set_digits (bigpos a = bigpos b) ds) else Big (set_digits (bigpos a = bigpos b) ds))"
    using False i(1) j(1) by (simp add: bignum_multiply_def prod_def ds_def Let_def)
  have s: "(if bigpos a = bigpos b then 1 else - 1) * int (mpn_val ds) = big_val a * big_val b"
    by (auto simp: v big_val_def)
  show ?thesis
    using normalize_set_digits [of "bigpos a = bigpos b" ds] set_digits_correct [of "bigpos a = bigpos b" ds] s
    unfolding e by (cases norm) auto
qed

end

interpretation basecase: mpn_multiplier mpn_mul_basecase
  by unfold_locales (rule mpn_mul_basecase_correct(1))

end
