(* ===== verification/BignumBits.thy ===== *)
theory BignumBits
  imports BignumProps
begin

text \<open>
  Bitwise operations and shifts of bignums. The code works on sign and magnitude and produces
  the two's complement digits on the fly; the lemmas relate each digit and each carry to the
  infinite two's complement of an \<open>int\<close>, so that the results are the bitwise operations of
  \<open>int\<close> themselves.
\<close>

section \<open>Digits of an integer\<close>

lemma int_split_64: "(X :: int) = uint (word_of_int X :: limb) + 2 ^ 64 * drop_bit 64 X"
  by (simp only: uint_word_of_int drop_bit_eq_div len_bit0 len_num1) (simp add: take_bit_eq_mod)

lemma split_64_unique:
  fixes w :: limb
  assumes "X = uint w + 2 ^ 64 * Y"
  shows "word_of_int X = w" "drop_bit 64 X = Y"
proof -
  have lim: "0 \<le> uint w" "uint w < 2 ^ 64" using uint_lt2p [of w] by simp_all
  show "drop_bit 64 X = Y" unfolding drop_bit_eq_div assms using lim by (simp add: div_pos_pos_trivial)
  have "word_of_int X = (word_of_int (uint w) :: limb) + 2 ^ 64 * word_of_int Y"
    unfolding assms by (simp only: of_int_add of_int_mult of_int_power of_int_numeral)
  moreover have "(2 :: limb) ^ 64 = 0" by simp
  ultimately show "word_of_int X = w" by (simp only: mult_zero_left add_0_right word_of_int_uint)
qed

lemma mpn_val_digits:
  "word_of_int (int (mpn_val (d # ds))) = d" "drop_bit 64 (int (mpn_val (d # ds))) = int (mpn_val ds)"
proof -
  have "int (mpn_val (d # ds)) = uint d + 2 ^ 64 * int (mpn_val ds)" by simp
  from split_64_unique [OF this] show "word_of_int (int (mpn_val (d # ds))) = d"
    "drop_bit 64 (int (mpn_val (d # ds))) = int (mpn_val ds)" .
qed

lemma take_bit_64_Suc:
  "take_bit (64 * Suc n) (X :: int) = uint (word_of_int X :: limb) + 2 ^ 64 * take_bit (64 * n) (drop_bit 64 X)"
proof -
  let ?w = "uint (word_of_int X :: limb)" and ?Y = "drop_bit 64 X"
  have lim: "0 \<le> ?w" "?w < 2 ^ 64" using uint_lt2p [of "word_of_int X :: limb"] by simp_all
  have "take_bit (64 * Suc n) X = (?w + 2 ^ 64 * ?Y) mod (2 ^ 64 * 2 ^ (64 * n))"
    by (subst int_split_64 [of X]) (simp only: take_bit_eq_mod mult_Suc_right power_add)
  also have "\<dots> = 2 ^ 64 * ((?w + 2 ^ 64 * ?Y) div 2 ^ 64 mod 2 ^ (64 * n)) + (?w + 2 ^ 64 * ?Y) mod 2 ^ 64"
    by (rule zmod_zmult2_eq) simp
  also have "(?w + 2 ^ 64 * ?Y) div 2 ^ 64 = ?Y" using lim by (simp add: div_pos_pos_trivial)
  also have "(?w + 2 ^ 64 * ?Y) mod 2 ^ 64 = ?w" using lim by (simp add: mod_pos_pos_trivial)
  finally show ?thesis by (simp only: take_bit_eq_mod add.commute)
qed

text \<open>
  \<open>twos pos X c\<close> is what remains of a number whose magnitude has \<open>X\<close> as its remaining digits:
  for a negative one, its two's complement when \<open>c\<close> is the carry into these digits.
\<close>

definition twos :: "bool \<Rightarrow> int \<Rightarrow> limb \<Rightarrow> int" where
  "twos pos X c = (if pos then X else uint c - 1 - X)"

lemma complement_digit_correct:
  assumes "complement_digit pos c (word_of_int X) = (x, c')" "c \<le> 1"
  shows "x = word_of_int (twos pos X c)" "drop_bit 64 (twos pos X c) = twos pos (drop_bit 64 X) c'" "c' \<le> 1"
    and "\<not> pos \<Longrightarrow> c' = 1 \<longleftrightarrow> c = 1 \<and> word_of_int X = (0 :: limb)"
proof -
  define d :: limb where "d = word_of_int X"
  define Y where "Y = drop_bit 64 X"
  have X: "X = uint d + 2 ^ 64 * Y" unfolding d_def Y_def by (rule int_split_64)
  have c: "c = 0 \<or> c = 1" by (rule limb_le_1 [OF assms(2)])
  have def: "\<not> pos \<Longrightarrow> x = NOT d + c \<and> c' = (if c = 1 \<and> d = 0 then 1 else 0)" "pos \<Longrightarrow> x = d \<and> c' = c"
    using assms(1) unfolding complement_digit_def d_def Let_def by (auto split: if_splits)
  then show "\<not> pos \<Longrightarrow> c' = 1 \<longleftrightarrow> c = 1 \<and> word_of_int X = (0 :: limb)" by (auto simp: d_def)
  show "c' \<le> 1" using def assms(2) by (cases pos) auto
  have eq: "twos pos X c = uint x + 2 ^ 64 * twos pos Y c'"
  proof (cases pos)
    case True
    then show ?thesis using def X by (simp add: twos_def)
  next
    case False
    have n: "uint (NOT d) = 2 ^ 64 - 1 - uint d"
    proof -
      have "NOT d = - 1 - d" by (simp add: not_eq_complement)
      then have "unat (NOT d) = unat (- 1 :: limb) - unat d"
        by (simp add: unat_sub_if' word_le_nat_alt [symmetric])
      then have "int (unat (NOT d)) = int (2 ^ 64 - 1 - unat d)" by (simp only: unat_minus_1_limb)
      also have "\<dots> = 2 ^ 64 - 1 - int (unat d)" using unat_limb_less [of d] by (simp add: of_nat_diff)
      finally show ?thesis by simp
    qed
    show ?thesis
    proof (cases "c = 1 \<and> d = 0")
      case True
      then have "x = 0" using def False by simp
      then show ?thesis using True def False X by (simp add: twos_def)
    next
      case nc: False
      have lim: "uint d < 2 ^ 64" using uint_lt2p [of d] by simp
      have "d \<noteq> 0 \<Longrightarrow> 1 \<le> uint d" by (metis int_one_le_iff_zero_less uint_0_iff uint_ge_0 less_le)
      moreover have "- 1 < uint d" using uint_ge_0 [of d] by linarith
      ultimately have "uint (NOT d) + uint c < 2 ^ 64" using n nc c lim by auto
      then have "uint (NOT d + c) = uint (NOT d) + uint c"
        using uint_add_lem [of "NOT d" c] by simp
      then show ?thesis using nc def False X n by (simp add: twos_def)
    qed
  qed
  show "x = word_of_int (twos pos X c)" "drop_bit 64 (twos pos X c) = twos pos (drop_bit 64 X) c'"
    using split_64_unique [OF eq] by (simp_all add: Y_def)
qed

section \<open>The loop over the digits\<close>

definition int_bitop :: "nat \<Rightarrow> int \<Rightarrow> int \<Rightarrow> int" where
  "int_bitop op A B = (if op = 0 then A AND B else if op = 1 then A OR B else A XOR B)"

lemma int_bitop_split:
  "word_of_int (int_bitop op A B) = bitop op (word_of_int A) (word_of_int B)"
  "drop_bit k (int_bitop op A B) = int_bitop op (drop_bit k A) (drop_bit k B)"
  by (simp_all add: int_bitop_def bitop_def of_int_and_eq of_int_or_eq of_int_xor_eq)

lemma b_digit:
  fixes cb :: limb
  assumes "cb \<le> 1" "\<not> bp \<longrightarrow> cb = 0 \<or> mpn_val bs \<noteq> 0"
    "(case bs of b0 # _ \<Rightarrow> complement_digit bp cb b0 | [] \<Rightarrow> (if bp then 0 else ALL_ONES, cb)) = (y, cb')"
  shows "y = word_of_int (twos bp (int (mpn_val bs)) cb)"
    "drop_bit 64 (twos bp (int (mpn_val bs)) cb) = twos bp (int (mpn_val (tl bs))) cb'" "cb' \<le> 1"
    "\<not> bp \<longrightarrow> cb' = 0 \<or> mpn_val (tl bs) \<noteq> 0"
proof -
  have "y = word_of_int (twos bp (int (mpn_val bs)) cb)
      \<and> drop_bit 64 (twos bp (int (mpn_val bs)) cb) = twos bp (int (mpn_val (tl bs))) cb' \<and> cb' \<le> 1
      \<and> (\<not> bp \<longrightarrow> cb' = 0 \<or> mpn_val (tl bs) \<noteq> 0)"
  proof (cases bs)
    case Nil
    have "drop_bit 64 (- 1 :: int) = - 1" by (simp add: drop_bit_eq_div)
    then show ?thesis using Nil assms by (cases bp) (simp_all add: twos_def ALL_ONES_def not_eq_complement)
  next
    case (Cons b0 bs')
    have e: "complement_digit bp cb (word_of_int (int (mpn_val (b0 # bs')))) = (y, cb')"
      using assms(3) Cons unfolding mpn_val_digits by simp
    note C = complement_digit_correct [OF e assms(1), unfolded mpn_val_digits]
    have "cb' = 0 \<or> mpn_val bs' \<noteq> 0" if "\<not> bp"
    proof -
      have "cb' = 1 \<Longrightarrow> cb = 1 \<and> b0 = 0" using C(4) that by blast
      then show ?thesis using limb_le_1 [OF C(3)] assms(2) that Cons by auto
    qed
    then show ?thesis using C Cons by auto
  qed
  then show "y = word_of_int (twos bp (int (mpn_val bs)) cb)"
    "drop_bit 64 (twos bp (int (mpn_val bs)) cb) = twos bp (int (mpn_val (tl bs))) cb'" "cb' \<le> 1"
    "\<not> bp \<longrightarrow> cb' = 0 \<or> mpn_val (tl bs) \<noteq> 0" by blast+
qed

lemma do_bitop_loop_correct:
  fixes op :: nat and ap bp rp :: bool
  assumes "n \<le> length as" "ca \<le> 1" "cb \<le> 1" "cr \<le> 1" "\<not> bp \<longrightarrow> cb = 0 \<or> mpn_val bs \<noteq> 0"
  defines "Z \<equiv> int_bitop op (twos ap (int (mpn_val as)) ca) (twos bp (int (mpn_val bs)) cb)"
  shows "\<exists>R out. do_bitop_loop op ap bp rp n as bs ca cb cr = Some (R, out) \<and> length R = n
    \<and> int (mpn_val R) = take_bit (64 * n) (twos rp Z cr)
    \<and> (\<not> rp \<longrightarrow> (out = 1 \<longleftrightarrow> cr = 1 \<and> take_bit (64 * n) Z = 0))"
  using assms(1-5) unfolding Z_def
proof (induction n arbitrary: as bs ca cb cr)
  case (Suc n)
  obtain a0 as' where as: "as = a0 # as'" using Suc.prems(1) by (cases as) auto
  obtain x ca' where A: "complement_digit ap ca a0 = (x, ca')" by fastforce
  have A': "complement_digit ap ca (word_of_int (int (mpn_val (a0 # as')))) = (x, ca')"
    using A unfolding mpn_val_digits .
  note CA = complement_digit_correct [OF A' Suc.prems(2), unfolded mpn_val_digits]
  obtain y cb' where B: "(case bs of b0 # _ \<Rightarrow> complement_digit bp cb b0 | [] \<Rightarrow> (if bp then 0 else ALL_ONES, cb)) = (y, cb')"
    by fastforce
  note CB = b_digit [OF Suc.prems(3,5) B]
  let ?A = "twos ap (int (mpn_val as)) ca" and ?B = "twos bp (int (mpn_val bs)) cb"
  let ?Z = "int_bitop op ?A ?B"
  let ?Z' = "int_bitop op (twos ap (int (mpn_val as')) ca') (twos bp (int (mpn_val (tl bs))) cb')"
  have xy: "bitop op x y = word_of_int ?Z" and Z': "drop_bit 64 ?Z = ?Z'"
    unfolding int_bitop_split as CA(1,2) CB(1,2) by simp_all
  obtain r cr' where R: "complement_digit rp cr (bitop op x y) = (r, cr')" by fastforce
  note CR = complement_digit_correct [OF R [unfolded xy] Suc.prems(4), unfolded Z']
  have n: "n \<le> length as'" using Suc.prems(1) as by simp
  obtain R' out where IH: "do_bitop_loop op ap bp rp n as' (tl bs) ca' cb' cr' = Some (R', out)" "length R' = n"
      "int (mpn_val R') = take_bit (64 * n) (twos rp ?Z' cr')"
      "\<not> rp \<longrightarrow> (out = 1 \<longleftrightarrow> cr' = 1 \<and> take_bit (64 * n) ?Z' = 0)"
    using Suc.IH [OF n CA(3) CB(3) CR(3) CB(4)] by auto
  have loop: "do_bitop_loop op ap bp rp (Suc n) as bs ca cb cr = Some (r # R', out)"
    using IH(1) by (simp add: as A B R Let_def)
  have "int (mpn_val (r # R')) = uint r + 2 ^ 64 * take_bit (64 * n) (twos rp ?Z' cr')"
    using IH(3) by simp
  also have "\<dots> = take_bit (64 * Suc n) (twos rp ?Z cr)"
    unfolding take_bit_64_Suc CR(1) CR(2) ..
  finally have val: "int (mpn_val (r # R')) = take_bit (64 * Suc n) (twos rp ?Z cr)" .
  have zero: "take_bit (64 * Suc n) ?Z = 0 \<longleftrightarrow> word_of_int ?Z = (0 :: limb) \<and> take_bit (64 * n) ?Z' = 0"
    unfolding take_bit_64_Suc Z'
    using uint_ge_0 [of "word_of_int ?Z :: limb"] take_bit_nonnegative [of "64 * n" ?Z']
    by (subst add_nonneg_eq_0_iff) (auto simp: uint_0_iff)
  show ?case
    using loop val IH(2,4) CR(4) zero by (intro exI [of _ "r # R'"] exI [of _ out]) auto
qed (auto simp: twos_def)

section \<open>The bitwise operations\<close>

lemma big_val_twos: "big_val b = twos (bigpos b) (int (mpn_val (bigdig b))) 1"
  by (simp add: big_val_def twos_def)

lemma drop_sign:
  assumes "big_ok b" "bigdig b \<noteq> []" "biglen b \<le> n"
  shows "drop_bit (64 * n) (big_val b) = (if bigpos b then 0 else - 1)"
proof -
  let ?M = "int (mpn_val (bigdig b))"
  have "mpn_val (bigdig b) < 2 ^ (64 * biglen b)" by (rule mpn_val_less)
  also have "(2 :: nat) ^ (64 * biglen b) \<le> 2 ^ (64 * n)" using assms(3) by (intro power_increasing) simp_all
  finally have "?M < int (2 ^ (64 * n))" by (simp only: of_nat_less_iff)
  then have M: "0 < ?M" "?M < 2 ^ (64 * n)" using mpn_val_pos [OF assms(1,2)] by simp_all
  have "- ?M div 2 ^ (64 * n) = - 1"
    using M by (intro int_div_pos_eq [of _ _ _ "2 ^ (64 * n) - ?M"]) simp_all
  then show ?thesis using M by (simp add: big_val_def drop_bit_eq_div div_pos_pos_trivial)
qed

text \<open>What the operations do with the digits of a result, some of which may be leading zeros.\<close>

definition finish_digits :: "bool \<Rightarrow> limb list \<Rightarrow> integer_obj" where
  "finish_digits pos ds =
     (if length ds = 0 then scheme_make_integer 0
      else if length ds = 1 then make_single_bigdig_result pos (ds ! 0)
      else Big \<lparr>bigpos = pos, bigdig = ds\<rparr>)"

lemma finish_digits_correct:
  assumes "ds \<noteq> [] \<longrightarrow> last ds \<noteq> 0"
  shows "int_val (finish_digits p ds) = (if p then 1 else - 1) * int (mpn_val ds)" "int_ok (finish_digits p ds)"
proof -
  let ?b = "\<lparr>bigpos = p, bigdig = ds\<rparr>"
  have ok: "big_ok ?b" using assms by (simp add: big_simps)
  have "int_val (finish_digits p ds) = big_val ?b \<and> int_ok (finish_digits p ds)"
    using ok
  proof (cases rule: big_cases)
    case 1
    then show ?thesis using make_integer_value(2) [of 0] by (simp add: finish_digits_def)
  next
    case (2 d)
    then have "finish_digits p ds = scheme_bignum_normalize ?b" by (simp add: finish_digits_def make_single_bigdig_result_def)
    then show ?thesis using normalize_correct [OF ok] by simp
  next
    case 3
    then have "finish_digits p ds = Big ?b" by (auto simp: finish_digits_def)
    moreover have "\<not> fixnum_range (big_val ?b)" using 3(2) by (auto simp: fixnum_range_def)
    ultimately show ?thesis using ok by simp
  qed
  then show "int_val (finish_digits p ds) = (if p then 1 else - 1) * int (mpn_val ds)" "int_ok (finish_digits p ds)"
    by (simp_all add: big_simps)
qed

lemma take_digits_correct:
  assumes "length ds = n"
  defines "es \<equiv> take (bigdig_length ds n) ds"
  shows "mpn_val es = mpn_val ds" "es \<noteq> [] \<longrightarrow> last es \<noteq> 0"
  using set_digits_correct [of True ds] assms by (auto simp: set_digits_def big_simps big_ok_def)

lemma do_bitop_correct:
  assumes "big_ok a" "big_ok b" "biglen b \<le> biglen a" "op \<le> 2"
  shows "\<exists>r. do_bitop a b op = Some r \<and> int_val r = int_bitop op (big_val a) (big_val b) \<and> int_ok r"
proof (cases "bigdig a = [] \<or> bigdig b = []")
  case True
  have z: "big_val c = 0" if "bigdig c = []" for c using that by (simp add: big_val_def)
  show ?thesis
  proof (cases "bigdig a = []")
    case True
    then have "bigdig b = []" using assms(3) by simp
    then show ?thesis using True z make_integer_value(2) [of 0] by (simp add: do_bitop_def int_bitop_def)
  next
    case False
    then have b: "bigdig b = []" using True by simp
    then have "do_bitop a b op = Some (if op = 0 then scheme_make_integer 0 else scheme_bignum_normalize a)"
      using False by (simp add: do_bitop_def bignum_copy_0 Let_def)
    then show ?thesis
      using z [OF b] normalize_correct [OF assms(1)] make_integer_value(2) [of 0] by (simp add: int_bitop_def)
  qed
next
  case False
  let ?Z = "int_bitop op (big_val a) (big_val b)"
  define rp n where "rp = (if op = 0 then bigpos a \<or> bigpos b else if op = 1 then bigpos a \<and> bigpos b else bigpos a = bigpos b)"
    and "n = (if op = 0 then if bigpos b then biglen b else biglen a
              else if op = 1 then if bigpos b then biglen a else biglen b else biglen a)"
  have n: "n \<le> biglen a" using assms(3) by (simp add: n_def)
  have b1: "\<not> bigpos b \<longrightarrow> (1 :: limb) = 0 \<or> mpn_val (bigdig b) \<noteq> 0"
    using mpn_val_pos [OF assms(2)] False by simp
  obtain R out where R: "do_bitop_loop op (bigpos a) (bigpos b) rp n (bigdig a) (bigdig b) 1 1 1 = Some (R, out)"
      "length R = n" "int (mpn_val R) = take_bit (64 * n) (twos rp ?Z 1)"
      "\<not> rp \<longrightarrow> (out = 1 \<longleftrightarrow> take_bit (64 * n) ?Z = 0)"
    using do_bitop_loop_correct [OF n order_refl order_refl order_refl b1, of op "bigpos a" rp]
    unfolding big_val_twos by auto
  have high: "drop_bit (64 * n) ?Z = (if rp then 0 else - 1)"
    unfolding int_bitop_split(2)
    using False assms(3) drop_sign [OF assms(1)] drop_sign [OF assms(2)]
    by (auto simp: n_def rp_def int_bitop_def)
  have Z: "?Z = take_bit (64 * n) ?Z + 2 ^ (64 * n) * (if rp then 0 else - 1)"
    unfolding high [symmetric] by (simp add: take_bit_eq_mod drop_bit_eq_div)
  define ds where "ds = (if \<not> rp \<and> out = 1 then replicate n 0 @ [1] else take (bigdig_length R n) R)"
  have ds: "ds \<noteq> [] \<longrightarrow> last ds \<noteq> 0" using take_digits_correct(2) [OF R(2)] by (simp add: ds_def)
  have "(if rp then 1 else - 1) * int (mpn_val ds) = ?Z"
  proof (cases rp)
    case True
    then show ?thesis using Z R(3) take_digits_correct(1) [OF R(2)] by (simp add: ds_def twos_def)
  next
    case False
    have neg: "- ?Z = 2 ^ (64 * n) - take_bit (64 * n) ?Z" using Z False by simp
    show ?thesis
    proof (cases "take_bit (64 * n) ?Z = 0")
      case True
      then show ?thesis using Z R(4) False by (simp add: ds_def)
    next
      case nz: False
      have "take_bit (64 * n) (- ?Z) = - ?Z"
        using neg nz take_bit_nonnegative [of "64 * n" ?Z] take_bit_int_less_exp [of "64 * n" ?Z]
        by (intro take_bit_int_eq_self) linarith+
      then show ?thesis using R(3,4) nz False take_digits_correct(1) [OF R(2)] by (simp add: ds_def twos_def)
    qed
  qed
  moreover have "do_bitop a b op = Some (finish_digits rp ds)"
    using False R(1) unfolding do_bitop_def rp_def n_def
    by (auto simp: ds_def rp_def n_def finish_digits_def Let_def)
  ultimately show ?thesis using finish_digits_correct [OF ds, of rp] by simp
qed

section \<open>Shifts\<close>

text \<open>Rounding up the quotient of the magnitude is rounding down the quotient of the negated number.\<close>

definition shifted_magnitude :: "bool \<Rightarrow> nat \<Rightarrow> nat \<Rightarrow> nat" where
  "shifted_magnitude pos M s = M div 2 ^ s + (if \<not> pos \<and> M mod 2 ^ s \<noteq> 0 then 1 else 0)"

lemma shifted_magnitude_int:
  "(if p then 1 else - 1) * int (shifted_magnitude p M s) = (if p then int M else - int M) div 2 ^ s"
proof (cases p)
  case True
  then show ?thesis by (simp add: shifted_magnitude_def zdiv_int)
next
  case False
  have "- int M div int (2 ^ s) = (if int M mod int (2 ^ s) = 0 then - (int M div int (2 ^ s)) else - (int M div int (2 ^ s)) - 1)"
    by (rule zdiv_zminus1_eq_if) simp
  then have "- int M div int (2 ^ s) = (if M mod 2 ^ s = 0 then - int (M div 2 ^ s) else - int (M div 2 ^ s) - 1)"
    by (simp only: zdiv_int [symmetric] zmod_int [symmetric] of_nat_eq_0_iff)
  then show ?thesis using False by (simp add: shifted_magnitude_def)
qed

lemma div_mod_words:
  fixes M :: nat
  assumes "M = L + 2 ^ (64 * w) * H" "L < 2 ^ (64 * w)"
  shows "M div 2 ^ (64 * w + k) = H div 2 ^ k" "M mod 2 ^ (64 * w + k) = 0 \<longleftrightarrow> L = 0 \<and> H mod 2 ^ k = 0"
proof -
  have d: "M div 2 ^ (64 * w) = H" "M mod 2 ^ (64 * w) = L" using assms by simp_all
  show "M div 2 ^ (64 * w + k) = H div 2 ^ k" by (simp add: power_add div_mult2_eq d)
  show "M mod 2 ^ (64 * w + k) = 0 \<longleftrightarrow> L = 0 \<and> H mod 2 ^ k = 0"
    by (auto simp: power_add mod_mult2_eq d)
qed

lemma no_carry: "x + P * c = y \<Longrightarrow> y < P \<Longrightarrow> c = (0 :: nat)"
  by (cases c) auto

lemma shift_right_correct:
  assumes "big_ok n" "s div 64 < biglen n"
  shows "mpn_val (shift_right_digits n s) = shifted_magnitude (bigpos n) (mpn_val (bigdig n)) s"
proof -
  define w k where "w = s div 64" and "k = s mod 64"
  have s: "s = 64 * w + k" and k: "k < 64" by (simp_all add: w_def k_def)
  let ?M = "mpn_val (bigdig n)"
  define L H where "L = mpn_val (take w (bigdig n))" and "H = mpn_val (drop w (bigdig n))"
  have w: "w < biglen n" using assms(2) by (simp add: w_def)
  have M: "?M = L + 2 ^ (64 * w) * H" using w unfolding L_def H_def by (intro mpn_val_take_drop) simp
  have "L < 2 ^ (64 * w)" using mpn_val_less [of "take w (bigdig n)"] w by (simp add: L_def)
  note Q = div_mod_words [OF M this, of k, folded s]
  have L: "(\<exists>d \<in> set (take w (bigdig n)). d \<noteq> 0) \<longleftrightarrow> L \<noteq> 0" unfolding L_def mpn_val_eq_0_iff by blast
  define ds where "ds = drop w (bigdig n) @ (if k = 0 \<and> \<not> bigpos n then [0] else [])"
  have ds: "ds \<noteq> []" "mpn_val ds = H" using w by (simp_all add: ds_def H_def)
  obtain r out where r: "(if k \<noteq> 0 then mpn_rshift ds k else (ds, 0)) = (r, out)" by fastforce
  have R: "mpn_val r = H div 2 ^ k" "length r = length ds" "out \<noteq> 0 \<longleftrightarrow> H mod 2 ^ k \<noteq> 0"
    using r ds k mpn_rshift_correct [of ds k r out] by (auto split: if_splits)
  have digits: "shift_right_digits n s =
      (if \<not> bigpos n \<and> (L \<noteq> 0 \<or> out \<noteq> 0) then fst (mpn_add_1 r 1) else r)"
  proof -
    have "drop w (bigdig n) @ replicate ((if k = 0 \<and> \<not> bigpos n then biglen n - w + 1 else biglen n - w) - (biglen n - w)) 0 = ds"
      by (simp add: ds_def)
    then show ?thesis using r L
      by (auto simp: shift_right_digits_def Let_def WORD_SIZE_def simp flip: w_def k_def)
  qed
  show ?thesis
  proof (cases "\<not> bigpos n \<and> (L \<noteq> 0 \<or> out \<noteq> 0)")
    case False
    then show ?thesis using Q R digits by (auto simp: shifted_magnitude_def)
  next
    case True
    obtain t c where t: "mpn_add_1 r 1 = (t, c)" by fastforce
    have "r \<noteq> []" using R(2) ds(1) by auto
    note T = mpn_add_1_correct [OF t this]
    have "H div 2 ^ k + 1 < 2 ^ (64 * length r)"
    proof (cases "k = 0")
      case True
      have "H < 2 ^ (64 * length (drop w (bigdig n)))" unfolding H_def by (rule mpn_val_less)
      moreover have "length r = Suc (length (drop w (bigdig n)))"
        using True \<open>\<not> bigpos n \<and> _\<close> R(2) by (simp add: ds_def)
      moreover have "(2 :: nat) ^ (64 * length (drop w (bigdig n))) + 1 \<le> 2 ^ (64 * Suc (length (drop w (bigdig n))))"
        by (simp add: power_add)
      ultimately show ?thesis using True by simp
    next
      case False
      then have "(2 :: nat) * (H div 2 ^ k) \<le> 2 ^ k * (H div 2 ^ k)"
        by (intro mult_le_mono1) (simp add: self_le_power)
      also have "\<dots> \<le> H" by simp
      also have "H < 2 ^ (64 * length r)" using mpn_val_less [of ds] ds(2) R(2) by simp
      finally have h: "2 * (H div 2 ^ k) < 2 ^ (64 * length r)" .
      have "(2 :: nat) ^ 64 \<le> 2 ^ (64 * length r)" using \<open>r \<noteq> []\<close> by (intro power_increasing) (simp_all add: Suc_le_eq)
      then show ?thesis using h by simp
    qed
    then have "unat c = 0" using R(1) by (intro no_carry [OF T(1)]) simp
    then have "mpn_val t = H div 2 ^ k + 1" using T(1) R(1) by simp
    then show ?thesis using True Q R digits t by (auto simp: shifted_magnitude_def)
  qed
qed

lemma shift_left_correct:
  assumes "bigdig n \<noteq> []"
  shows "mpn_val (shift_left_digits n s) = 2 ^ s * mpn_val (bigdig n)"
proof -
  define w k where "w = s div 64" and "k = s mod 64"
  have s: "s = 64 * w + k" and k: "k < 64" by (simp_all add: w_def k_def)
  have "mpn_val (if k \<noteq> 0 then fst (mpn_lshift (bigdig n @ [0]) k) else bigdig n) = 2 ^ k * mpn_val (bigdig n)"
  proof (cases "k = 0")
    case False
    obtain r c where r: "mpn_lshift (bigdig n @ [0]) k = (r, c)" by fastforce
    have T: "mpn_val r + 2 ^ (64 * Suc (biglen n)) * unat c = 2 ^ k * mpn_val (bigdig n)"
      using mpn_lshift_correct [OF r] False k by simp
    have "2 ^ k * mpn_val (bigdig n) < 2 ^ 64 * 2 ^ (64 * biglen n)"
      using mpn_val_less [of "bigdig n"] k by (intro mult_strict_mono power_strict_increasing) simp_all
    then have "unat c = 0" by (intro no_carry [OF T]) (simp add: power_add)
    then show ?thesis using T r False by simp
  qed simp
  moreover have "shift_left_digits n s = replicate w 0 @ (if k \<noteq> 0 then fst (mpn_lshift (bigdig n @ [0]) k) else bigdig n)"
    by (auto simp: shift_left_digits_def Let_def WORD_SIZE_def simp flip: w_def k_def)
  ultimately show ?thesis by (simp add: s power_add)
qed

lemma shift_correct:
  assumes "big_ok n"
  shows "int_val (scheme_bignum_shift n s) = (if s < 0 then big_val n div 2 ^ nat (- s) else big_val n * 2 ^ nat s)"
    and "int_ok (scheme_bignum_shift n s)"
proof -
  let ?M = "mpn_val (bigdig n)" and ?p = "bigpos n"
  let ?v = "if s < 0 then big_val n div 2 ^ nat (- s) else big_val n * 2 ^ nat s"
  have bv: "big_val n = (if ?p then int ?M else - int ?M)" by (simp add: big_val_def)
  have "int_val (scheme_bignum_shift n s) = ?v \<and> int_ok (scheme_bignum_shift n s)"
  proof -
    consider (zero) "bigdig n = []" | (none) "bigdig n \<noteq> []" "s = 0"
      | (all) "bigdig n \<noteq> []" "s < 0" "nat (- s) div 64 \<ge> biglen n"
      | (some) "bigdig n \<noteq> []" "s \<noteq> 0" "s < 0 \<longrightarrow> nat (- s) div 64 < biglen n"
      by linarith
    then show ?thesis
    proof cases
      case zero
      then show ?thesis using make_integer_value(2) [of 0] by (simp add: scheme_bignum_shift_def bv)
    next
      case none
      then show ?thesis using normalize_correct [OF assms] by (simp add: scheme_bignum_shift_def bignum_copy_0)
    next
      case all
      let ?s = "nat (- s)"
      have "64 * biglen n \<le> ?s" using all(3) by simp
      then have "(2 :: nat) ^ (64 * biglen n) \<le> 2 ^ ?s" by (intro power_increasing) simp_all
      then have M: "?M < 2 ^ ?s" "0 < ?M"
        using less_le_trans [OF mpn_val_less] mpn_val_pos [OF assms all(1)] by blast+
      have "shifted_magnitude ?p ?M ?s = (if ?p then 0 else 1)" using M by (simp add: shifted_magnitude_def)
      then have "?v = (if ?p then 0 else - 1)"
        using shifted_magnitude_int [of ?p ?M ?s] all(2) by (simp add: bv split: if_splits)
      moreover have "scheme_bignum_shift n s = (if ?p then scheme_make_integer 0 else scheme_make_integer (- 1))"
        using all by (simp add: scheme_bignum_shift_def WORD_SIZE_def)
      ultimately show ?thesis
        using make_integer_value(2) [of 0] make_integer_value(2) [of "- 1"] by (cases ?p) simp_all
    next
      case some
      define ds where "ds = (if s < 0 then shift_right_digits n (nat (- s)) else shift_left_digits n (nat s))"
      define o1 where "o1 = set_digits ?p ds"
      have v: "(if ?p then 1 else - 1) * int (mpn_val ds) = ?v"
      proof (cases "s < 0")
        case True
        then have "mpn_val ds = shifted_magnitude ?p ?M (nat (- s))"
          using some(3) by (simp add: ds_def shift_right_correct [OF assms])
        then show ?thesis using True shifted_magnitude_int [of ?p ?M "nat (- s)"] by (simp add: bv)
      next
        case False
        then have "mpn_val ds = 2 ^ nat s * ?M" using some(1) by (simp add: ds_def shift_left_correct)
        then show ?thesis using False by (simp add: bv)
      qed
      have single: "make_single_bigdig_result ?p (bigdig o1 ! 0) = scheme_bignum_normalize o1" if one: "biglen o1 = 1"
      proof -
        obtain d where "bigdig o1 = [d]" using one by (cases "bigdig o1") auto
        moreover have "bigpos o1 = ?p" by (simp add: o1_def set_digits_def)
        ultimately have "o1 = \<lparr>bigpos = ?p, bigdig = [d]\<rparr>" by simp
        then show ?thesis by (simp add: make_single_bigdig_result_def)
      qed
      have "scheme_bignum_shift n s = (if biglen o1 = 0 then scheme_make_integer 0 else scheme_bignum_normalize o1)"
        using some single by (auto simp: scheme_bignum_shift_def WORD_SIZE_def Let_def ds_def o1_def)
      moreover have "big_val o1 = ?v" unfolding o1_def v [symmetric] by (rule set_digits_correct(2))
      moreover have "biglen o1 = 0 \<Longrightarrow> big_val o1 = 0" by (simp add: big_val_def)
      ultimately show ?thesis
        using normalize_correct [of o1] set_digits_correct(1) [of ?p ds] make_integer_value(2) [of 0]
        by (auto simp: o1_def)
    qed
  qed
  then show "int_val (scheme_bignum_shift n s) = ?v" "int_ok (scheme_bignum_shift n s)" by simp_all
qed

end
