(* ===== verification/IntegerLaws.thy ===== *)
theory IntegerLaws
  imports Integers BignumBits
begin

text \<open>
  Exact integers behave like the mathematical integers: every operation on normal fixnums and
  bignums returns the normal representation of the exact result.
\<close>

section \<open>Fixnums and small bignums\<close>

lemma make_integer_fix: "scheme_make_integer i = Fix j \<Longrightarrow> sint j = signed_take_bit 62 (sint i)"
  using make_integer_value(1) [of i] by simp

lemma int_val_sub [simp]: "SCHEME_INT_VAL (scheme_make_integer i) = signed_take_bit 62 i"
  by (simp add: make_integer_word)

lemma sint_stb: "sint (signed_take_bit 62 i :: intptr) = signed_take_bit 62 (sint i)"
  using make_integer_value(1) [of i] by (simp add: make_integer_word)

lemma make_integer_stb: "int_val (scheme_make_integer i) = sint (signed_take_bit 62 i :: intptr)"
  by (simp add: make_integer_word)

lemma fixnum_rangeD: "fixnum_range x \<Longrightarrow> - (2 ^ 62) \<le> x \<and> x < 2 ^ 62"
  by (simp add: fixnum_range_def)

lemma stb_range: "fixnum_range (sint (signed_take_bit 62 i :: intptr))"
  using make_integer_value(2) [of i] by (simp add: make_integer_word)

lemma small_canon: "big_canon (scheme_make_small_bignum v)"
  using small_bignum_correct [of v] by (auto simp: big_canon_def big_val_def)

lemma int_ok_canon: "int_ok (Big b) \<Longrightarrow> big_canon b"
  by (auto simp: big_canon_def big_val_def fixnum_range_def split: if_splits)

lemma int_ok_big: "int_ok (Big b) \<Longrightarrow> big_ok b"
  by simp

lemmas small_ok = small_bignum_correct(1) and small_val = small_bignum_correct(2)

lemma sint_add: "fixnum_range (sint a) \<Longrightarrow> fixnum_range (sint b) \<Longrightarrow> sint (a + b :: intptr) = sint a + sint b"
  by (auto simp: fixnum_range_def sint_word_add intro!: signed_take_bit_int_eq_self)

lemma sint_sub: "fixnum_range (sint a) \<Longrightarrow> fixnum_range (sint b) \<Longrightarrow> sint (a - b :: intptr) = sint a - sint b"
  by (auto simp: fixnum_range_def sint_word_diff intro!: signed_take_bit_int_eq_self)

lemma sint_neg: "fixnum_range (sint a) \<Longrightarrow> sint (- a :: intptr) = - sint a"
  by (auto simp: fixnum_range_def sint_word_minus intro!: signed_take_bit_int_eq_self)

section \<open>Addition and subtraction\<close>

lemma ADD_correct:
  assumes "fixnum_range (sint a)" "fixnum_range (sint b)"
  shows "int_val (ADD a b) = sint a + sint b" "int_ok (ADD a b)"
proof -
  have slow: "int_val (ADD_slow a b) = sint a + sint b" "int_ok (ADD_slow a b)"
    using add_sub_correct [OF small_ok small_ok, of a b False] by (simp_all add: ADD_slow_def scheme_bignum_add_def small_val)
  let ?r = "signed_take_bit 62 (a + b) :: intptr"
  have "int_val (scheme_make_integer (a + b)) = sint a + sint b" if "b = ?r - a"
  proof -
    have "?r = a + b" using that by (metis add.commute diff_add_cancel)
    then show ?thesis using sint_add [OF assms] by (simp add: make_integer_stb)
  qed
  then show "int_val (ADD a b) = sint a + sint b" "int_ok (ADD a b)"
    using slow make_integer_value(2) [of "a + b"] by (simp_all add: ADD_def Let_def)
qed

lemma SUBTRACT_correct:
  assumes "fixnum_range (sint a)" "fixnum_range (sint b)"
  shows "int_val (SUBTRACT a b) = sint a - sint b" "int_ok (SUBTRACT a b)"
proof -
  have slow: "int_val (SUBTRACT_slow a b) = sint a - sint b" "int_ok (SUBTRACT_slow a b)"
    using add_sub_correct [OF small_ok small_ok, of a b True] by (simp_all add: SUBTRACT_slow_def scheme_bignum_subtract_def small_val)
  let ?r = "signed_take_bit 62 (a - b) :: intptr"
  have "int_val (scheme_make_integer (a - b)) = sint a - sint b" if "a = ?r + b"
  proof -
    have "?r = a - b" using that by (metis add_diff_cancel_right')
    then show ?thesis using sint_sub [OF assms] by (simp add: make_integer_stb)
  qed
  then show "int_val (SUBTRACT a b) = sint a - sint b" "int_ok (SUBTRACT a b)"
    using slow make_integer_value(2) [of "a - b"] by (simp_all add: SUBTRACT_def Let_def)
qed

lemma bin_plus_correct:
  assumes "int_ok x" "int_ok y"
  shows "int_val (scheme_bin_plus x y) = int_val x + int_val y" "int_ok (scheme_bin_plus x y)"
  using assms ADD_correct add_sub_correct [where sub = False] small_ok small_val
  by (auto simp: scheme_bin_plus_def scheme_bignum_add_def split: integer_obj.split)

lemma bin_minus_correct:
  assumes "int_ok x" "int_ok y"
  shows "int_val (scheme_bin_minus x y) = int_val x - int_val y" "int_ok (scheme_bin_minus x y)"
  using assms SUBTRACT_correct add_sub_correct [where sub = True] small_ok small_val
  by (auto simp: scheme_bin_minus_def scheme_bignum_subtract_def split: integer_obj.split)

section \<open>Multiplication\<close>

lemma sdiv_rest:
  fixes R B :: int
  assumes "B \<noteq> 0"
  shows "\<bar>R - (R sdiv B) * B\<bar> < \<bar>B\<bar>"
proof -
  have "(R sdiv B) * B = sgn R * (\<bar>R\<bar> div \<bar>B\<bar> * \<bar>B\<bar>)"
    by (simp add: signed_divide_int_def mult.assoc mult.left_commute sgn_mult_abs algebra_simps abs_sgn)
  moreover have "R = sgn R * \<bar>R\<bar>" by (simp add: sgn_if)
  ultimately have "R - (R sdiv B) * B = sgn R * (\<bar>R\<bar> - \<bar>R\<bar> div \<bar>B\<bar> * \<bar>B\<bar>)"
    by (metis right_diff_distrib)
  also have "\<dots> = sgn R * (\<bar>R\<bar> mod \<bar>B\<bar>)" by (simp add: minus_div_mult_eq_mod)
  finally have e: "R - (R sdiv B) * B = sgn R * (\<bar>R\<bar> mod \<bar>B\<bar>)" .
  have "\<bar>sgn R * (\<bar>R\<bar> mod \<bar>B\<bar>)\<bar> \<le> \<bar>R\<bar> mod \<bar>B\<bar>"
    using assms by (simp add: abs_mult sgn_if)
  also have "\<dots> < \<bar>B\<bar>" using assms by simp
  finally show ?thesis unfolding e .
qed

lemma product_congruent: "2 ^ 63 dvd sint (signed_take_bit 62 (a * b) :: intptr) - sint a * sint b"
proof -
  have "take_bit 63 (sint (signed_take_bit 62 (a * b) :: intptr)) = take_bit 63 (sint a * sint b)"
    by (simp add: sint_stb sint_word_mult take_bit_signed_take_bit min_def)
  then show ?thesis by (simp add: take_bit_eq_mod mod_eq_dvd_iff)
qed

context mpn_multiplier
begin

lemma big_multiply:
  assumes "big_ok a" "big_ok b"
  shows "\<exists>r. scheme_bignum_multiply mpn_mul a b = Some r \<and> int_val r = big_val a * big_val b \<and> int_ok r"
  using multiply_correct [OF assms, of True] by (simp add: scheme_bignum_multiply_def)

lemma MULTIPLY_correct:
  assumes "fixnum_range (sint a)" "fixnum_range (sint b)"
  shows "\<exists>r. MULTIPLY mpn_mul a b = Some r \<and> int_val r = sint a * sint b \<and> int_ok r"
proof -
  let ?r = "signed_take_bit 62 (a * b) :: intptr"
  have r: "fixnum_range (sint ?r)" by (rule stb_range)
  have fast: "sint ?r = sint a * sint b"
    if "if b = - 1 then a = ?r * - 1 else sint a = sint ?r sdiv sint b" "b \<noteq> 0"
  proof (cases "b = - 1")
    case True
    then have "sint a = - sint ?r" using that(1) sint_neg [OF r] by simp
    then show ?thesis using True by simp
  next
    case False
    then have "sint a = sint ?r sdiv sint b" using that(1) by simp
    moreover have b: "sint b \<noteq> 0" using that(2) by (metis signed_eq_0_iff)
    ultimately have "\<bar>sint ?r - sint a * sint b\<bar> < \<bar>sint b\<bar>" using sdiv_rest [OF b, of "sint ?r"] by simp
    moreover have "\<bar>sint b\<bar> \<le> 2 ^ 62" using fixnum_rangeD [OF assms(2)] by linarith
    ultimately have "\<bar>sint ?r - sint a * sint b\<bar> < 2 ^ 63" by simp
    then show ?thesis using product_congruent [of a b] dvd_imp_le_int [of "sint ?r - sint a * sint b" "2 ^ 63"]
      by (cases "sint ?r - sint a * sint b = 0") auto
  qed
  show ?thesis
    using fast big_multiply [OF small_ok small_ok, of a b] make_integer_value(2) [of "a * b"] make_integer_value(2) [of 0]
    by (auto simp: MULTIPLY_def Let_def small_val make_integer_stb)
qed

lemma bin_mult_correct:
  assumes "int_ok x" "int_ok y"
  shows "\<exists>r. scheme_bin_mult mpn_mul x y = Some r \<and> int_val r = int_val x * int_val y \<and> int_ok r"
proof (cases x)
  case (Fix a)
  show ?thesis
  proof (cases y)
    case (Fix b)
    then show ?thesis using \<open>x = Fix a\<close> MULTIPLY_correct assms by (simp add: scheme_bin_mult_def)
  next
    case (Big y)
    then show ?thesis
      using \<open>x = Fix a\<close> assms big_multiply [OF small_ok, of y a] make_integer_value(2) [of 0]
      by (auto simp: scheme_bin_mult_def small_val)
  qed
next
  case (Big x)
  show ?thesis
  proof (cases y)
    case (Fix b)
    then show ?thesis
      using \<open>_ = Big x\<close> assms big_multiply [OF _ small_ok, of x b] make_integer_value(2) [of 0]
      by (auto simp: scheme_bin_mult_def small_val)
  next
    case (Big y)
    then show ?thesis using \<open>_ = Big x\<close> assms big_multiply [of x y] by (simp add: scheme_bin_mult_def)
  qed
qed

end

section \<open>Comparison\<close>

lemmas canon_val = big_eq_correct big_lt_correct

lemma comparisons_correct:
  assumes "int_ok x" "int_ok y"
  shows "scheme_bin_eq x y \<longleftrightarrow> int_val x = int_val y" "scheme_bin_lt x y \<longleftrightarrow> int_val x < int_val y"
    "scheme_bin_gt x y \<longleftrightarrow> int_val x > int_val y" "scheme_bin_lt_eq x y \<longleftrightarrow> int_val x \<le> int_val y"
    "scheme_bin_gt_eq x y \<longleftrightarrow> int_val x \<ge> int_val y"
  unfolding scheme_bin_eq_def scheme_bin_lt_def scheme_bin_gt_def scheme_bin_lt_eq_def scheme_bin_gt_eq_def
    scheme_bignum_gt_def scheme_bignum_le_def scheme_bignum_ge_def
  using assms
  by (cases x; cases y; simp add: canon_val small_canon int_ok_canon small_val not_less)+

section \<open>Bitwise operations\<close>

lemma bignum_bitop_correct:
  assumes "big_ok a" "big_ok b" "op \<le> 2"
  shows "\<exists>r. (if biglen a > biglen b then do_bitop a b op else do_bitop b a op) = Some r
    \<and> int_val r = int_bitop op (big_val a) (big_val b) \<and> int_ok r"
proof -
  have comm: "int_bitop op (big_val b) (big_val a) = int_bitop op (big_val a) (big_val b)"
    by (simp add: int_bitop_def and.commute or.commute xor.commute)
  show ?thesis
    using do_bitop_correct [OF assms(1,2) _ assms(3)] do_bitop_correct [OF assms(2,1) _ assms(3)]
    by (cases "biglen a > biglen b") (simp_all add: comm)
qed

lemma sint_bitop: "sint (bitop op a b :: intptr) = int_bitop op (sint a) (sint b)"
  by (simp add: bitop_def int_bitop_def signed_and_eq signed_or_eq signed_xor_eq)

lemma int_bitop_range:
  assumes "fixnum_range x" "fixnum_range y"
  shows "fixnum_range (int_bitop op x y)"
proof -
  have r: "fixnum_range z \<longleftrightarrow> drop_bit 62 z = 0 \<or> drop_bit 62 z = - 1" for z
  proof -
    have "drop_bit 62 z = 0 \<longleftrightarrow> 0 \<le> z \<and> z < 2 ^ 62"
      by (auto simp: drop_bit_eq_div zdiv_eq_0_iff)
    moreover have "drop_bit 62 z = - 1 \<longleftrightarrow> - (2 ^ 62) \<le> z \<and> z < 0"
    proof
      assume "drop_bit 62 z = - 1"
      then have "z = - (2 ^ 62) + z mod 2 ^ 62"
        using mult_div_mod_eq [of "2 ^ 62" z] by (simp add: drop_bit_eq_div)
      moreover have "0 \<le> z mod 2 ^ 62" "z mod 2 ^ 62 < 2 ^ 62" by simp_all
      ultimately show "- (2 ^ 62) \<le> z \<and> z < 0" by linarith
    next
      assume "- (2 ^ 62) \<le> z \<and> z < 0"
      then show "drop_bit 62 z = - 1"
        unfolding drop_bit_eq_div by (intro int_div_pos_eq [of _ _ _ "z + 2 ^ 62"]) simp_all
    qed
    ultimately show ?thesis by (auto simp: fixnum_range_def)
  qed
  show ?thesis using assms unfolding r int_bitop_split(2) by (auto simp: int_bitop_def)
qed

lemma gen_bin_int_op_correct:
  assumes "int_ok x" "int_ok y" "op \<le> 2"
  shows "\<exists>r. GEN_BIN_INT_OP (bitop op) (\<lambda>a b. if biglen a > biglen b then do_bitop a b op else do_bitop b a op) x y = Some r
    \<and> int_val r = int_bitop op (int_val x) (int_val y) \<and> int_ok r"
proof -
  have fx: "int_val (scheme_make_integer (bitop op a b)) = int_bitop op (sint a) (sint b)"
    if "fixnum_range (sint a)" "fixnum_range (sint b)" for a b
    using int_bitop_range [OF that, of op] by (simp add: make_integer_exact sint_bitop)
  have small: "big_ok z \<Longrightarrow> \<exists>r. (if biglen (scheme_make_small_bignum a) > biglen z then do_bitop (scheme_make_small_bignum a) z op
        else do_bitop z (scheme_make_small_bignum a) op) = Some r \<and> int_val r = int_bitop op (sint a) (big_val z) \<and> int_ok r"
    "big_ok z \<Longrightarrow> \<exists>r. (if biglen z > biglen (scheme_make_small_bignum a) then do_bitop z (scheme_make_small_bignum a) op
        else do_bitop (scheme_make_small_bignum a) z op) = Some r \<and> int_val r = int_bitop op (big_val z) (sint a) \<and> int_ok r" for a z
    using bignum_bitop_correct [OF small_ok _ assms(3), of z a] bignum_bitop_correct [OF _ small_ok assms(3), of z a]
    by (simp_all only: small_val)
  show ?thesis
  proof (cases x)
    case (Fix a)
    then show ?thesis using assms fx small(1) make_integer_value(2)
      by (cases y) (simp_all add: GEN_BIN_INT_OP_def)
  next
    case (Big x')
    then show ?thesis using assms small(2) bignum_bitop_correct [OF _ _ assms(3), of x']
      by (cases y) (simp_all add: GEN_BIN_INT_OP_def)
  qed
qed

lemma bignum_not_correct:
  assumes "big_ok b"
  shows "int_val (scheme_bignum_not b) = NOT (big_val b)" "int_ok (scheme_bignum_not b)"
proof -
  have one: "big_ok bignum_one" "big_val bignum_one = 1"
    using small_bignum_correct [of 1] by (simp_all add: bignum_one_def scheme_make_bignum_def)
  have A: "int_val (scheme_bignum_add1 b) = big_val b + 1" "int_ok (scheme_bignum_add1 b)"
    using add_sub_correct [OF assms one(1), of False] one(2) by (simp_all add: scheme_bignum_add1_def)
  have n: "NOT (big_val b) = - (big_val b + 1)" by (simp add: not_int_def)
  have "int_val (scheme_bignum_not b) = NOT (big_val b) \<and> int_ok (scheme_bignum_not b)"
  proof (cases "scheme_bignum_add1 b")
    case (Fix i)
    then show ?thesis
      using A bin_minus_correct [OF make_integer_value(2) [of 0], of "Fix i"] n by (simp add: scheme_bignum_not_def)
  next
    case (Big o1)
    have ok: "big_ok (o1\<lparr>bigpos := \<not> bigpos o1\<rparr>)" "big_val (o1\<lparr>bigpos := \<not> bigpos o1\<rparr>) = - big_val o1"
      using A(2) Big by (simp_all add: big_ok_def big_val_def)
    show ?thesis using normalize_correct [OF ok(1)] ok(2) A(1) Big n by (simp add: scheme_bignum_not_def)
  qed
  then show "int_val (scheme_bignum_not b) = NOT (big_val b)" "int_ok (scheme_bignum_not b)" by blast+
qed

lemma bitwise_not_correct:
  assumes "int_ok x"
  shows "int_val (bitwise_not x) = NOT (int_val x)" "int_ok (bitwise_not x)"
proof -
  have "int_val (scheme_make_integer (NOT a)) = NOT (sint a)" if "fixnum_range (sint a)" for a
  proof -
    have "NOT a = - 1 - a" by (simp add: not_eq_complement)
    then have "sint (NOT a) = - 1 - sint a" using sint_sub [of "- 1" a] that by (simp add: fixnum_range_def)
    moreover have "fixnum_range (- 1 - sint a)" using fixnum_rangeD [OF that] by (simp add: fixnum_range_def)
    ultimately show ?thesis using make_integer_exact [of "NOT a"] by (simp add: not_int_def)
  qed
  then show "int_val (bitwise_not x) = NOT (int_val x)" "int_ok (bitwise_not x)"
    using assms make_integer_value(2) bignum_not_correct
    by (auto simp: bitwise_not_def split: integer_obj.split)
qed

section \<open>Shifts\<close>

definition int_shift :: "int \<Rightarrow> int \<Rightarrow> int" where
  "int_shift x s = (if s < 0 then x div 2 ^ nat (- s) else x * 2 ^ nat s)"

lemma shift_try_correct:
  assumes "fixnum_range (sint i)" "0 \<le> s" "s \<le> MAX_SHIFT_TRY"
    "signed_drop_bit (nat s) (signed_take_bit 62 (push_bit (nat s) i) :: intptr) = i"
  shows "int_val (scheme_make_integer (push_bit (nat s) i)) = int_shift (sint i) s"
proof -
  let ?k = "nat s" and ?r = "signed_take_bit 62 (push_bit (nat s) i) :: intptr"
  have k: "?k \<le> 61" using assms(3) by (simp add: MAX_SHIFT_TRY_def)
  have "(2 :: int) ^ ?k < 2 ^ 63" using k by (intro power_strict_increasing) simp_all
  then have "sint (2 ^ ?k :: intptr) = 2 ^ ?k"
    using sint_word_of_int [of "2 ^ ?k"] order_trans [of "- (2 ^ 63)" 0 "2 ^ ?k :: int"] by simp
  then have "2 ^ 63 dvd sint ?r - sint i * 2 ^ ?k"
    using product_congruent [of i "2 ^ ?k"] by (simp add: push_bit_eq_mult)
  moreover have "(2 :: int) ^ ?k dvd 2 ^ 63" using k by (intro le_imp_power_dvd) simp
  ultimately have "2 ^ ?k dvd sint ?r - sint i * 2 ^ ?k" by (rule dvd_trans [rotated])
  then have "2 ^ ?k dvd (sint ?r - sint i * 2 ^ ?k) + sint i * 2 ^ ?k" by (rule dvd_add) (rule dvd_triv_right)
  then have "2 ^ ?k dvd sint ?r" by (simp only: diff_add_cancel)
  moreover have "sint ?r div 2 ^ ?k = sint i"
    using arg_cong [OF assms(4), of sint] by (simp add: sint_signed_drop_bit_eq drop_bit_eq_div)
  ultimately show ?thesis using assms(2) by (auto simp: make_integer_stb int_shift_def)
qed

lemma shift_down_correct:
  assumes "fixnum_range (sint i)" "0 < sint i" "s < 0"
  shows "int_val (if - s < MAX_SHIFT_EVER then scheme_make_integer (signed_drop_bit (nat (- s)) i) else scheme_make_integer 0)
    = int_shift (sint i) s"
proof (cases "- s < MAX_SHIFT_EVER")
  case True
  have "sint (signed_drop_bit (nat (- s)) i) = sint i div 2 ^ nat (- s)"
    by (simp add: sint_signed_drop_bit_eq drop_bit_eq_div)
  moreover have "0 \<le> sint i div 2 ^ nat (- s)" "sint i div 2 ^ nat (- s) \<le> sint i"
    using assms(2) zdiv_mono2 [of "sint i" 1 "2 ^ nat (- s)"] by (simp_all add: pos_imp_zdiv_nonneg_iff)
  ultimately show ?thesis
    using assms True make_integer_exact [of "signed_drop_bit (nat (- s)) i"] by (simp add: int_shift_def fixnum_range_def)
next
  case False
  then have "(2 :: int) ^ 64 \<le> 2 ^ nat (- s)" by (intro power_increasing) (simp_all add: MAX_SHIFT_EVER_def)
  then have "sint i < 2 ^ nat (- s)" using fixnum_rangeD [OF assms(1)] by simp
  then show ?thesis using assms(2,3) False by (simp add: int_shift_def div_pos_pos_trivial)
qed

lemma bitwise_shift_correct:
  assumes "int_ok v" "int_ok (Fix sw)" "constant_folding \<longrightarrow> sint sw \<le> 100"
  shows "\<exists>r. scheme_bitwise_shift constant_folding v (Fix sw) = Inr r
    \<and> int_val r = int_shift (int_val v) (sint sw) \<and> int_ok r"
proof -
  let ?s = "sint sw"
  have slow: "int_val (scheme_bignum_shift b ?s) = int_shift (big_val b) ?s \<and> int_ok (scheme_bignum_shift b ?s)"
    if "big_ok b" for b
    using shift_correct [OF that, of ?s] by (simp add: int_shift_def)
  show ?thesis
  proof (cases v)
    case (Big b)
    then show ?thesis using assms slow [of b] by (auto simp: scheme_bitwise_shift_def Let_def int_shift_def)
  next
    case (Fix i)
    have i: "fixnum_range (sint i)" using assms(1) Fix by simp
    have small: "int_val (scheme_bignum_shift (scheme_make_bignum i) ?s) = int_shift (sint i) ?s
        \<and> int_ok (scheme_bignum_shift (scheme_make_bignum i) ?s)"
      using slow [OF small_ok, of i] by (simp add: scheme_make_bignum_def small_val)
    consider "?s = 0" | "?s \<noteq> 0" "i = 0" | "?s < 0" "0 < sint i"
      | (fits) "?s > 0" "?s \<le> MAX_SHIFT_TRY" "0 < sint i" "sint (push_bit (nat ?s) i) > 0"
          "signed_drop_bit (nat ?s) (signed_take_bit 62 (push_bit (nat ?s) i) :: intptr) = i"
      | (slow) "?s \<noteq> 0" "i \<noteq> 0" "\<not> (0 < sint i \<and> ?s < 0)"
          "\<not> (0 < sint i \<and> ?s \<le> MAX_SHIFT_TRY \<and> sint (push_bit (nat ?s) i) > 0 \<and>
              signed_drop_bit (nat ?s) (signed_take_bit 62 (push_bit (nat ?s) i) :: intptr) = i)"
      by (cases "i = 0"; linarith)
    then show ?thesis
    proof cases
      case 3
      then have "i \<noteq> 0" by auto
      then show ?thesis using 3 Fix shift_down_correct [OF i, of ?s] make_integer_value(2)
        by (auto simp: scheme_bitwise_shift_def Let_def split: if_splits)
    next
      case fits
      then have "i \<noteq> 0" by auto
      then show ?thesis using fits Fix shift_try_correct [OF i, of ?s] make_integer_value(2)
        by (auto simp: scheme_bitwise_shift_def Let_def)
    next
      case slow
      then have "scheme_bitwise_shift constant_folding v (Fix sw) = Inr (scheme_bignum_shift (scheme_make_bignum i) ?s)"
        using Fix assms(3) unfolding scheme_bitwise_shift_def by (auto simp: Let_def)
      then show ?thesis using small Fix by simp
    qed (use assms(1) Fix in \<open>auto simp: scheme_bitwise_shift_def Let_def int_shift_def\<close>)
  qed
qed

section \<open>Exponentiation\<close>

lemma limb_bit_div: "bit (b :: uintptr) i \<longleftrightarrow> odd (unat b div 2 ^ i)"
proof (cases "i < 64")
  case True
  then have "bit b i \<longleftrightarrow> bit (unat b) i" by (simp add: bit_unsigned_iff)
  then show ?thesis by (simp only: bit_iff_odd)
next
  case False
  then have "(2 :: nat) ^ 64 \<le> 2 ^ i" by (intro power_increasing) simp_all
  then have "unat b < 2 ^ i" using unat_limb_less [of b] by linarith
  then show ?thesis using False by (simp add: bit_word.abs_eq [symmetric] div_less) (simp add: impossible_bit)
qed

lemma limb_div_step: "unat (b :: uintptr) div 2 ^ i = 2 * (unat b div 2 ^ Suc i) + (if bit b i then 1 else 0)"
proof -
  have "unat b div 2 ^ Suc i = unat b div 2 ^ i div 2" by (simp only: power_Suc2 div_mult2_eq)
  moreover have "q = 2 * (q div 2) + (if odd q then 1 else 0)" for q :: nat by (cases "even q") auto
  ultimately show ?thesis unfolding limb_bit_div by metis
qed

lemma highest_bit_correct:
  "unat b < 2 ^ n \<Longrightarrow> b \<noteq> 0 \<Longrightarrow> \<exists>k. highest_bit b n = Some k \<and> unat b < 2 ^ k"
proof (induction n)
  case 0
  then show ?case by (simp add: unat_eq_zero)
next
  case (Suc i)
  show ?case
  proof (cases "bit b i")
    case False
    have "unat b div 2 ^ Suc i = 0" using Suc.prems(1) by simp
    then have "unat b div 2 ^ i = 0" using limb_div_step [of b i] False by simp
    then have "unat b < 2 ^ i" by (simp add: div_eq_0_iff)
    then show ?thesis using Suc False by simp
  qed (use Suc.prems in simp)
qed

context mpn_multiplier
begin

lemma power_loop_correct:
  assumes "int_ok a"
  shows "int_ok res \<Longrightarrow> int_val res = int_val a ^ (unat b div 2 ^ i) \<Longrightarrow>
    \<exists>r. power_loop mpn_mul a b i res = Some r \<and> int_val r = int_val a ^ unat b \<and> int_ok r"
proof (induction i arbitrary: res)
  case (Suc i)
  obtain r1 where r1: "scheme_bin_mult mpn_mul res res = Some r1" "int_val r1 = int_val res * int_val res" "int_ok r1"
    using bin_mult_correct [OF Suc.prems(1) Suc.prems(1)] by auto
  obtain r2 where r2: "scheme_bin_mult mpn_mul a r1 = Some r2" "int_val r2 = int_val a * int_val r1" "int_ok r2"
    using bin_mult_correct [OF assms r1(3)] by auto
  define r3 where "r3 = (if bit b i then r2 else r1)"
  have "int_val r3 = int_val a ^ (unat b div 2 ^ i)"
    unfolding limb_div_step [of b i] r3_def using r1(2) r2(2) Suc.prems(2)
    by (simp add: mult_2 power_add del: power_Suc)
  moreover have "int_ok r3" using r1(3) r2(3) by (simp add: r3_def)
  ultimately obtain r where "power_loop mpn_mul a b i r3 = Some r" "int_val r = int_val a ^ unat b" "int_ok r"
    using Suc.IH by blast
  then show ?case using r1(1) r2(1) by (auto simp: r3_def split: if_splits)
qed simp

lemma power_correct:
  assumes "int_ok a" "b \<noteq> 0"
  shows "\<exists>r. do_power mpn_mul a b = Some r \<and> int_val r = int_val a ^ unat b \<and> int_ok r"
proof -
  obtain k where k: "highest_bit b 64 = Some k" "unat b < 2 ^ k"
    using highest_bit_correct [OF unat_limb_less assms(2)] by blast
  have one: "int_ok (scheme_make_integer 1)" "int_val (scheme_make_integer 1) = 1"
    using make_integer_value(2) [of 1] by (simp_all add: make_integer_exact fixnum_range_def)
  show ?thesis
    using power_loop_correct [OF assms(1) one(1), of b k] one(2) k by (simp add: do_power_def)
qed

end

section \<open>Square root\<close>

lemma or_disjoint_power:
  assumes "2 ^ Suc i dvd unat r" "i < 64" "unat r + 2 ^ i < 2 ^ 64"
  shows "unat (r OR push_bit i 1 :: uintptr) = unat r + 2 ^ i"
proof -
  have "\<not> bit r i"
    using assms(1) by (auto simp: limb_bit_div elim!: dvdE simp: mult.assoc)
  then have "r AND push_bit i 1 = 0"
    by (intro bit_word_eqI) (auto simp: bit_and_iff bit_exp_iff)
  then have "r OR push_bit i 1 = r + push_bit i 1" by (simp only: disjunctive_add_eq_or)
  moreover have "unat (push_bit i 1 :: uintptr) = 2 ^ i"
  proof -
    have "unat (push_bit i 1 :: uintptr) = take_bit 64 (push_bit i (unat (1 :: uintptr)))"
      by (simp only: unsigned_push_bit_eq len_bit0 len_num1) simp
    also have "\<dots> = 2 ^ i mod 2 ^ 64" by (simp add: take_bit_eq_mod push_bit_of_1)
    also have "\<dots> = 2 ^ i" using assms(2) by (intro mod_less power_strict_increasing) simp_all
    finally show ?thesis .
  qed
  ultimately show ?thesis using assms(3) by (simp add: unat_plus_if')
qed

lemma sqrt_loop_correct:
  assumes "sqrt_loop n i root square = (r, s)"
    "unat square = (unat root)\<^sup>2" "(unat root)\<^sup>2 \<le> unat n" "unat n < (unat root + 2 ^ i)\<^sup>2"
    "2 ^ i dvd unat root" "unat root + 2 ^ i \<le> 2 ^ 32"
  shows "unat s = (unat r)\<^sup>2 \<and> (unat r)\<^sup>2 \<le> unat n \<and> unat n < (unat r + 1)\<^sup>2"
  using assms
proof (induction n i root square rule: sqrt_loop.induct)
  case (2 n i root square)
  define t where "t = root OR push_bit i 1"
  have i: "(2 :: nat) ^ Suc i \<le> 2 ^ 32" using 2(8) by linarith
  then have "Suc i \<le> 32" by (rule power_le_imp_le_exp [rotated]) simp
  then have t: "unat t = unat root + 2 ^ i"
    unfolding t_def using 2(7,8) by (intro or_disjoint_power) simp_all
  have "0 < (2 :: nat) ^ i" by simp
  then have "unat t < 2 ^ 32" using 2(8) t unfolding power_Suc by linarith
  then have "unat t * unat t < 2 ^ 32 * 2 ^ 32" by (intro mult_strict_mono) simp_all
  then have sq: "unat (t * t) = (unat t)\<^sup>2" by (simp add: unat_word_ariths(2) power2_eq_square)
  have dv: "2 ^ i dvd unat root" using 2(7) by (metis dvd_trans dvd_triv_right power_Suc)
  have e: "(if t * t \<le> n then sqrt_loop n i t (t * t) else sqrt_loop n i root square) = (r, s)"
    using 2(3) by (simp only: sqrt_loop.simps Let_def t_def)
  show ?case
  proof (cases "t * t \<le> n")
    case True
    then have "sqrt_loop n i t (t * t) = (r, s)" using e by simp
    from 2(1) [OF refl refl, folded t_def, OF True this] show ?thesis
      using True 2(4-) t sq dv by (simp add: word_le_nat_alt mult_2 add.assoc)
  next
    case False
    then have "sqrt_loop n i root square = (r, s)" using e by simp
    from 2(2) [OF refl refl, folded t_def, OF False this] show ?thesis
      using False 2(4-) t sq dv by (simp add: word_le_nat_alt)
  qed
qed simp

lemma fixnum_sqrt_correct:
  assumes "fixnum_sqrt n = (root, rem)"
  shows "unat n = (unat root)\<^sup>2 + unat rem" "unat n < (unat root + 1)\<^sup>2"
proof -
  obtain s where s: "sqrt_loop n (Suc SQRT_BIT_MAX) 0 0 = (root, s)" "rem = n - s"
    using assms by (auto simp: fixnum_sqrt_def split: prod.splits)
  have "unat s = (unat root)\<^sup>2 \<and> (unat root)\<^sup>2 \<le> unat n \<and> unat n < (unat root + 1)\<^sup>2"
    using unat_limb_less [of n] by (intro sqrt_loop_correct [OF s(1)]) (simp_all add: SQRT_BIT_MAX_def)
  then show "unat n = (unat root)\<^sup>2 + unat rem" "unat n < (unat root + 1)\<^sup>2"
    using s(2) by (auto simp: unat_sub_if')
qed

end
