(* ===== verification/ExactIntegers.thy ===== *)
theory ExactIntegers
  imports IntegerLaws
begin

text \<open>
  The properties of exact-integer arithmetic, over fixnums and bignums together.
\<close>

section \<open>Normal representations\<close>






text \<open>
  Sample numbers for the witnesses: the largest fixnum, two bignums of one and of two digits,
  and the negated second one.
\<close>

definition max_fixnum :: integer_obj where
  "max_fixnum = Fix 0x3FFFFFFFFFFFFFFF"

definition one_digit :: integer_obj where
  "one_digit = Big \<lparr>bigpos = True, bigdig = [0xFFFFFFFFFFFFFFFF]\<rparr>"

definition two_digits :: integer_obj where
  "two_digits = Big \<lparr>bigpos = False, bigdig = [0, 0x10]\<rparr>"

lemma samples_ok [simp]: "int_ok max_fixnum" "int_ok one_digit" "int_ok two_digits"
  by (simp_all add: max_fixnum_def one_digit_def two_digits_def fixnum_range_def big_simps)

lemma sample_values:
  "int_val max_fixnum = 2 ^ 62 - 1" "int_val one_digit = 2 ^ 64 - 1" "int_val two_digits = - (2 ^ 68)"
  by (simp_all add: max_fixnum_def one_digit_def two_digits_def big_simps)

section \<open>Arithmetic\<close>

text \<open> C26. Addition and subtraction of exact integers, with the fixnum overflow test and the carries,
  borrows and sign cases of bignums, return the normal representation of the exact result.\<close>

theorem integer_add_sub_exact:
  assumes "int_ok x" "int_ok y"
  shows "int_val (scheme_bin_plus x y) = int_val x + int_val y \<and> int_ok (scheme_bin_plus x y)
    \<and> int_val (scheme_bin_minus x y) = int_val x - int_val y \<and> int_ok (scheme_bin_minus x y)"
  using bin_plus_correct [OF assms] bin_minus_correct [OF assms] by blast

theorem integer_add_sub_exact_witness:
  "int_val (scheme_bin_plus max_fixnum max_fixnum) = 2 ^ 63 - 2
   \<and> int_val (scheme_bin_minus two_digits one_digit) = 1 - 17 * 2 ^ 64"
  using integer_add_sub_exact [OF samples_ok(1) samples_ok(1)] integer_add_sub_exact [OF samples_ok(3) samples_ok(2)]
  by (simp add: sample_values)



text \<open> C28. Schoolbook multiplication of limb vectors, from the 32-bit half-limb products up, computes the
  product in exactly as many limbs as the operands have together.\<close>

theorem mpn_mul_basecase_product:
  assumes "vp \<noteq> []"
  shows "mpn_val (mpn_mul_basecase up vp) = mpn_val up * mpn_val vp
    \<and> length (mpn_mul_basecase up vp) = length up + length vp"
  using mpn_mul_basecase_correct [OF assms] by blast

theorem mpn_mul_basecase_product_witness:
  "mpn_mul_basecase [0xFFFFFFFFFFFFFFFF, 1] [0xFFFFFFFFFFFFFFFF] = [1, 0xFFFFFFFFFFFFFFFD, 1]
   \<and> mpn_val (mpn_mul_basecase [0xFFFFFFFFFFFFFFFF, 1] [0xFFFFFFFFFFFFFFFF]) = (2 ^ 65 - 1) * (2 ^ 64 - 1)"
proof -
  have "mpn_mul_basecase [0xFFFFFFFFFFFFFFFF, 1] [0xFFFFFFFFFFFFFFFF] = [1, 0xFFFFFFFFFFFFFFFD, 1]"
    by (simp add: mpn_mul_basecase_def mpn_mul_1_def umul_ppmm_def ll_lowpart_def ll_highpart_def ll_B_def Let_def)
  then show ?thesis
    using mpn_mul_basecase_product [of "[0xFFFFFFFFFFFFFFFF]" "[0xFFFFFFFFFFFFFFFF, 1]"] by simp
qed

text \<open> C29. The five numeric comparisons decide the order of the integers.\<close>

theorem integer_comparisons:
  assumes "int_ok x" "int_ok y"
  shows "scheme_bin_eq x y = (int_val x = int_val y) \<and> scheme_bin_lt x y = (int_val x < int_val y)
    \<and> scheme_bin_gt x y = (int_val x > int_val y) \<and> scheme_bin_lt_eq x y = (int_val x \<le> int_val y)
    \<and> scheme_bin_gt_eq x y = (int_val x \<ge> int_val y)"
  using comparisons_correct [OF assms] by simp

theorem integer_comparisons_witness: "scheme_bin_lt two_digits max_fixnum \<and> \<not> scheme_bin_eq max_fixnum one_digit"
  using integer_comparisons [OF samples_ok(3) samples_ok(1)] integer_comparisons [OF samples_ok(1) samples_ok(2)]
  by (simp add: sample_values)

section \<open>Bitwise operations, shifts, powers, roots\<close>

text \<open> C30. The bitwise operations on sign-and-magnitude bignums are those of infinite two's complement, also
  where a result needs one digit more than its operands, and stay inside the digit arrays.\<close>

theorem integer_bitwise:
  assumes "int_ok x" "int_ok y"
  shows "(\<exists>r. bin_bitwise_and x y = Some r \<and> int_val r = (int_val x AND int_val y) \<and> int_ok r)
    \<and> (\<exists>r. bin_bitwise_or x y = Some r \<and> int_val r = (int_val x OR int_val y) \<and> int_ok r)
    \<and> (\<exists>r. bin_bitwise_xor x y = Some r \<and> int_val r = (int_val x XOR int_val y) \<and> int_ok r)
    \<and> int_val (bitwise_not x) = NOT (int_val x) \<and> int_ok (bitwise_not x)"
proof -
  have ops: "bitop 0 = (AND)" "bitop 1 = (OR)" "bitop 2 = (XOR)"
    and big: "scheme_bignum_and = (\<lambda>a b. if biglen a > biglen b then do_bitop a b 0 else do_bitop b a 0)"
      "scheme_bignum_or = (\<lambda>a b. if biglen a > biglen b then do_bitop a b 1 else do_bitop b a 1)"
      "scheme_bignum_xor = (\<lambda>a b. if biglen a > biglen b then do_bitop a b 2 else do_bitop b a 2)"
    by (intro ext; simp add: bitop_def scheme_bignum_and_def scheme_bignum_or_def scheme_bignum_xor_def)+
  note G = gen_bin_int_op_correct [OF assms]
  show ?thesis
    using G [of 0] G [of 1] G [of 2] bitwise_not_correct [OF assms(1)]
    unfolding bin_bitwise_and_def bin_bitwise_or_def bin_bitwise_xor_def big ops int_bitop_def by simp
qed

theorem integer_bitwise_witness:
  "\<exists>r. bin_bitwise_and two_digits (Big \<lparr>bigpos = False, bigdig = [1, 0xF]\<rparr>) = Some r \<and> int_val r = - (2 ^ 68)"
proof -
  have ok: "int_ok (Big \<lparr>bigpos = False, bigdig = [1, 0xF]\<rparr>)" by (simp add: fixnum_range_def big_simps)
  show ?thesis using integer_bitwise [OF samples_ok(3) ok] by (auto simp: sample_values big_simps)
qed

text \<open> C31. \<open>arithmetic-shift\<close> by a fixnum multiplies by a power of two, or divides by it rounding towards
  minus infinity, also for negative bignums and where a fixnum grows into a bignum.\<close>

theorem integer_shift:
  assumes "int_ok v" "int_ok (Fix sw)" "constant_folding \<longrightarrow> sint sw \<le> 100"
  shows "\<exists>r. scheme_bitwise_shift constant_folding v (Fix sw) = Inr r \<and> int_ok r
    \<and> int_val r = (if sint sw < 0 then int_val v div 2 ^ nat (- sint sw) else int_val v * 2 ^ nat (sint sw))"
  using bitwise_shift_correct [OF assms] unfolding int_shift_def by blast

theorem integer_shift_witness:
  "\<exists>r. scheme_bitwise_shift False two_digits (Fix (- 70)) = Inr r \<and> int_val r = - 1"
  using integer_shift [OF samples_ok(3), of "- 70" False] by (auto simp: sample_values fixnum_range_def)

text \<open> C32. Binary exponentiation computes the power, for every nonzero machine-word exponent.\<close>

theorem integer_power:
  assumes "\<And>xs ys. ys \<noteq> [] \<Longrightarrow> length ys \<le> length xs \<Longrightarrow> mpn_val (mpn_mul xs ys) = mpn_val xs * mpn_val ys"
    and "int_ok a" "b \<noteq> 0"
  shows "\<exists>r. do_power mpn_mul a b = Some r \<and> int_val r = int_val a ^ unat b \<and> int_ok r"
  using mpn_multiplier.power_correct [OF mpn_multiplier.intro assms(2,3)] assms(1) by blast

theorem integer_power_witness:
  "\<exists>r. do_power mpn_mul_basecase two_digits 3 = Some r \<and> int_val r = - (2 ^ 204)"
  using integer_power [OF mpn_mul_basecase_correct(1) samples_ok(3), of 3] by (auto simp: sample_values)

text \<open> C33. The bit-by-bit square root of a word is the integer square root, with its remainder.\<close>

theorem fixnum_sqrt_floor:
  assumes "fixnum_sqrt n = (root, rem)"
  shows "unat n = (unat root)\<^sup>2 + unat rem \<and> unat n < (unat root + 1)\<^sup>2"
  using fixnum_sqrt_correct [OF assms] by blast

theorem fixnum_sqrt_floor_witness: "fixnum_sqrt 26 = (5, 1) \<and> (26 :: nat) = 5\<^sup>2 + 1 \<and> (26 :: nat) < (5 + 1)\<^sup>2"
proof -
  have "fixnum_sqrt 26 = (5, 1)" by code_simp
  from fixnum_sqrt_floor [OF this] this show ?thesis by simp
qed

end
