(* ===== verification/Sync.thy ===== *)
theory Sync
  imports Prelude
begin

text \<open>
  Semaphores, channels and thread mailboxes: \<open>sema.c\<close>, with the parts of \<open>thread.c\<close> that a post
  calls.

  A thread that waits for a semaphore or for a partner on a channel stands in a line: a doubly
  linked list of \<open>Scheme_Channel_Syncer\<close> objects whose ends are fields of the semaphore or of the
  channel. The pointers matter (an element is removed from the middle of its line through its own
  \<open>prev\<close> and \<open>next\<close>), so the objects live in an explicit store, the record \<open>world\<close>, and a pointer
  is an address or \<open>None\<close> for \<open>NULL\<close>.

  Picking a waiter posts the negative acknowledgements of the events it did not choose, which posts
  other semaphores, which may pick further waiters. The recursion through
  \<open>scheme_post_sema_all\<close> carries fuel; \<open>Diverged\<close> is the result when it runs out.
\<close>

section \<open>Data\<close>

type_synonym addr = nat

text \<open>
  The objects that can be an entry of an event set or the object of a syncer. \<open>Active_Replace\<close> is a
  \<open>replace-evt\<close> whose first synchronization is in progress. \<open>Other_Obj\<close> is a value delivered into the
  set, or an event that does not involve lines.
\<close>

datatype evt =
  Sema addr | Channel addr | Channel_Put addr | Never_Evt | Syncer addr | Active_Replace addr | Other_Obj nat

record Scheme_Channel_Syncer =
  w_p :: addr
  in_line :: bool
  picked :: bool
  w_prev :: "addr option"
  w_next :: "addr option"
  w_syncing :: "addr option"
  w_obj :: evt
  syncing_i :: nat

record Scheme_Sema =
  s_first :: "addr option"
  s_last :: "addr option"
  s_value :: "64 word"

record Scheme_Channel =
  put_first :: "addr option"
  put_last :: "addr option"
  get_first :: "addr option"
  get_last :: "addr option"

record Scheme_Channel_Put =
  chp_ch :: addr
  chp_val :: nat

text \<open>
  A synchronization in progress. The optional arrays are \<open>None\<close> for \<open>NULL\<close>; an entry of \<open>nackss\<close> is a
  list of semaphores or \<open>NULL\<close>, an entry of \<open>wrapss\<close> a Scheme list.
\<close>

record Syncing =
  y_set :: "evt list option"
  y_result :: nat
  wrapss :: "nat list list"
  nackss :: "addr list option list option"
  reposts :: "bool list option"
  accepts :: "(nat \<Rightarrow> nat) option list option"
  disable_break :: "addr option"
  y_thread :: "addr option"

record Scheme_Thread =
  running :: "32 word"
  suspend_break :: "16 word"
  external_break :: "16 word"
  can_break_at_swap :: bool
  break_enabled :: bool
  ran_some :: bool
  sync_box :: "addr option"
  mbox_first :: "addr option"
  mbox_last :: "addr option"
  mbox_sema :: "addr option"

text \<open>
  The store. \<open>replaces\<close> has the \<open>syncing\<close> fields of the active \<open>replace-evt\<close>s, as far as they are not
  null. \<open>run_queue\<close> is the list of runnable threads that starts at \<open>scheme_first_thread\<close>; \<open>cells\<close>
  are the raw pairs of the mailboxes; addresses from \<open>fresh\<close> on have not been allocated.
\<close>

record world =
  semas :: "addr \<Rightarrow> Scheme_Sema"
  channels :: "addr \<Rightarrow> Scheme_Channel"
  channel_puts :: "addr \<Rightarrow> Scheme_Channel_Put"
  syncers :: "addr \<Rightarrow> Scheme_Channel_Syncer"
  syncings :: "addr \<Rightarrow> Syncing"
  replaces :: "(addr \<times> addr) list"
  threads :: "addr \<Rightarrow> Scheme_Thread"
  run_queue :: "addr list"
  current_thread :: addr
  all_breaks_disabled :: bool
  no_stack_overflow :: bool
  cells :: "addr \<Rightarrow> nat \<times> addr option"
  fresh :: addr

text \<open>
  The result of an operation: a new store, an exception raised with the store as it was then, the
  end of the fuel, or a dereference of a null pointer.
\<close>

datatype 'a run = Done 'a | Raised 'a | Diverged | Undefined

fun bind_run :: "'a run \<Rightarrow> ('a \<Rightarrow> 'a run) \<Rightarrow> 'a run" where
  "bind_run (Done a) f = f a"
| "bind_run (Raised a) f = Raised a"
| "bind_run Diverged f = Diverged"
| "bind_run Undefined f = Undefined"

definition upd_sema :: "addr \<Rightarrow> (Scheme_Sema \<Rightarrow> Scheme_Sema) \<Rightarrow> world \<Rightarrow> world" where
  "upd_sema s f W = W\<lparr>semas := (semas W)(s := f (semas W s))\<rparr>"

definition upd_channel :: "addr \<Rightarrow> (Scheme_Channel \<Rightarrow> Scheme_Channel) \<Rightarrow> world \<Rightarrow> world" where
  "upd_channel c f W = W\<lparr>channels := (channels W)(c := f (channels W c))\<rparr>"

definition upd_syncer ::
  "addr \<Rightarrow> (Scheme_Channel_Syncer \<Rightarrow> Scheme_Channel_Syncer) \<Rightarrow> world \<Rightarrow> world" where
  "upd_syncer w f W = W\<lparr>syncers := (syncers W)(w := f (syncers W w))\<rparr>"

definition upd_syncing :: "addr \<Rightarrow> (Syncing \<Rightarrow> Syncing) \<Rightarrow> world \<Rightarrow> world" where
  "upd_syncing y f W = W\<lparr>syncings := (syncings W)(y := f (syncings W y))\<rparr>"

definition upd_thread :: "addr \<Rightarrow> (Scheme_Thread \<Rightarrow> Scheme_Thread) \<Rightarrow> world \<Rightarrow> world" where
  "upd_thread p f W = W\<lparr>threads := (threads W)(p := f (threads W p))\<rparr>"

lemmas upd_defs = upd_sema_def upd_channel_def upd_syncer_def upd_syncing_def upd_thread_def

section \<open>Threads\<close>

abbreviation MZTHREAD_SUSPENDED :: "32 word" where "MZTHREAD_SUSPENDED \<equiv> 2"
abbreviation MZTHREAD_KILLED :: "32 word" where "MZTHREAD_KILLED \<equiv> 4"
abbreviation MZTHREAD_NEED_KILL_CLEANUP :: "32 word" where "MZTHREAD_NEED_KILL_CLEANUP \<equiv> 8"
abbreviation MZTHREAD_USER_SUSPENDED :: "32 word" where "MZTHREAD_USER_SUSPENDED \<equiv> 16"
abbreviation MZTHREAD_NEED_SUSPEND_CLEANUP :: "32 word" where
  "MZTHREAD_NEED_SUSPEND_CLEANUP \<equiv> 32"

text \<open>\<open>p->next\<close>: the successor in the queue of runnable threads. The main thread is its last.\<close>

fun thread_next :: "addr list \<Rightarrow> addr \<Rightarrow> addr option" where
  "thread_next (a # b # q) p = (if a = p then Some b else thread_next (b # q) p)"
| "thread_next q p = None"

definition can_break_param :: "addr \<Rightarrow> world \<Rightarrow> bool" where
  "can_break_param p W =
     (if p = current_thread W then break_enabled (threads W p)
      else can_break_at_swap (threads W p))"

definition scheme_can_break :: "addr \<Rightarrow> world \<Rightarrow> bool" where
  "scheme_can_break p W =
     (if suspend_break (threads W p) = 0 \<and> \<not> all_breaks_disabled W \<and> \<not> no_stack_overflow W
      then can_break_param p W else False)"

definition pending_break :: "addr \<Rightarrow> world \<Rightarrow> bool" where
  "pending_break p W =
     (if running (threads W p) AND (MZTHREAD_KILLED OR MZTHREAD_USER_SUSPENDED) \<noteq> 0 then True
      else if external_break (threads W p) \<noteq> 0 then
        scheme_can_break p
          (if thread_next (run_queue W) p = None
           then upd_thread p (\<lambda>t. t\<lparr>suspend_break := suspend_break t - 1\<rparr>) W else W)
      else False)"

definition scheme_weak_resume_thread :: "addr \<Rightarrow> world \<Rightarrow> world" where
  "scheme_weak_resume_thread r W =
     (if running (threads W r) AND MZTHREAD_USER_SUSPENDED = 0 then
        if running (threads W r) AND MZTHREAD_SUSPENDED \<noteq> 0 then
          (upd_thread r (\<lambda>t. t\<lparr>running := running t - MZTHREAD_SUSPENDED, ran_some := True\<rparr>) W)
            \<lparr>run_queue := r # run_queue W\<rparr>
        else W
      else W)"

definition scheme_weak_suspend_thread :: "addr \<Rightarrow> world \<Rightarrow> world" where
  "scheme_weak_suspend_thread r W =
     (if running (threads W r) AND MZTHREAD_SUSPENDED \<noteq> 0 then W
      else (upd_thread r (\<lambda>t. t\<lparr>running := running t OR MZTHREAD_SUSPENDED\<rparr>) W)
             \<lparr>run_queue := remove1 r (run_queue W)\<rparr>)"

definition suspend_breaks :: "addr option \<Rightarrow> world \<Rightarrow> world" where
  "suspend_breaks d W =
     (case d of None \<Rightarrow> W
      | Some p \<Rightarrow> upd_thread p (\<lambda>t. t\<lparr>suspend_break := suspend_break t + 1\<rparr>) W)"

section \<open>Lines\<close>

datatype line = Sema_Line addr | Put_Line addr | Get_Line addr

text \<open>The line that an object stands for; a never-ready event has none.\<close>

fun line_of :: "world \<Rightarrow> evt \<Rightarrow> line option" where
  "line_of W (Sema s) = Some (Sema_Line s)"
| "line_of W (Channel c) = Some (Get_Line c)"
| "line_of W (Channel_Put q) = Some (Put_Line (chp_ch (channel_puts W q)))"
| "line_of W _ = None"

fun line_first :: "world \<Rightarrow> line \<Rightarrow> addr option" where
  "line_first W (Sema_Line s) = s_first (semas W s)"
| "line_first W (Put_Line c) = put_first (channels W c)"
| "line_first W (Get_Line c) = get_first (channels W c)"

fun line_last :: "world \<Rightarrow> line \<Rightarrow> addr option" where
  "line_last W (Sema_Line s) = s_last (semas W s)"
| "line_last W (Put_Line c) = put_last (channels W c)"
| "line_last W (Get_Line c) = get_last (channels W c)"

fun set_line :: "line \<Rightarrow> addr option \<Rightarrow> addr option \<Rightarrow> world \<Rightarrow> world" where
  "set_line (Sema_Line s) f l W = upd_sema s (\<lambda>t. t\<lparr>s_first := f, s_last := l\<rparr>) W"
| "set_line (Put_Line c) f l W = upd_channel c (\<lambda>t. t\<lparr>put_first := f, put_last := l\<rparr>) W"
| "set_line (Get_Line c) f l W = upd_channel c (\<lambda>t. t\<lparr>get_first := f, get_last := l\<rparr>) W"

definition set_next :: "addr option \<Rightarrow> addr option \<Rightarrow> world \<Rightarrow> world" where
  "set_next a v W = (case a of None \<Rightarrow> W | Some x \<Rightarrow> upd_syncer x (\<lambda>t. t\<lparr>w_next := v\<rparr>) W)"

definition set_prev :: "addr option \<Rightarrow> addr option \<Rightarrow> world \<Rightarrow> world" where
  "set_prev a v W = (case a of None \<Rightarrow> W | Some x \<Rightarrow> upd_syncer x (\<lambda>t. t\<lparr>w_prev := v\<rparr>) W)"

definition get_into_line :: "evt \<Rightarrow> addr \<Rightarrow> world \<Rightarrow> world" where
  "get_into_line sema w W =
     (let W1 = upd_syncer w (\<lambda>t. t\<lparr>in_line := True, picked := False\<rparr>) W
      in case line_of W1 sema of
           None \<Rightarrow> W1
         | Some ln \<Rightarrow>
             (let last = line_last W1 ln;
                  first = line_first W1 ln;
                  W2 = upd_syncer w (\<lambda>t. t\<lparr>w_prev := last\<rparr>) W1;
                  W3 = set_next last (Some w) W2;
                  first' = (if last = None then Some w else first);
                  W4 = upd_syncer w (\<lambda>t. t\<lparr>w_next := None\<rparr>) W3
              in set_line ln first' (Some w) W4))"

definition get_outof_line :: "evt \<Rightarrow> addr \<Rightarrow> world \<Rightarrow> world" where
  "get_outof_line sema w W =
     (if \<not> in_line (syncers W w) then W
      else let W1 = upd_syncer w (\<lambda>t. t\<lparr>in_line := False\<rparr>) W
           in case line_of W1 sema of
                None \<Rightarrow> W1
              | Some ln \<Rightarrow>
                  (let last = line_last W1 ln;
                       first = line_first W1 ln;
                       pv = w_prev (syncers W1 w);
                       nx = w_next (syncers W1 w);
                       first' = (if pv = None then nx else first);
                       last' = (if nx = None then pv else last)
                   in set_line ln first' last' (set_prev nx pv (set_next pv nx W1))))"

definition scheme_get_outof_line :: "addr \<Rightarrow> world \<Rightarrow> world" where
  "scheme_get_outof_line w W = get_outof_line (w_obj (syncers W w)) w W"

definition scheme_get_back_into_line :: "addr \<Rightarrow> world \<Rightarrow> world" where
  "scheme_get_back_into_line w W = get_into_line (w_obj (syncers W w)) w W"

section \<open>Posting\<close>

text \<open>
  The first parameter of the following functions is the recursive call of \<open>scheme_post_sema_all\<close>
  for the semaphores of negative acknowledgements.
\<close>

fun post_nack_list ::
  "(addr \<Rightarrow> world \<Rightarrow> world run) \<Rightarrow> addr list \<Rightarrow> addr list \<Rightarrow> world \<Rightarrow> world run" where
  "post_nack_list pa skip [] W = Done W"
| "post_nack_list pa skip (a # l) W =
     (if a \<in> set skip then post_nack_list pa skip l W
      else bind_run (pa a W) (post_nack_list pa skip l))"

text \<open>
  The list of nacks of the chosen event, which is not posted. The C code turns a list of more than
  five into a hash tree, for faster membership tests.
\<close>

definition skip_nacks_of :: "Syncing \<Rightarrow> addr list" where
  "skip_nacks_of y =
     (case nackss y of None \<Rightarrow> []
      | Some ns \<Rightarrow>
          if y_result y \<noteq> 0 \<and> y_result y - 1 < length ns
          then (case ns ! (y_result y - 1) of None \<Rightarrow> [] | Some l \<Rightarrow> l) else [])"

definition clear_nack :: "addr \<Rightarrow> nat \<Rightarrow> world \<Rightarrow> world" where
  "clear_nack y i = upd_syncing y (\<lambda>t. t\<lparr>nackss := map_option (\<lambda>ns. ns[i := None]) (nackss t)\<rparr>)"

definition leave_line_of_entry :: "addr \<Rightarrow> nat \<Rightarrow> world \<Rightarrow> world" where
  "leave_line_of_entry y i W =
     (case y_set (syncings W y) of None \<Rightarrow> W
      | Some argv \<Rightarrow>
          (if i < length argv
           then (case argv ! i of Syncer w \<Rightarrow> scheme_get_outof_line w W | _ \<Rightarrow> W) else W))"

text \<open>
  An active \<open>replace-evt\<close> has a synchronization of its own, which is put on the list \<open>syncs\<close> of those
  still to be visited, with the mark that it has to be left as by an escape unless its event was
  chosen.
\<close>

definition scheme_replace_evt_nack :: "addr \<Rightarrow> world \<Rightarrow> addr option \<times> world" where
  "scheme_replace_evt_nack a W =
     (map_of (replaces W) a, W\<lparr>replaces := filter (\<lambda>r. fst r \<noteq> a) (replaces W)\<rparr>)"

definition nack_replacement ::
  "addr \<Rightarrow> nat \<Rightarrow> (bool \<times> addr) list \<Rightarrow> world \<Rightarrow> (bool \<times> addr) list \<times> world" where
  "nack_replacement y i syncs W =
     (case y_set (syncings W y) of None \<Rightarrow> (syncs, W)
      | Some argv \<Rightarrow>
          (if i < length argv
           then (case argv ! i of
                   Active_Replace a \<Rightarrow>
                     (case scheme_replace_evt_nack a W of
                        (None, W1) \<Rightarrow> (syncs, W1)
                      | (Some next, W1) \<Rightarrow> ((Suc i \<noteq> y_result (syncings W1 y), next) # syncs, W1))
                 | _ \<Rightarrow> (syncs, W))
           else (syncs, W)))"

text \<open>
  The loop over the entries \<open>i\<close> of the event set; \<open>skip\<close> is \<open>skip_nacks\<close>, \<open>None\<close> until it is needed, and
  \<open>rest\<close> is what follows the loop.
\<close>

fun nacks_loop ::
  "(addr \<Rightarrow> world \<Rightarrow> world run) \<Rightarrow> addr \<Rightarrow> nat list \<Rightarrow> addr list option \<Rightarrow> (bool \<times> addr) list \<Rightarrow>
   (addr list option \<Rightarrow> (bool \<times> addr) list \<Rightarrow> world \<Rightarrow> world run) \<Rightarrow> world \<Rightarrow> world run" where
  "nacks_loop pa y [] skip syncs rest W = rest skip syncs W"
| "nacks_loop pa y (i # is) skip syncs rest W =
     (let (syncs1, W1) = nack_replacement y i syncs (leave_line_of_entry y i W)
      in case nackss (syncings W1 y) of
           None \<Rightarrow> nacks_loop pa y is skip syncs1 rest W1
         | Some ns \<Rightarrow>
             (if Suc i = y_result (syncings W1 y) then nacks_loop pa y is skip syncs1 rest W1
              else case (if i < length ns then ns ! i else None) of
                     None \<Rightarrow> nacks_loop pa y is skip syncs1 rest (clear_nack y i W1)
                   | Some l \<Rightarrow>
                       (let sk = (case skip of None \<Rightarrow> skip_nacks_of (syncings W1 y) | Some k \<Rightarrow> k)
                        in bind_run (post_nack_list pa sk l W1)
                             (\<lambda>W2. nacks_loop pa y is (Some sk) syncs1 rest (clear_nack y i W2)))))"

text \<open>The branch for \<open>as_escape\<close>, which detaches the synchronization from its thread.\<close>

definition escape_syncing :: "(addr \<Rightarrow> world \<Rightarrow> world run) \<Rightarrow> addr \<Rightarrow> world \<Rightarrow> world run" where
  "escape_syncing pa y W =
     (case y_thread (syncings W y) of None \<Rightarrow> Done W
      | Some p \<Rightarrow>
          (let W1 = upd_syncing y (\<lambda>t. t\<lparr>y_thread := None\<rparr>) W
           in case sync_box (threads W1 p) of None \<Rightarrow> Done W1 | Some s \<Rightarrow> pa s W1))"

definition forget_sync_box :: "addr \<Rightarrow> world \<Rightarrow> world" where
  "forget_sync_box y W =
     (case y_thread (syncings W y) of None \<Rightarrow> W
      | Some p \<Rightarrow> upd_thread p (\<lambda>t. t\<lparr>sync_box := None\<rparr>) W)"

fun syncing_nacks_loop ::
  "(addr \<Rightarrow> world \<Rightarrow> world run) \<Rightarrow> nat \<Rightarrow> addr \<Rightarrow> bool \<Rightarrow> addr list option \<Rightarrow> (bool \<times> addr) list \<Rightarrow>
   world \<Rightarrow> world run" where
  "syncing_nacks_loop pa 0 y as_escape skip syncs W = Diverged"
| "syncing_nacks_loop pa (Suc k) y as_escape skip syncs W =
     bind_run (if as_escape then escape_syncing pa y W else Done W)
       (\<lambda>W1. let W2 = forget_sync_box y W1
              in nacks_loop pa y
                   (case y_set (syncings W2 y) of None \<Rightarrow> [] | Some argv \<Rightarrow> [0..<length argv]) skip syncs
                   (\<lambda>skip syncs W3. case syncs of [] \<Rightarrow> Done W3
                      | (esc, next) # syncs' \<Rightarrow> syncing_nacks_loop pa k next esc skip syncs' W3)
                   W2)"

text \<open>
  Visiting an active \<open>replace-evt\<close> clears its \<open>syncing\<close> field, so there are at most as many further
  synchronizations as there are such fields.
\<close>

definition post_syncing_nacks ::
  "(addr \<Rightarrow> world \<Rightarrow> world run) \<Rightarrow> addr \<Rightarrow> bool \<Rightarrow> world \<Rightarrow> world run" where
  "post_syncing_nacks pa y as_escape W =
     syncing_nacks_loop pa (Suc (length (replaces W))) y as_escape None [] W"

definition scheme_post_syncing_nacks ::
  "(addr \<Rightarrow> world \<Rightarrow> world run) \<Rightarrow> addr \<Rightarrow> world \<Rightarrow> world run" where
  "scheme_post_syncing_nacks pa y W = post_syncing_nacks pa y False W"

text \<open>The test \<open>syncing->reposts && syncing->reposts[i]\<close>, and the one for \<open>accepts\<close> with its call.\<close>

definition has_repost :: "addr \<Rightarrow> nat \<Rightarrow> world \<Rightarrow> bool" where
  "has_repost y i W =
     (case reposts (syncings W y) of None \<Rightarrow> False | Some r \<Rightarrow> i < length r \<and> r ! i)"

definition scheme_accept_sync :: "addr \<Rightarrow> nat \<Rightarrow> world \<Rightarrow> world" where
  "scheme_accept_sync y i W =
     (case accepts (syncings W y) of None \<Rightarrow> W
      | Some as \<Rightarrow>
          (case (if i < length as then as ! i else None) of None \<Rightarrow> W
           | Some accept \<Rightarrow>
               upd_syncing y (\<lambda>t. t\<lparr>accepts := Some (as[i := None]),
                 wrapss := (wrapss t)[i := accept (hd (wrapss t ! i)) # tl (wrapss t ! i)]\<rparr>) W))"

text \<open>The test of \<open>did_post_sema\<close> and \<open>try_channel\<close> for a waiter that can be picked.\<close>

definition can_pick :: "addr \<Rightarrow> world \<Rightarrow> bool" where
  "can_pick w W \<longleftrightarrow>
     (case w_syncing (syncers W w) of None \<Rightarrow> True | Some y \<Rightarrow> y_result (syncings W y) = 0) \<and>
     \<not> pending_break (w_p (syncers W w)) W"

definition set_sync_result :: "addr \<Rightarrow> nat \<Rightarrow> world \<Rightarrow> world" where
  "set_sync_result y i W =
     suspend_breaks (disable_break (syncings W y)) (upd_syncing y (\<lambda>t. t\<lparr>y_result := i + 1\<rparr>) W)"

definition pop_line :: "addr \<Rightarrow> addr \<Rightarrow> world \<Rightarrow> world" where
  "pop_line t w W =
     (case w_next (syncers W w) of
        None \<Rightarrow> upd_sema t (\<lambda>s. s\<lparr>s_first := None, s_last := None\<rparr>) W
      | Some x \<Rightarrow> upd_syncer x (\<lambda>n. n\<lparr>w_prev := None\<rparr>)
                    (upd_sema t (\<lambda>s. s\<lparr>s_first := Some x\<rparr>) W))"

definition detach :: "addr \<Rightarrow> world \<Rightarrow> world" where
  "detach w = upd_syncer w (\<lambda>t. t\<lparr>in_line := False, w_prev := None, w_next := None\<rparr>)"

definition resume_if_picked :: "addr \<Rightarrow> world \<Rightarrow> world" where
  "resume_if_picked w W =
     (if picked (syncers W w) then scheme_weak_resume_thread (w_p (syncers W w)) W else W)"

abbreviation set_picked :: "addr \<Rightarrow> world \<Rightarrow> world" where
  "set_picked w \<equiv> upd_syncer w (\<lambda>t. t\<lparr>picked := True\<rparr>)"

fun did_post_sema ::
  "(addr \<Rightarrow> world \<Rightarrow> world run) \<Rightarrow> nat \<Rightarrow> addr \<Rightarrow> world \<Rightarrow> world run" where
  "did_post_sema pa 0 t W = Diverged"
| "did_post_sema pa (Suc k) t W =
     (case s_first (semas W t) of
        None \<Rightarrow> Done W
      | Some w \<Rightarrow>
          (let W1 = pop_line t w W
           in if can_pick w W1 then
                (case w_syncing (syncers W1 w) of
                   None \<Rightarrow> Done (resume_if_picked w (detach w (set_picked w W1)))
                 | Some y \<Rightarrow>
                     (let i = syncing_i (syncers W1 w)
                      in bind_run (scheme_post_syncing_nacks pa y (set_sync_result y i W1))
                           (\<lambda>W2.
                              let consumed = \<not> has_repost y i W2;
                                  W3 = (if consumed
                                        then upd_sema t (\<lambda>s. s\<lparr>s_value := s_value s - 1\<rparr>) W2
                                        else W2);
                                  W4 = set_picked w (scheme_accept_sync y i W3);
                                  W5 = resume_if_picked w (detach w W4)
                              in if consumed then Done W5 else did_post_sema pa k t W5)))
              else did_post_sema pa k t (resume_if_picked w (detach w W1))))"

text \<open>
  \<open>int v = (intptr_t) ((uintptr_t) t->value + 1)\<close>: the sum wraps at 64 bits and is then truncated to
  an \<open>int\<close>, which is sign-extended again where it is compared with and stored to \<open>t->value\<close>.
\<close>

definition next_value :: "64 word \<Rightarrow> 64 word" where
  "next_value v = scast (ucast (v + 1) :: 32 word)"

definition post_sema ::
  "(addr \<Rightarrow> world \<Rightarrow> world run) \<Rightarrow> nat \<Rightarrow> addr \<Rightarrow> world \<Rightarrow> world run" where
  "post_sema pa k t W =
     (if s_value (semas W t) <s 0 then Done W
      else let v = next_value (s_value (semas W t))
           in if s_value (semas W t) <s v then
                (let W1 = upd_sema t (\<lambda>s. s\<lparr>s_value := v\<rparr>) W
                 in if s_first (semas W1 t) \<noteq> None then did_post_sema pa k t W1 else Done W1)
              else Raised W)"

fun post_all_loop ::
  "(addr \<Rightarrow> world \<Rightarrow> world run) \<Rightarrow> nat \<Rightarrow> nat \<Rightarrow> addr \<Rightarrow> world \<Rightarrow> world run" where
  "post_all_loop pa k 0 t W = Diverged"
| "post_all_loop pa k (Suc j) t W =
     (if s_first (semas W t) \<noteq> None
      then bind_run (post_sema pa k t W) (post_all_loop pa k j t)
      else Done (upd_sema t (\<lambda>s. s\<lparr>s_value := - 1\<rparr>) W))"

primrec scheme_post_sema_all :: "nat \<Rightarrow> addr \<Rightarrow> world \<Rightarrow> world run" where
  "scheme_post_sema_all 0 t W = Diverged"
| "scheme_post_sema_all (Suc n) t W =
     post_all_loop (scheme_post_sema_all n) (Suc n) (Suc n) t W"

definition scheme_post_sema :: "nat \<Rightarrow> addr \<Rightarrow> world \<Rightarrow> world run" where
  "scheme_post_sema n t W = post_sema (scheme_post_sema_all n) (Suc n) t W"

definition scheme_try_plain_sema :: "addr \<Rightarrow> world \<Rightarrow> bool \<times> world" where
  "scheme_try_plain_sema s W =
     (if s_value (semas W s) \<noteq> 0 then
        (True, if 0 <s s_value (semas W s)
               then upd_sema s (\<lambda>t. t\<lparr>s_value := s_value t - 1\<rparr>) W else W)
      else (False, W))"

end
