(* ===== verification/SyncLines.thy ===== *)
theory SyncLines
  imports Sync "HOL-Library.Sublist"
begin

text \<open>
  The lines of \<open>sema.c\<close> as lists. \<open>lines W L X\<close> relates the linked objects of the store \<open>W\<close> to the
  abstract lines \<open>L\<close>; \<open>X\<close> are the waiters that \<open>did_post_sema\<close> has taken off the head of their line and
  not yet marked as out of it, which is the state in which it posts nacks. Entering a line appends to
  the abstract line, leaving it removes the waiter from wherever it stands.
\<close>

named_theorems world_simps \<open>fields of the store after an update\<close>

section \<open>Doubly linked segments\<close>

definition hd_ptr :: "addr list \<Rightarrow> addr option \<Rightarrow> addr option" where
  "hd_ptr xs n = (case xs of [] \<Rightarrow> n | x # _ \<Rightarrow> Some x)"

definition last_ptr :: "addr option \<Rightarrow> addr list \<Rightarrow> addr option" where
  "last_ptr p xs = (if xs = [] then p else Some (last xs))"

text \<open>
  \<open>dll S p xs n\<close>: the objects \<open>xs\<close> are linked in this order, the first one back to \<open>p\<close> and the last one
  forward to \<open>n\<close>.
\<close>

fun dll ::
  "(addr \<Rightarrow> Scheme_Channel_Syncer) \<Rightarrow> addr option \<Rightarrow> addr list \<Rightarrow> addr option \<Rightarrow> bool" where
  "dll S p [] n = True"
| "dll S p (x # xs) n \<longleftrightarrow> w_prev (S x) = p \<and> w_next (S x) = hd_ptr xs n \<and> dll S (Some x) xs n"

lemma hd_ptr_simps [simp]: "hd_ptr [] n = n" "hd_ptr (x # xs) n = Some x"
  by (simp_all add: hd_ptr_def)

lemma hd_ptr_append [simp]: "hd_ptr (xs @ ys) n = hd_ptr xs (hd_ptr ys n)"
  by (cases xs) simp_all

lemma last_ptr_simps [simp]:
  "last_ptr p [] = p" "last_ptr p (x # xs) = last_ptr (Some x) xs"
  "last_ptr p (xs @ ys) = last_ptr (last_ptr p xs) ys"
  by (auto simp: last_ptr_def)

lemma hd_ptr_None_iff [simp]: "hd_ptr xs None = None \<longleftrightarrow> xs = []"
  by (cases xs) simp_all

lemma last_ptr_None_iff [simp]: "last_ptr None xs = None \<longleftrightarrow> xs = []"
  by (simp add: last_ptr_def)

lemma last_ptr_Some_neq [simp]: "last_ptr (Some a) xs \<noteq> None"
  by (simp add: last_ptr_def)

lemma dll_append: "dll S p (xs @ ys) n \<longleftrightarrow> dll S p xs (hd_ptr ys n) \<and> dll S (last_ptr p xs) ys n"
  by (induction xs arbitrary: p) auto

lemma dll_cong:
  assumes "\<And>x. x \<in> set xs \<Longrightarrow> w_prev (S' x) = w_prev (S x)"
    and "\<And>x. x \<in> set xs \<Longrightarrow> w_next (S' x) = w_next (S x)"
  shows "dll S' p xs n = dll S p xs n"
  using assms by (induction xs arbitrary: p) auto

text \<open>
  A segment whose last object is redirected forward to \<open>m\<close>, one whose first object is redirected
  back to \<open>q\<close>, and the two of them around a hole.
\<close>

lemma dll_set_last:
  assumes "dll S p xs n" and "distinct xs"
    and "\<And>x. x \<in> set xs \<Longrightarrow> w_prev (S' x) = w_prev (S x)"
    and "\<And>x. x \<in> set xs \<Longrightarrow> w_next (S' x) = (if x = last xs then m else w_next (S x))"
  shows "dll S' p xs m"
proof (cases xs rule: rev_cases)
  case (snoc ys y)
  have "dll S' p ys (Some y)"
    by (subst dll_cong [where S = S]) (use assms snoc in \<open>auto simp: dll_append\<close>)
  then show ?thesis using assms snoc by (simp add: dll_append)
qed simp

lemma dll_set_first:
  assumes "dll S p xs n" and "distinct xs"
    and "\<And>x. x \<in> set xs \<Longrightarrow> w_prev (S' x) = (if x = hd xs then q else w_prev (S x))"
    and "\<And>x. x \<in> set xs \<Longrightarrow> w_next (S' x) = w_next (S x)"
  shows "dll S' q xs n"
proof (cases xs)
  case (Cons y ys)
  have "dll S' (Some y) ys n"
    by (subst dll_cong [where S = S]) (use assms Cons in auto)
  then show ?thesis using assms Cons by simp
qed simp

lemma dll_remove:
  assumes "dll S None (as @ w # bs) None" and "distinct (as @ w # bs)"
    and "\<And>x. x \<noteq> w \<Longrightarrow> w_next (S' x) =
           (if as \<noteq> [] \<and> x = last as then hd_ptr bs None else w_next (S x))"
    and "\<And>x. x \<noteq> w \<Longrightarrow> w_prev (S' x) =
           (if bs \<noteq> [] \<and> x = hd bs then last_ptr None as else w_prev (S x))"
  shows "dll S' None (as @ bs) None"
proof -
  have disj: "x \<in> set as \<Longrightarrow> x \<noteq> w \<and> x \<notin> set bs" "x \<in> set bs \<Longrightarrow> x \<noteq> w \<and> x \<notin> set as" for x
    using assms(2) by auto
  have "dll S' None as (hd_ptr bs None)"
    by (rule dll_set_last [of S]) (use assms disj in \<open>auto simp: dll_append\<close>)
  moreover have "dll S' (last_ptr None as) bs None"
    by (rule dll_set_first [of S]) (use assms disj in \<open>auto simp: dll_append\<close>)
  ultimately show ?thesis by (simp add: dll_append)
qed

section \<open>The abstraction\<close>

definition linked :: "world \<Rightarrow> line \<Rightarrow> addr list \<Rightarrow> bool" where
  "linked W ln xs \<longleftrightarrow>
     line_first W ln = hd_ptr xs None \<and> line_last W ln = last_ptr None xs \<and>
     dll (syncers W) None xs None \<and> distinct xs"

definition lines :: "world \<Rightarrow> (line \<Rightarrow> addr list) \<Rightarrow> addr set \<Rightarrow> bool" where
  "lines W L X \<longleftrightarrow>
     (\<forall>ln. linked W ln (L ln)) \<and>
     (\<forall>ln w. w \<in> set (L ln) \<longleftrightarrow>
        in_line (syncers W w) \<and> line_of W (w_obj (syncers W w)) = Some ln \<and> w \<notin> X) \<and>
     (\<forall>s w. w \<in> set (L (Sema_Line s)) \<longrightarrow> \<not> picked (syncers W w)) \<and>
     (\<forall>w\<in>X. in_line (syncers W w) \<and> (\<exists>s. w_obj (syncers W w) = Sema s))"

lemma linked_unique:
  assumes "linked W ln xs" and "linked W ln ys"
  shows "xs = ys"
proof -
  have "xs = ys" if "hd_ptr xs None = hd_ptr ys None" "dll S p xs None" "dll S q ys None" for S p q
    using that by (induction xs arbitrary: p q ys) (case_tac ys; auto)+
  with assms show ?thesis by (auto simp: linked_def)
qed

lemma linesD:
  assumes "lines W L X"
  shows "linked W ln (L ln)"
    and "w \<in> set (L ln) \<longleftrightarrow>
           in_line (syncers W w) \<and> line_of W (w_obj (syncers W w)) = Some ln \<and> w \<notin> X"
    and "w \<in> set (L (Sema_Line s)) \<Longrightarrow> \<not> picked (syncers W w)"
    and "w \<in> X \<Longrightarrow> in_line (syncers W w)"
    and "w \<in> X \<Longrightarrow> \<exists>s. w_obj (syncers W w) = Sema s"
  using assms unfolding lines_def by blast+

lemma lines_disjoint:
  assumes "lines W L X" and "w \<in> set (L ln)" and "w \<in> set (L ln')"
  shows "ln = ln'"
  using linesD(2) [OF assms(1)] assms(2,3) by simp

text \<open>A waiter of a line can be split off.\<close>

lemma linked_split:
  assumes "linked W ln (as @ w # bs)"
  shows "w_prev (syncers W w) = last_ptr None as" and "w_next (syncers W w) = hd_ptr bs None"
    and "w \<notin> set as" and "w \<notin> set bs" and "set as \<inter> set bs = {}"
  using assms by (auto simp: linked_def dll_append)

section \<open>Fields after an update\<close>

lemma line_of_cong: "channel_puts W' = channel_puts W \<Longrightarrow> line_of W' e = line_of W e"
  by (cases e) simp_all

lemma upd_syncer_simps [world_simps]:
  "syncers (upd_syncer w f W) = (syncers W)(w := f (syncers W w))"
  "semas (upd_syncer w f W) = semas W" "channels (upd_syncer w f W) = channels W"
  "channel_puts (upd_syncer w f W) = channel_puts W"
  "syncings (upd_syncer w f W) = syncings W" "threads (upd_syncer w f W) = threads W"
  "run_queue (upd_syncer w f W) = run_queue W"
  "current_thread (upd_syncer w f W) = current_thread W"
  "cells (upd_syncer w f W) = cells W" "fresh (upd_syncer w f W) = fresh W"
  "all_breaks_disabled (upd_syncer w f W) = all_breaks_disabled W"
  "no_stack_overflow (upd_syncer w f W) = no_stack_overflow W"
  by (simp_all add: upd_syncer_def)

lemma upd_sema_simps [world_simps]:
  "semas (upd_sema s f W) = (semas W)(s := f (semas W s))"
  "syncers (upd_sema s f W) = syncers W" "channels (upd_sema s f W) = channels W"
  "channel_puts (upd_sema s f W) = channel_puts W"
  "syncings (upd_sema s f W) = syncings W" "threads (upd_sema s f W) = threads W"
  "run_queue (upd_sema s f W) = run_queue W"
  "current_thread (upd_sema s f W) = current_thread W"
  "cells (upd_sema s f W) = cells W" "fresh (upd_sema s f W) = fresh W"
  "all_breaks_disabled (upd_sema s f W) = all_breaks_disabled W"
  "no_stack_overflow (upd_sema s f W) = no_stack_overflow W"
  by (simp_all add: upd_sema_def)

lemma upd_channel_simps [world_simps]:
  "channels (upd_channel c f W) = (channels W)(c := f (channels W c))"
  "syncers (upd_channel c f W) = syncers W" "semas (upd_channel c f W) = semas W"
  "channel_puts (upd_channel c f W) = channel_puts W"
  "syncings (upd_channel c f W) = syncings W" "threads (upd_channel c f W) = threads W"
  "run_queue (upd_channel c f W) = run_queue W"
  "current_thread (upd_channel c f W) = current_thread W"
  "cells (upd_channel c f W) = cells W" "fresh (upd_channel c f W) = fresh W"
  "all_breaks_disabled (upd_channel c f W) = all_breaks_disabled W"
  "no_stack_overflow (upd_channel c f W) = no_stack_overflow W"
  by (simp_all add: upd_channel_def)

lemma upd_syncing_simps [world_simps]:
  "syncings (upd_syncing y f W) = (syncings W)(y := f (syncings W y))"
  "syncers (upd_syncing y f W) = syncers W" "semas (upd_syncing y f W) = semas W"
  "channels (upd_syncing y f W) = channels W" "channel_puts (upd_syncing y f W) = channel_puts W"
  "threads (upd_syncing y f W) = threads W"
  "run_queue (upd_syncing y f W) = run_queue W"
  "current_thread (upd_syncing y f W) = current_thread W"
  "cells (upd_syncing y f W) = cells W" "fresh (upd_syncing y f W) = fresh W"
  by (simp_all add: upd_syncing_def)

lemma upd_thread_simps [world_simps]:
  "threads (upd_thread p f W) = (threads W)(p := f (threads W p))"
  "syncers (upd_thread p f W) = syncers W" "semas (upd_thread p f W) = semas W"
  "channels (upd_thread p f W) = channels W" "channel_puts (upd_thread p f W) = channel_puts W"
  "syncings (upd_thread p f W) = syncings W"
  "run_queue (upd_thread p f W) = run_queue W"
  "current_thread (upd_thread p f W) = current_thread W"
  "cells (upd_thread p f W) = cells W" "fresh (upd_thread p f W) = fresh W"
  by (simp_all add: upd_thread_def)

section \<open>Entering and leaving a line\<close>

lemma line_ends_cong:
  "semas W' = semas W \<Longrightarrow> channels W' = channels W \<Longrightarrow> line_first W' ln = line_first W ln"
  "semas W' = semas W \<Longrightarrow> channels W' = channels W \<Longrightarrow> line_last W' ln = line_last W ln"
  by (cases ln; simp)+

lemma set_line_simps [world_simps]:
  "syncers (set_line ln f l W) = syncers W" "channel_puts (set_line ln f l W) = channel_puts W"
  "syncings (set_line ln f l W) = syncings W" "threads (set_line ln f l W) = threads W"
  "run_queue (set_line ln f l W) = run_queue W"
  "current_thread (set_line ln f l W) = current_thread W"
  "cells (set_line ln f l W) = cells W" "fresh (set_line ln f l W) = fresh W"
  "s_value (semas (set_line ln f l W) s) = s_value (semas W s)"
  by (cases ln; simp add: world_simps)+

lemma line_ends_set_line [world_simps]:
  "line_first (set_line ln f l W) ln' = (if ln' = ln then f else line_first W ln')"
  "line_last (set_line ln f l W) ln' = (if ln' = ln then l else line_last W ln')"
  by (cases ln; cases ln'; simp add: world_simps)+

lemma set_next_simps [world_simps]:
  "semas (set_next a v W) = semas W" "channels (set_next a v W) = channels W"
  "channel_puts (set_next a v W) = channel_puts W" "syncings (set_next a v W) = syncings W"
  "threads (set_next a v W) = threads W" "run_queue (set_next a v W) = run_queue W"
  "current_thread (set_next a v W) = current_thread W"
  "cells (set_next a v W) = cells W" "fresh (set_next a v W) = fresh W"
  "syncers (set_next a v W) x =
     (if a = Some x then (syncers W x)\<lparr>w_next := v\<rparr> else syncers W x)"
  by (auto simp: set_next_def world_simps split: option.splits)

lemma set_prev_simps [world_simps]:
  "semas (set_prev a v W) = semas W" "channels (set_prev a v W) = channels W"
  "channel_puts (set_prev a v W) = channel_puts W" "syncings (set_prev a v W) = syncings W"
  "threads (set_prev a v W) = threads W" "run_queue (set_prev a v W) = run_queue W"
  "current_thread (set_prev a v W) = current_thread W"
  "cells (set_prev a v W) = cells W" "fresh (set_prev a v W) = fresh W"
  "syncers (set_prev a v W) x =
     (if a = Some x then (syncers W x)\<lparr>w_prev := v\<rparr> else syncers W x)"
  by (auto simp: set_prev_def world_simps split: option.splits)

lemma line_ends_upd_syncer [world_simps]:
  "line_first (upd_syncer w f W) ln = line_first W ln"
  "line_last (upd_syncer w f W) ln = line_last W ln"
  by (rule line_ends_cong; simp add: world_simps)+

lemma line_ends_set_next [world_simps]:
  "line_first (set_next a v W) ln = line_first W ln" "line_last (set_next a v W) ln = line_last W ln"
  "line_first (set_prev a v W) ln = line_first W ln" "line_last (set_prev a v W) ln = line_last W ln"
  by (rule line_ends_cong; simp add: world_simps)+

lemma line_of_upd [world_simps]:
  "line_of (upd_syncer w f W) e = line_of W e" "line_of (set_line ln g l W) e = line_of W e"
  "line_of (set_next a v W) e = line_of W e" "line_of (set_prev a v W) e = line_of W e"
  by (rule line_of_cong; simp add: world_simps)+

text \<open>The objects of the other lines keep their links.\<close>

lemma linked_frame:
  assumes "linked W ln xs"
    and "line_first W' ln = line_first W ln" and "line_last W' ln = line_last W ln"
    and "\<And>x. x \<in> set xs \<Longrightarrow> w_prev (syncers W' x) = w_prev (syncers W x)"
    and "\<And>x. x \<in> set xs \<Longrightarrow> w_next (syncers W' x) = w_next (syncers W x)"
  shows "linked W' ln xs"
  using assms dll_cong [of xs "syncers W'" "syncers W"] by (simp add: linked_def)

lemma lines_get_into_line:
  assumes ok: "lines W L X" and ln: "line_of W (w_obj (syncers W w)) = Some ln"
    and out: "\<not> in_line (syncers W w)"
  shows "lines (get_into_line (w_obj (syncers W w)) w W) (L(ln := L ln @ [w])) X"
proof -
  define W' where "W' = get_into_line (w_obj (syncers W w)) w W"
  define S where "S = syncers W"
  have l: "linked W ln (L ln)" by (rule linesD(1) [OF ok])
  have nin: "w \<notin> set (L ln')" for ln' using linesD(2) [OF ok, of w ln'] out by simp
  have nX: "w \<notin> X" using linesD(4) [OF ok] out by blast
  have S': "syncers W' x =
      (if x = w then (S w)\<lparr>in_line := True, picked := False, w_prev := last_ptr None (L ln),
                          w_next := None\<rparr>
       else if last_ptr None (L ln) = Some x then (S x)\<lparr>w_next := Some w\<rparr> else S x)" for x
    using l ln nin [of ln]
    by (auto simp: W'_def get_into_line_def Let_def world_simps linked_def S_def last_ptr_def
        split: if_splits)
  have ends: "line_first W' ln' = (if ln' = ln then hd_ptr (L ln @ [w]) None else line_first W ln')"
    "line_last W' ln' = (if ln' = ln then Some w else line_last W ln')" for ln'
    using l ln by (auto simp: W'_def get_into_line_def Let_def world_simps linked_def hd_ptr_def
        split: list.splits)
  have puts: "channel_puts W' = channel_puts W"
    using ln by (simp add: W'_def get_into_line_def Let_def world_simps)
  have last_in: "last_ptr None (L ln) = Some x \<Longrightarrow> x \<in> set (L ln)" for x
    by (auto simp: last_ptr_def split: if_splits)
  have "linked W' ln' ((L(ln := L ln @ [w])) ln')" for ln'
  proof (cases "ln' = ln")
    case True
    have "dll (syncers W') None (L ln) (Some w)"
      by (rule dll_set_last [of S _ _ None])
        (use l nin [of ln] in \<open>auto simp: linked_def S' S_def last_ptr_def\<close>)
    then show ?thesis
      using l nin [of ln] True by (simp add: linked_def dll_append ends S')
  next
    case False
    have "x \<noteq> w \<and> last_ptr None (L ln) \<noteq> Some x" if "x \<in> set (L ln')" for x
      using that nin last_in lines_disjoint [OF ok that, of ln] False by auto
    then show ?thesis
      using False linked_frame [OF linesD(1) [OF ok, of ln'], of W'] by (auto simp: ends S' S_def)
  qed
  moreover have "v \<in> set ((L(ln := L ln @ [w])) ln') \<longleftrightarrow>
      in_line (syncers W' v) \<and> line_of W' (w_obj (syncers W' v)) = Some ln' \<and> v \<notin> X" for v ln'
    using linesD(2) [OF ok, of v ln'] line_of_cong [OF puts] ln nin [of ln'] nX
    by (auto simp: S' S_def)
  moreover have "\<not> picked (syncers W' v)" if "v \<in> set ((L(ln := L ln @ [w])) (Sema_Line s))" for v s
    using that linesD(3) [OF ok, of v s] linesD(3) [OF ok, of v] ln
    by (auto simp: S' S_def split: if_splits)
  ultimately show ?thesis
    unfolding lines_def W'_def [symmetric] using linesD(4,5) [OF ok] nX by (auto simp: S' S_def)
qed

text \<open>Leaving: the waiter is cut out of its line; a waiter that is in no line is left alone.\<close>

lemma syncers_get_outof_line:
  assumes "line_of W ev = Some ln" and "linked W ln (as @ w # bs)" and "in_line (syncers W w)"
  defines "W' \<equiv> get_outof_line ev w W"
  shows "syncers W' x =
      (if x = w then (syncers W w)\<lparr>in_line := False\<rparr>
       else (syncers W x)
         \<lparr>w_next := (if as \<noteq> [] \<and> x = last as then hd_ptr bs None else w_next (syncers W x)),
          w_prev := (if bs \<noteq> [] \<and> x = hd bs then last_ptr None as else w_prev (syncers W x))\<rparr>)"
    and "line_first W' ln' = (if ln' = ln then hd_ptr (as @ bs) None else line_first W ln')"
    and "line_last W' ln' = (if ln' = ln then last_ptr None (as @ bs) else line_last W ln')"
proof -
  define W1 where "W1 = upd_syncer w (\<lambda>t. t\<lparr>in_line := False\<rparr>) W"
  have ends: "line_first W ln = hd_ptr (as @ w # bs) None"
    "line_last W ln = last_ptr None (as @ w # bs)"
    using assms(2) by (simp_all add: linked_def)
  have W': "W' = set_line ln (hd_ptr (as @ bs) None) (last_ptr None (as @ bs))
      (set_prev (hd_ptr bs None) (last_ptr None as)
        (set_next (last_ptr None as) (hd_ptr bs None) W1))"
    using assms(1,3) linked_split(1,2) [OF assms(2)] ends
    by (cases as; cases bs) (simp_all add: W'_def W1_def get_outof_line_def Let_def world_simps)
  have "last_ptr None as = Some x \<longleftrightarrow> as \<noteq> [] \<and> x = last as"
    "hd_ptr bs None = Some x \<longleftrightarrow> bs \<noteq> [] \<and> x = hd bs" for x
    by (auto simp: last_ptr_def hd_ptr_def split: list.splits)
  moreover have "w \<noteq> last as" if "as \<noteq> []" using linked_split(3) [OF assms(2)] that by auto
  moreover have "w \<noteq> hd bs" if "bs \<noteq> []" using linked_split(4) [OF assms(2)] that by auto
  ultimately show "syncers W' x =
      (if x = w then (syncers W w)\<lparr>in_line := False\<rparr>
       else (syncers W x)
         \<lparr>w_next := (if as \<noteq> [] \<and> x = last as then hd_ptr bs None else w_next (syncers W x)),
          w_prev := (if bs \<noteq> [] \<and> x = hd bs then last_ptr None as else w_prev (syncers W x))\<rparr>)"
    by (auto simp: W' W1_def world_simps)
  show "line_first W' ln' = (if ln' = ln then hd_ptr (as @ bs) None else line_first W ln')"
    "line_last W' ln' = (if ln' = ln then last_ptr None (as @ bs) else line_last W ln')"
    by (simp_all add: W' W1_def world_simps)
qed

lemma get_outof_line_simps [world_simps]:
  "channel_puts (get_outof_line ev w W) = channel_puts W"
  "syncings (get_outof_line ev w W) = syncings W"
  "threads (get_outof_line ev w W) = threads W"
  "run_queue (get_outof_line ev w W) = run_queue W"
  "current_thread (get_outof_line ev w W) = current_thread W"
  "cells (get_outof_line ev w W) = cells W" "fresh (get_outof_line ev w W) = fresh W"
  "s_value (semas (get_outof_line ev w W) s) = s_value (semas W s)"
  by (simp_all add: get_outof_line_def Let_def world_simps split: option.splits)

lemma lines_get_outof_line:
  assumes ok: "lines W L X" and ln: "line_of W ev = Some ln"
    and same: "line_of W (w_obj (syncers W w)) = Some ln" and nX: "w \<notin> X"
  shows "lines (get_outof_line ev w W) (L(ln := remove1 w (L ln))) X"
proof (cases "in_line (syncers W w)")
  case False
  have "w \<notin> set (L ln)" using linesD(2) [OF ok, of w ln] False by simp
  then show ?thesis using ok False by (simp add: get_outof_line_def remove1_idem)
next
  case True
  define W' where "W' = get_outof_line ev w W"
  have "w \<in> set (L ln)" using linesD(2) [OF ok, of w ln] True same nX by simp
  then obtain as bs where split: "L ln = as @ w # bs" by (meson split_list)
  have l: "linked W ln (as @ w # bs)" using linesD(1) [OF ok, of ln] split by simp
  note parts = linked_split [OF l]
  note S' = syncers_get_outof_line [OF ln l True, folded W'_def]
  have lo: "line_of W' e = line_of W e" for e
    by (rule line_of_cong) (simp add: W'_def world_simps)
  have rem: "remove1 w (L ln) = as @ bs" using parts by (simp add: split remove1_append)
  have "linked W' ln' ((L(ln := as @ bs)) ln')" for ln'
  proof (cases "ln' = ln")
    case True
    have "dll (syncers W') None (as @ bs) None"
      by (rule dll_remove [of "syncers W" _ w]) (use l S' in \<open>auto simp: linked_def\<close>)
    then show ?thesis using l S' True by (simp add: linked_def)
  next
    case False
    have off: "x \<noteq> w \<and> x \<notin> set as \<and> x \<notin> set bs" if "x \<in> set (L ln')" for x
      using lines_disjoint [OF ok that, of ln] False by (auto simp: split)
    have "linked W' ln' (L ln')"
      by (rule linked_frame [OF linesD(1) [OF ok, of ln']])
        (use off False in \<open>auto simp: S' dest: hd_in_set last_in_set\<close>)
    then show ?thesis using False by simp
  qed
  moreover have "v \<in> set ((L(ln := as @ bs)) ln') \<longleftrightarrow>
      in_line (syncers W' v) \<and> line_of W' (w_obj (syncers W' v)) = Some ln' \<and> v \<notin> X" for v ln'
    using linesD(2) [OF ok, of v ln'] parts(3,4) same lo by (auto simp: S' split split: if_splits)
  moreover have "\<not> picked (syncers W' v)" if "v \<in> set ((L(ln := as @ bs)) (Sema_Line s))" for v s
    using that linesD(3) [OF ok, of v s] by (auto simp: S' split split: if_splits)
  ultimately show ?thesis
    unfolding lines_def W'_def [symmetric] rem using linesD(4,5) [OF ok] nX by (auto simp: S')
qed

section \<open>Taking the head of a semaphore's line\<close>

lemma pop_line_simps [world_simps]:
  "channel_puts (pop_line t w W) = channel_puts W" "syncings (pop_line t w W) = syncings W"
  "threads (pop_line t w W) = threads W" "run_queue (pop_line t w W) = run_queue W"
  "current_thread (pop_line t w W) = current_thread W" "channels (pop_line t w W) = channels W"
  "cells (pop_line t w W) = cells W" "fresh (pop_line t w W) = fresh W"
  "s_value (semas (pop_line t w W) s) = s_value (semas W s)"
  "all_breaks_disabled (pop_line t w W) = all_breaks_disabled W"
  "no_stack_overflow (pop_line t w W) = no_stack_overflow W"
  by (simp_all add: pop_line_def world_simps split: option.splits)

lemma replaces_simps [world_simps]:
  "replaces (upd_syncer w f W) = replaces W" "replaces (upd_sema s g W) = replaces W"
  "replaces (upd_channel c h W) = replaces W" "replaces (upd_syncing y e W) = replaces W"
  "replaces (upd_thread p d W) = replaces W" "replaces (set_line ln a b W) = replaces W"
  "replaces (set_next a b W) = replaces W" "replaces (set_prev a b W) = replaces W"
  by (simp_all add: upd_defs set_next_def set_prev_def split: option.split) (cases ln; simp add: upd_defs)

lemma replaces_line_simps [world_simps]:
  "replaces (get_into_line ev w W) = replaces W" "replaces (get_outof_line ev w W) = replaces W"
  "replaces (pop_line t w W) = replaces W"
  by (simp_all add: get_into_line_def get_outof_line_def pop_line_def Let_def replaces_simps split: option.split)

lemma syncers_pop_line:
  "syncers (pop_line t w W) x =
     (if w_next (syncers W w) = Some x then (syncers W x)\<lparr>w_prev := None\<rparr> else syncers W x)"
  by (simp add: pop_line_def world_simps split: option.splits)

lemma lines_pop_line:
  assumes ok: "lines W L X" and hd: "L (Sema_Line t) = w # ws"
  shows "lines (pop_line t w W) (L(Sema_Line t := ws)) (insert w X)"
proof -
  define W' where "W' = pop_line t w W"
  have l: "linked W (Sema_Line t) ([] @ w # ws)" using linesD(1) [OF ok, of "Sema_Line t"] hd by simp
  note parts = linked_split [OF l]
  have S': "syncers W' x =
      (if ws \<noteq> [] \<and> x = List.hd ws then (syncers W x)\<lparr>w_prev := None\<rparr> else syncers W x)" for x
    using parts by (auto simp: W'_def syncers_pop_line hd_ptr_def split: list.splits)
  have ends: "line_first W' ln = (if ln = Sema_Line t then hd_ptr ws None else line_first W ln)"
    "line_last W' ln = (if ln = Sema_Line t then last_ptr None ws else line_last W ln)" for ln
    using l parts by (cases ln; auto simp: W'_def pop_line_def world_simps linked_def hd_ptr_def
        last_ptr_def split: list.splits option.splits)+
  have lo: "line_of W' e = line_of W e" for e
    by (rule line_of_cong) (simp add: W'_def world_simps)
  have "linked W' ln ((L(Sema_Line t := ws)) ln)" for ln
  proof (cases "ln = Sema_Line t")
    case True
    have "dll (syncers W') None ws None"
      by (rule dll_set_first [of "syncers W" "Some w"]) (use l S' in \<open>auto simp: linked_def\<close>)
    then show ?thesis using l True ends [of "Sema_Line t"] by (simp add: linked_def)
  next
    case False
    have off: "x \<notin> set ws" if "x \<in> set (L ln)" for x
      using lines_disjoint [OF ok that, of "Sema_Line t"] False by (auto simp: hd)
    have "linked W' ln (L ln)"
      by (rule linked_frame [OF linesD(1) [OF ok, of ln]])
        (use off False in \<open>auto simp: ends S' dest: hd_in_set\<close>)
    then show ?thesis using False by simp
  qed
  moreover have w: "in_line (syncers W w)" "line_of W (w_obj (syncers W w)) = Some (Sema_Line t)"
    using linesD(2) [OF ok, of w "Sema_Line t"] hd by auto
  moreover have "w_obj (syncers W w) = Sema t" using w(2) by (cases "w_obj (syncers W w)") auto
  moreover have "v \<in> set ((L(Sema_Line t := ws)) ln) \<longleftrightarrow>
      in_line (syncers W' v) \<and> line_of W' (w_obj (syncers W' v)) = Some ln \<and> v \<notin> insert w X" for v ln
    using linesD(2) [OF ok, of v ln] parts(3,4) w lo by (auto simp: S' hd split: if_splits)
  moreover have "\<not> picked (syncers W' v)" if "v \<in> set ((L(Sema_Line t := ws)) (Sema_Line s))" for v s
    using that linesD(3) [OF ok, of v s] by (auto simp: S' hd split: if_splits)
  ultimately show ?thesis
    unfolding lines_def W'_def [symmetric] using linesD(4,5) [OF ok] by (auto simp: S')
qed

text \<open>
  A change of the store outside of the lines, and one that marks waiters of \<open>X\<close> as out of line.
\<close>

lemma lines_frame:
  assumes ok: "lines W L X"
    and "channel_puts W' = channel_puts W"
    and "\<And>ln. line_first W' ln = line_first W ln" and "\<And>ln. line_last W' ln = line_last W ln"
    and same: "\<And>x. x \<notin> D \<Longrightarrow> w_prev (syncers W' x) = w_prev (syncers W x) \<and>
           w_next (syncers W' x) = w_next (syncers W x) \<and>
           in_line (syncers W' x) = in_line (syncers W x) \<and>
           picked (syncers W' x) = picked (syncers W x)"
    and obj: "\<And>x. w_obj (syncers W' x) = w_obj (syncers W x)"
    and off: "\<And>x. x \<in> D \<Longrightarrow> \<not> in_line (syncers W' x)"
    and D: "D \<subseteq> X"
  shows "lines W' L (X - D)"
proof -
  have nD: "x \<notin> D" if "x \<in> set (L ln)" for x ln using linesD(2) [OF ok, of x ln] that D by auto
  have "linked W' ln (L ln)" for ln
    using linked_frame [OF linesD(1) [OF ok, of ln], of W'] assms(3,4) same nD by blast
  moreover have "v \<in> set (L ln) \<longleftrightarrow>
      in_line (syncers W' v) \<and> line_of W' (w_obj (syncers W' v)) = Some ln \<and> v \<notin> X - D" for v ln
    using linesD(2) [OF ok, of v ln] line_of_cong [OF assms(2)] same [of v] obj [of v] off [of v] D
    by auto
  moreover have "\<not> picked (syncers W' v)" if "v \<in> set (L (Sema_Line s))" for v s
    using linesD(3) [OF ok that] same [of v] nD [OF that] by simp
  ultimately show ?thesis
    unfolding lines_def using linesD(4,5) [OF ok] same obj by auto
qed

end
