(* ===== verification/SyncPosts.thy ===== *)
theory SyncPosts
  imports SyncLines
begin

text \<open>
  What a post does to the store. The recursion of \<open>scheme_post_sema_all\<close> through the negative
  acknowledgements is the locale \<open>nested_post\<close>: it fixes the recursive call and assumes its contract
  for stores with fewer than \<open>n\<close> waiters, and shows the contract of the calling code for \<open>n\<close>
  waiters. The interpretation closes the recursion: every call with more fuel than there are waiters
  returns.
\<close>

section \<open>The contract\<close>

definition waiting :: "world \<Rightarrow> addr set \<Rightarrow> addr set" where
  "waiting W X = {w. in_line (syncers W w) \<and> w \<notin> X}"

text \<open>
  The syncers found in event sets wait for channels: \<open>scheme_wait_semas_chs\<close> replaces the entries by
  their objects before it enters the line of a semaphore.
\<close>

definition sets_ok :: "world \<Rightarrow> bool" where
  "sets_ok W \<longleftrightarrow>
     (\<forall>y argv w s. y_set (syncings W y) = Some argv \<longrightarrow> Syncer w \<in> set argv \<longrightarrow>
        w_obj (syncers W w) \<noteq> Sema s)"

abbreviation vals :: "world \<Rightarrow> addr \<Rightarrow> int" where
  "vals W s \<equiv> sint (s_value (semas W s))"

text \<open>Nobody waits for a semaphore that is posted for good.\<close>

definition closed_empty :: "world \<Rightarrow> bool" where
  "closed_empty W \<longleftrightarrow> (\<forall>s. vals W s < 0 \<longrightarrow> s_first (semas W s) = None)"

text \<open>No semaphore with a line overflows if all waiters are picked one by one.\<close>

definition roomy :: "world \<Rightarrow> addr set \<Rightarrow> bool" where
  "roomy W X \<longleftrightarrow>
     (\<forall>s. s_first (semas W s) \<noteq> None \<longrightarrow> vals W s + int (card (waiting W X)) < 2 ^ 31)"

definition good :: "world \<Rightarrow> (line \<Rightarrow> addr list) \<Rightarrow> addr set \<Rightarrow> nat \<Rightarrow> bool" where
  "good W L X n \<longleftrightarrow>
     lines W L X \<and> sets_ok W \<and> closed_empty W \<and> finite (waiting W X) \<and> card (waiting W X) < n"

definition same_role :: "Scheme_Channel_Syncer \<Rightarrow> Scheme_Channel_Syncer \<Rightarrow> bool" where
  "same_role a b \<longleftrightarrow>
     w_obj b = w_obj a \<and> w_syncing b = w_syncing a \<and> syncing_i b = syncing_i a \<and> w_p b = w_p a"

text \<open>Threads are only made runnable, and user suspension is left alone.\<close>

definition threads_ok :: "world \<Rightarrow> world \<Rightarrow> bool" where
  "threads_ok W W' \<longleftrightarrow>
     (\<forall>p. running (threads W' p) AND MZTHREAD_USER_SUSPENDED =
            running (threads W p) AND MZTHREAD_USER_SUSPENDED \<and>
          (running (threads W p) AND MZTHREAD_SUSPENDED = 0 \<longrightarrow>
             running (threads W' p) AND MZTHREAD_SUSPENDED = 0))"

lemma threads_ok_refl [simp]: "threads W' = threads W \<Longrightarrow> threads_ok W W'"
  by (simp add: threads_ok_def)

lemma threads_ok_trans: "threads_ok W W' \<Longrightarrow> threads_ok W' W'' \<Longrightarrow> threads_ok W W''"
  by (simp add: threads_ok_def)

text \<open>
  How a post may change the store: waiters only leave lines and are only picked, a result that is
  set stays, and the value of a semaphore on which somebody still waits is at least \<open>b\<close>.
\<close>

definition evolves :: "(addr \<Rightarrow> int) \<Rightarrow> world \<Rightarrow> world \<Rightarrow> bool" where
  "evolves b W W' \<longleftrightarrow>
     channel_puts W' = channel_puts W \<and> threads_ok W W' \<and> length (replaces W') \<le> length (replaces W) \<and>
     (\<forall>w. same_role (syncers W w) (syncers W' w) \<and>
        (in_line (syncers W' w) \<longrightarrow> in_line (syncers W w)) \<and>
        (picked (syncers W w) \<longrightarrow> picked (syncers W' w))) \<and>
     (\<forall>y. y_set (syncings W' y) = y_set (syncings W y) \<and>
        reposts (syncings W' y) = reposts (syncings W y) \<and>
        (y_result (syncings W y) \<noteq> 0 \<longrightarrow> y_result (syncings W' y) = y_result (syncings W y))) \<and>
     (\<forall>s. s_first (semas W s) = None \<longrightarrow> s_first (semas W' s) = None) \<and>
     (\<forall>s. s_first (semas W' s) = None \<or> b s \<le> vals W' s)"

definition post_ok ::
  "bool \<Rightarrow> (addr \<Rightarrow> int) \<Rightarrow> nat \<Rightarrow> addr set \<Rightarrow> world \<Rightarrow> (line \<Rightarrow> addr list) \<Rightarrow> world run \<Rightarrow> bool" where
  "post_ok P b n X W L r =
     (case r of
        Done W' \<Rightarrow> \<exists>L'. good W' L' X n \<and> (\<forall>ln. subseq (L' ln) (L ln)) \<and> evolves b W W' \<and>
                     (P \<longrightarrow> roomy W' X)
      | Raised W' \<Rightarrow> \<not> P
      | _ \<Rightarrow> False)"

subsection \<open>Composition\<close>

lemma same_role_refl [simp]: "same_role a a"
  by (simp add: same_role_def)

lemma same_role_trans: "same_role a b \<Longrightarrow> same_role b c \<Longrightarrow> same_role a c"
  by (simp add: same_role_def)

lemma evolves_refl: "evolves (vals W) W W"
  by (simp add: evolves_def)

lemma evolves_weaken:
  assumes "evolves b W W'" and "\<And>s. s_first (semas W' s) = None \<or> c s \<le> b s"
  shows "evolves c W W'"
  using assms unfolding evolves_def by (meson order_trans)

lemma evolvesD:
  assumes "evolves b W W'"
  shows "channel_puts W' = channel_puts W" "threads_ok W W'"
    "length (replaces W') \<le> length (replaces W)" "same_role (syncers W w) (syncers W' w)"
    "in_line (syncers W' w) \<Longrightarrow> in_line (syncers W w)" "picked (syncers W w) \<Longrightarrow> picked (syncers W' w)"
    "y_set (syncings W' y) = y_set (syncings W y)" "reposts (syncings W' y) = reposts (syncings W y)"
    "y_result (syncings W y) \<noteq> 0 \<Longrightarrow> y_result (syncings W' y) = y_result (syncings W y)"
    "s_first (semas W s) = None \<Longrightarrow> s_first (semas W' s) = None"
    "s_first (semas W' s) = None \<or> b s \<le> vals W' s"
  using assms by (simp_all add: evolves_def)

lemma evolves_then:
  assumes "evolves b W W'" and "evolves c W' W''"
  shows "evolves c W W''"
  unfolding evolves_def
  using evolvesD(1) [OF assms(1)] evolvesD(1) [OF assms(2)] evolvesD(4) [OF assms(1)]
    threads_ok_trans [OF evolvesD(2) [OF assms(1)] evolvesD(2) [OF assms(2)]]
    order_trans [OF evolvesD(3) [OF assms(2)] evolvesD(3) [OF assms(1)]]
    same_role_trans [OF evolvesD(4) [OF assms(1)] evolvesD(4) [OF assms(2)]]
    evolvesD(5,6,10) [OF assms(1)] evolvesD(5,6,10,11) [OF assms(2)]
    evolvesD(7,8) [OF assms(1)] evolvesD(7,8) [OF assms(2)] evolvesD(9) [OF assms(1)] evolvesD(9) [OF assms(2)]
  by (intro conjI allI impI) simp_all

lemma evolves_trans:
  assumes "evolves b W W'" and "evolves (vals W') W' W''"
  shows "evolves b W W''"
proof (rule evolves_then [OF assms(1) evolves_weaken [OF assms(2)]])
  show "s_first (semas W'' s) = None \<or> b s \<le> vals W' s" for s
    using evolvesD(11) [OF assms(1), of s] evolvesD(10) [OF assms(2), of s] by blast
qed

lemma waiting_mono: "evolves b W W' \<Longrightarrow> waiting W' X \<subseteq> waiting W X"
  by (auto simp: evolves_def waiting_def)

lemma good_mono: "good W L X m \<Longrightarrow> m \<le> n \<Longrightarrow> good W L X n"
  by (auto simp: good_def)

lemma post_ok_Done:
  assumes "good W' L' X n" and "\<And>ln. subseq (L' ln) (L ln)" and "evolves b W W'"
    and "P \<Longrightarrow> roomy W' X"
  shows "post_ok P b n X W L (Done W')"
  using assms by (auto simp: post_ok_def)

lemma post_ok_more: "post_ok P b m X W L r \<Longrightarrow> m \<le> n \<Longrightarrow> post_ok P b n X W L r"
  by (auto simp: post_ok_def intro: good_mono split: run.splits)

lemma post_ok_bind:
  assumes r: "post_ok P b m X W L r"
    and f: "\<And>W' L'. good W' L' X m \<Longrightarrow> evolves b W W' \<Longrightarrow> (\<And>ln. subseq (L' ln) (L ln)) \<Longrightarrow>
          (P \<Longrightarrow> roomy W' X) \<Longrightarrow> post_ok P b n X W L (f W')"
  shows "post_ok P b n X W L (bind_run r f)"
proof (cases r)
  case (Done W')
  then obtain L' where "good W' L' X m" "evolves b W W'" "\<forall>ln. subseq (L' ln) (L ln)"
    "P \<longrightarrow> roomy W' X"
    using r by (auto simp: post_ok_def)
  then show ?thesis using f [of W' L'] Done by simp
qed (use r in \<open>auto simp: post_ok_def\<close>)

text \<open>A second step whose contract is relative to the store it starts from.\<close>

lemma post_ok_then:
  assumes "evolves b W W'" and "\<And>ln. subseq (L' ln) (L ln)" and "P \<Longrightarrow> Q"
    and "post_ok Q (vals W') n X W' L' r"
  shows "post_ok P b n X W L r"
proof -
  have "subseq (L'' ln) (L ln)" if "subseq (L'' ln) (L' ln)" for L'' ln
    using assms(2) that by (meson subseq_order.order_trans)
  then show ?thesis
    using assms(3,4) evolves_trans [OF assms(1)] by (auto simp: post_ok_def split: run.splits)
qed

lemma post_ok_seq_le:
  assumes r: "post_ok P b m X W L r"
    and f: "\<And>W' L'. good W' L' X m \<Longrightarrow> length (replaces W') \<le> length (replaces W) \<Longrightarrow>
          post_ok (roomy W' X) (vals W') n X W' L' (f W')"
  shows "post_ok P b n X W L (bind_run r f)"
proof (rule post_ok_bind [OF r])
  fix W' L'
  assume a: "good W' L' X m" "evolves b W W'" "\<And>ln. subseq (L' ln) (L ln)" "P \<Longrightarrow> roomy W' X"
  have "length (replaces W') \<le> length (replaces W)" using a(2) by (simp add: evolves_def)
  then show "post_ok P b n X W L (f W')"
    using post_ok_then [of b W W' L' L P "roomy W' X"] f a by blast
qed

lemma post_ok_seq:
  assumes "post_ok P b m X W L r"
    and "\<And>W' L'. good W' L' X m \<Longrightarrow> post_ok (roomy W' X) (vals W') n X W' L' (f W')"
  shows "post_ok P b n X W L (bind_run r f)"
  by (rule post_ok_seq_le [OF assms(1)]) (rule assms(2))

lemma post_ok_aside:
  assumes "post_ok (roomy W' X) (vals W') n X W' L r"
    and "evolves (vals W) W W'" and "roomy W X \<longrightarrow> roomy W' X"
  shows "post_ok (roomy W X) (vals W) n X W L r"
  using post_ok_then [of "vals W" W W' L L "roomy W X" "roomy W' X"] assms by blast

section \<open>Elementary steps\<close>

text \<open>A step that leaves semaphores, channels and waiters alone.\<close>

definition aside :: "world \<Rightarrow> world \<Rightarrow> bool" where
  "aside W W' \<longleftrightarrow>
     semas W' = semas W \<and> channels W' = channels W \<and> channel_puts W' = channel_puts W \<and>
     syncers W' = syncers W \<and> threads_ok W W' \<and> length (replaces W') \<le> length (replaces W) \<and>
     (\<forall>y. y_set (syncings W' y) = y_set (syncings W y) \<and>
        reposts (syncings W' y) = reposts (syncings W y) \<and>
        (y_result (syncings W y) \<noteq> 0 \<longrightarrow> y_result (syncings W' y) = y_result (syncings W y)))"

lemma aside_trans: "aside W W' \<Longrightarrow> aside W' W'' \<Longrightarrow> aside W W''"
  using threads_ok_trans [of W W' W''] by (simp add: aside_def)

lemma aside_evolves: "aside W W' \<Longrightarrow> evolves (vals W) W W'"
  by (simp add: aside_def evolves_def)

lemma aside_lines: "aside W W' \<Longrightarrow> lines W L X \<Longrightarrow> lines W' L X"
  using lines_frame [of W L X W' "{}"] line_ends_cong [of W' W] by (simp add: aside_def)

lemma aside_good: "aside W W' \<Longrightarrow> good W L X n \<Longrightarrow> good W' L X n"
  using aside_lines [of W W' L X]
  by (simp add: good_def sets_ok_def closed_empty_def waiting_def) (simp add: aside_def)

lemma aside_roomy: "aside W W' \<Longrightarrow> roomy W' X = roomy W X"
  by (simp add: aside_def roomy_def waiting_def)

lemma aside_clear_nack: "aside W (clear_nack y i W)"
  by (simp add: aside_def clear_nack_def world_simps)

lemma aside_upd_thread:
  "(\<And>t. running (f t) = running t) \<Longrightarrow> aside W (upd_thread p f W)"
  by (simp add: aside_def threads_ok_def world_simps)

lemma aside_set_sync_result:
  "y_result (syncings W y) = 0 \<Longrightarrow> aside W (set_sync_result y i W)"
  by (simp add: aside_def set_sync_result_def suspend_breaks_def threads_ok_def world_simps
      split: option.split)

lemma aside_accept: "aside W (scheme_accept_sync y i W)"
  by (simp add: aside_def scheme_accept_sync_def world_simps split: option.split)

lemma clear_flag:
  fixes x :: "32 word"
  assumes "x AND MZTHREAD_SUSPENDED \<noteq> 0"
  shows "x - MZTHREAD_SUSPENDED = x AND NOT MZTHREAD_SUSPENDED"
proof -
  have "bit x 1" using assms and_exp_eq_0_iff_not_bit [of x 1] by simp
  then have two: "x AND 2 = 2"
    by (intro bit_word_eqI) (auto simp: bit_and_iff bit_2_iff)
  have "(x AND NOT 2) AND (x AND 2) = 0" by (intro bit_word_eqI) (auto simp: bit_simps)
  then have "(x AND NOT 2) + (x AND 2) = (x AND NOT 2) OR (x AND 2)"
    by (rule disjunctive_add_eq_or)
  also have "\<dots> = x" by (intro bit_word_eqI) (auto simp: bit_simps)
  finally have "(x AND NOT 2) + 2 = x" by (simp only: two)
  then show ?thesis by (metis add_diff_cancel_right')
qed

lemma resume_runs:
  "running (threads W r) AND MZTHREAD_USER_SUSPENDED = 0 \<Longrightarrow>
   running (threads (scheme_weak_resume_thread r W) r) AND MZTHREAD_SUSPENDED = 0"
  by (auto simp: scheme_weak_resume_thread_def world_simps clear_flag and.assoc)

lemma aside_resume: "aside W (scheme_weak_resume_thread r W)"
  by (auto simp: aside_def scheme_weak_resume_thread_def threads_ok_def clear_flag and.assoc
      world_simps)

lemma aside_resume_if_picked: "aside W (resume_if_picked w W)"
  using aside_resume by (simp add: resume_if_picked_def aside_def)

text \<open>Leaving a line.\<close>

lemma get_outof_line_keeps:
  "same_role (syncers W x) (syncers (get_outof_line ev w W) x)"
  "picked (syncers (get_outof_line ev w W) x) = picked (syncers W x)"
  "in_line (syncers (get_outof_line ev w W) x) \<Longrightarrow> in_line (syncers W x)"
  by (auto simp: get_outof_line_def Let_def world_simps same_role_def split: option.splits if_splits)

lemma subseq_remove1: "subseq (remove1 w xs) xs"
  by (induction xs) auto

lemma lines_leave:
  assumes ok: "lines W L X" and nX: "w \<notin> X"
  obtains L' where "lines (scheme_get_outof_line w W) L' X" "\<And>ln. subseq (L' ln) (L ln)"
proof (cases "line_of W (w_obj (syncers W w))")
  case None
  define W' where "W' = scheme_get_outof_line w W"
  have W': "W' = (if in_line (syncers W w) then upd_syncer w (\<lambda>t. t\<lparr>in_line := False\<rparr>) W else W)"
    using None by (simp add: W'_def scheme_get_outof_line_def get_outof_line_def Let_def world_simps)
  have nin: "w \<notin> set (L ln)" for ln using linesD(2) [OF ok, of w ln] None by simp
  have "linked W' ln (L ln)" for ln
    by (rule linked_frame [OF linesD(1) [OF ok]])
      (use nin in \<open>auto simp: W' world_simps split: if_splits\<close>)
  then have "lines W' L X"
    using ok None nX unfolding lines_def W' by (auto simp: world_simps)
  then show ?thesis using that [of L] by (simp add: W'_def)
next
  case (Some ln)
  have "subseq ((L(ln := remove1 w (L ln))) ln') (L ln')" for ln'
    by (simp add: subseq_remove1)
  then show ?thesis
    using that lines_get_outof_line [OF ok Some Some nX] by (simp add: scheme_get_outof_line_def)
qed

lemma lines_sema_first: "lines W L X \<Longrightarrow> s_first (semas W s) = hd_ptr (L (Sema_Line s)) None"
  using linesD(1) [of W L X "Sema_Line s"] by (simp add: linked_def)

lemma lines_first_None:
  assumes "lines W L X" and "lines W' L' X'" and "subseq (L' (Sema_Line s)) (L (Sema_Line s))"
    and "s_first (semas W s) = None"
  shows "s_first (semas W' s) = None"
  using assms(3,4) lines_sema_first [OF assms(1), of s] lines_sema_first [OF assms(2), of s] by simp

lemma roomy_mono:
  assumes "roomy W X" and "card (waiting W' Y) \<le> card (waiting W X)"
    and "\<And>s. s_first (semas W' s) \<noteq> None \<Longrightarrow> s_first (semas W s) \<noteq> None \<and> vals W' s \<le> vals W s"
  shows "roomy W' Y"
  unfolding roomy_def
proof (intro allI impI)
  fix s
  assume "s_first (semas W' s) \<noteq> None"
  note s = assms(3) [OF this]
  then have "vals W s + int (card (waiting W X)) < 2 ^ 31"
    using assms(1) by (simp only: roomy_def) blast
  then show "vals W' s + int (card (waiting W' Y)) < 2 ^ 31" using s assms(2) by linarith
qed

lemma leave_entry_ok:
  assumes g: "good W L X n"
  obtains L' where "good (leave_line_of_entry y i W) L' X n" "\<And>ln. subseq (L' ln) (L ln)"
    "evolves (vals W) W (leave_line_of_entry y i W)"
    "roomy W X \<longrightarrow> roomy (leave_line_of_entry y i W) X"
proof (cases "\<exists>argv w. y_set (syncings W y) = Some argv \<and> i < length argv \<and> argv ! i = Syncer w")
  case True
  then obtain argv w where entry: "y_set (syncings W y) = Some argv" "i < length argv"
    "argv ! i = Syncer w" by blast
  define W' where "W' = scheme_get_outof_line w W"
  have W': "leave_line_of_entry y i W = W'"
    using entry by (simp add: leave_line_of_entry_def W'_def)
  have ok: "lines W L X" and sets: "sets_ok W" using g by (simp_all add: good_def)
  have "Syncer w \<in> set argv" using entry(2,3) nth_mem by fastforce
  then have "w_obj (syncers W w) \<noteq> Sema s" for s
    using sets entry(1) unfolding sets_ok_def by blast
  then have "w \<notin> X" using linesD(5) [OF ok, of w] by blast
  then obtain L' where L': "lines W' L' X" "\<And>ln. subseq (L' ln) (L ln)"
    using lines_leave [OF ok] unfolding W'_def by blast
  have keeps: "channel_puts W' = channel_puts W" "syncings W' = syncings W" "threads W' = threads W"
    "\<And>s. s_value (semas W' s) = s_value (semas W s)"
    by (simp_all add: W'_def scheme_get_outof_line_def world_simps)
  have ev: "evolves (vals W) W W'"
    using lines_first_None [OF ok L'(1)] L'(2) keeps
    by (auto simp: evolves_def W'_def scheme_get_outof_line_def get_outof_line_keeps world_simps
        dest: get_outof_line_keeps(3))
  have sub: "waiting W' X \<subseteq> waiting W X" by (rule waiting_mono [OF ev])
  have fin: "finite (waiting W X)" using g by (simp add: good_def)
  have card: "card (waiting W' X) \<le> card (waiting W X)" by (rule card_mono [OF fin sub])
  have "sets_ok W'" using sets ev by (simp add: sets_ok_def keeps evolves_def same_role_def)
  moreover have "closed_empty W'"
    using g ev by (simp add: good_def closed_empty_def keeps evolves_def)
  ultimately have "good W' L' X n"
    using g L'(1) finite_subset [OF sub fin] card by (simp add: good_def)
  moreover have "roomy W X \<longrightarrow> roomy W' X"
    using roomy_mono [of W X W' X] card ev by (force simp: keeps evolves_def)
  ultimately show ?thesis using that [of L'] L'(2) ev by (simp add: W')
next
  case False
  then have "leave_line_of_entry y i W = W"
    by (auto simp: leave_line_of_entry_def split: option.splits evt.splits)
  then show ?thesis using that [of L] g evolves_refl by simp
qed

lemma nack_replacement_ok:
  assumes "nack_replacement y i syncs W = (syncs', W')"
  shows "aside W W'" and "length syncs' + length (replaces W') \<le> length syncs + length (replaces W)"
proof -
  have "length (filter (\<lambda>r. fst r \<noteq> a) rs) < length rs" if "map_of rs a = Some z" for rs :: "(addr \<times> addr) list" and a z
    using map_of_SomeD [OF that] by (intro length_filter_less) auto
  then have "aside W W' \<and> length syncs' + length (replaces W') \<le> length syncs + length (replaces W)"
    using assms
    by (fastforce simp: nack_replacement_def scheme_replace_evt_nack_def aside_def
        split: option.splits if_splits evt.splits)
  then show "aside W W'" "length syncs' + length (replaces W') \<le> length syncs + length (replaces W)" by auto
qed

lemma visit_entry_ok:
  assumes "good W L X n" and "length syncs + length (replaces W) \<le> m"
    and "nack_replacement y i syncs (leave_line_of_entry y i W) = (syncs', W')"
  obtains L' where "good W' L' X n" "\<And>ln. subseq (L' ln) (L ln)" "evolves (vals W) W W'"
    "roomy W X \<longrightarrow> roomy W' X" "length syncs' + length (replaces W') \<le> m"
proof -
  let ?V = "leave_line_of_entry y i W"
  obtain L' where L': "good ?V L' X n" "\<And>ln. subseq (L' ln) (L ln)" "evolves (vals W) W ?V"
    "roomy W X \<longrightarrow> roomy ?V X" by (rule leave_entry_ok [OF assms(1), of y i]) blast
  note a = nack_replacement_ok [OF assms(3)]
  have "length (replaces ?V) \<le> length (replaces W)" using L'(3) by (simp add: evolves_def)
  then show thesis
    using that [OF aside_good [OF a(1) L'(1)] L'(2) evolves_trans [OF L'(3) aside_evolves [OF a(1)]]]
      aside_roomy [OF a(1)] L'(4) a(2) assms(2) by simp
qed

text \<open>Taking the head of a line; the overflow bound may be exceeded by one before.\<close>

definition roomy1 :: "world \<Rightarrow> addr set \<Rightarrow> bool" where
  "roomy1 W X \<longleftrightarrow>
     (\<forall>s. s_first (semas W s) \<noteq> None \<longrightarrow> vals W s + int (card (waiting W X)) < 2 ^ 31 + 1)"

lemma pop_ok:
  assumes g: "good W L X (Suc n)" and hd: "L (Sema_Line t) = w # ws"
  defines "W1 \<equiv> pop_line t w W" and "L1 \<equiv> L(Sema_Line t := ws)"
  shows "good W1 L1 (insert w X) n" and "evolves (vals W) W W1"
    and "roomy1 W X \<Longrightarrow> roomy W1 (insert w X)" and "w \<notin> X" and "subseq (L1 ln) (L ln)"
    and "card (waiting W1 (insert w X)) < card (waiting W X)"
proof -
  have ok: "lines W L X" and fin: "finite (waiting W X)" and card: "card (waiting W X) \<le> n"
    using g by (auto simp: good_def)
  have ok1: "lines W1 L1 (insert w X)"
    unfolding W1_def L1_def by (rule lines_pop_line [OF ok hd])
  have w: "in_line (syncers W w)" "w \<notin> X" using linesD(2) [OF ok, of w "Sema_Line t"] hd by auto
  show "w \<notin> X" by (rule w(2))
  have role: "same_role (syncers W x) (syncers W1 x)" "in_line (syncers W1 x) = in_line (syncers W x)"
    "picked (syncers W1 x) = picked (syncers W x)" for x
    by (simp_all add: W1_def syncers_pop_line same_role_def)
  show sub: "subseq (L1 ln) (L ln)" for ln
    by (auto simp: L1_def hd)
  have vals: "s_value (semas W1 s) = s_value (semas W s)" for s by (simp add: W1_def world_simps)
  show ev: "evolves (vals W) W W1"
    using lines_first_None [OF ok ok1 sub] by (simp add: evolves_def role vals) (simp add: W1_def world_simps)
  have wait: "waiting W1 (insert w X) = waiting W X - {w}" by (auto simp: waiting_def role)
  have "w \<in> waiting W X" using w by (simp add: waiting_def)
  then show less: "card (waiting W1 (insert w X)) < card (waiting W X)"
    using fin by (simp only: wait card_Diff1_less)
  have "sets_ok W1" "closed_empty W1"
    using g ev by (auto simp: good_def sets_ok_def closed_empty_def evolves_def same_role_def vals)
  then show "good W1 L1 (insert w X) n"
    using ok1 less card fin by (simp add: good_def wait)
  show "roomy W1 (insert w X)" if "roomy1 W X"
    unfolding roomy_def
  proof (intro allI impI)
    fix s
    assume "s_first (semas W1 s) \<noteq> None"
    then have "s_first (semas W s) \<noteq> None" using ev by (auto simp: evolves_def)
    then have "vals W s + int (card (waiting W X)) < 2 ^ 31 + 1"
      using that by (simp only: roomy1_def) blast
    then show "vals W1 s + int (card (waiting W1 (insert w X))) < 2 ^ 31"
      using less unfolding vals by linarith
  qed
qed

text \<open>Marking the waiter as out of line, and as picked.\<close>

lemma lines_detach:
  fixes b :: bool
  assumes "lines W L (insert w X)" and "w \<notin> X"
  shows "lines (detach w (if b then set_picked w W else W)) L X"
proof -
  define W1 where "W1 = detach w (if b then set_picked w W else W)"
  have s: "syncers W1 x = (if x = w then (syncers W w)\<lparr>in_line := False, w_prev := None, w_next := None,
       picked := b \<or> picked (syncers W w)\<rparr> else syncers W x)"
    "semas W1 = semas W" "channels W1 = channels W" "channel_puts W1 = channel_puts W" for x
    by (simp_all add: W1_def detach_def world_simps)
  have "lines W1 L (insert w X - {w})"
    by (rule lines_frame) (use assms(1) line_ends_cong [of W1 W] in \<open>auto simp: s\<close>)
  moreover have "insert w X - {w} = X" using assms(2) by blast
  ultimately show ?thesis by (simp add: W1_def)
qed

lemma detach_ok:
  fixes b :: bool
  assumes g: "good W L (insert w X) m" and w: "w \<notin> X"
  defines "W1 \<equiv> detach w (if b then set_picked w W else W)"
  shows "good W1 L X m" and "evolves (vals W) W W1" and "roomy W (insert w X) \<Longrightarrow> roomy W1 X"
    and "waiting W1 X = waiting W (insert w X)"
proof -
  have s: "syncers W1 x = (if x = w then (syncers W w)\<lparr>in_line := False, w_prev := None, w_next := None,
       picked := b \<or> picked (syncers W w)\<rparr> else syncers W x)"
    "semas W1 = semas W" "channels W1 = channels W" "channel_puts W1 = channel_puts W"
    "syncings W1 = syncings W" "threads W1 = threads W" "replaces W1 = replaces W" for x
    by (simp_all add: W1_def detach_def world_simps)
  show wait: "waiting W1 X = waiting W (insert w X)" using w by (auto simp: waiting_def s)
  have "lines W1 L X" unfolding W1_def by (rule lines_detach) (use g w in \<open>simp_all add: good_def\<close>)
  moreover show ev: "evolves (vals W) W W1" by (simp add: evolves_def s same_role_def)
  ultimately show "good W1 L X m"
    using g by (auto simp: good_def sets_ok_def closed_empty_def s wait)
  show "roomy W (insert w X) \<Longrightarrow> roomy W1 X" by (simp add: roomy_def wait s)
qed

text \<open>Consuming a post.\<close>

lemma sint_minus_1: "- (2 ^ 63) < sint (v :: 64 word) \<Longrightarrow> sint (v - 1) = sint v - 1"
  using sint_less [of v]
  by (simp add: sint_word_ariths signed_take_bit_int_eq_self)

lemma set_value_ok:
  assumes g: "good W L X m" and v: "s_first (semas W t) = None \<or> 0 \<le> sint v"
  defines "W1 \<equiv> upd_sema t (\<lambda>s. s\<lparr>s_value := v\<rparr>) W"
  shows "good W1 L X m" and "evolves ((vals W)(t := sint v)) W W1" and "waiting W1 X = waiting W X"
    and "s_first (semas W1 x) = s_first (semas W x)"
    and "s_value (semas W1 x) = (if x = t then v else s_value (semas W x))"
proof -
  have s: "syncers W1 = syncers W" "channels W1 = channels W" "channel_puts W1 = channel_puts W"
    "syncings W1 = syncings W" "threads W1 = threads W" "replaces W1 = replaces W"
    "s_first (semas W1 x) = s_first (semas W x)" "s_last (semas W1 x) = s_last (semas W x)"
    "s_value (semas W1 x) = (if x = t then v else s_value (semas W x))" for x
    by (simp_all add: W1_def world_simps)
  show "s_first (semas W1 x) = s_first (semas W x)"
    "s_value (semas W1 x) = (if x = t then v else s_value (semas W x))" by (rule s)+
  show wait: "waiting W1 X = waiting W X" by (simp add: waiting_def s)
  have ends: "line_first W1 ln = line_first W ln" "line_last W1 ln = line_last W ln" for ln
    by (cases ln; simp add: s)+
  have "lines W1 L (X - {})" by (rule lines_frame) (use g in \<open>auto simp: good_def ends s\<close>)
  then show "good W1 L X m"
    using g v by (auto simp: good_def sets_ok_def closed_empty_def s wait)
  show "evolves ((vals W)(t := sint v)) W W1" by (simp add: evolves_def s)
qed

lemma consume_ok:
  assumes g: "good W L X m" and v: "s_first (semas W t) = None \<or> 0 < vals W t"
  defines "W1 \<equiv> upd_sema t (\<lambda>s. s\<lparr>s_value := s_value s - 1\<rparr>) W"
  shows "good W1 L X m" and "evolves ((vals W)(t := vals W t - 1)) W W1"
    and "roomy W X \<Longrightarrow> roomy W1 X" and "waiting W1 X = waiting W X"
proof -
  let ?v = "s_value (semas W t) - 1"
  have W1: "W1 = upd_sema t (\<lambda>s. s\<lparr>s_value := ?v\<rparr>) W" by (simp add: W1_def upd_sema_def)
  have sv: "s_first (semas W t) = None \<or> sint ?v = vals W t - 1 \<and> 0 < vals W t"
    using v sint_minus_1 [of "s_value (semas W t)"] by auto
  then have "s_first (semas W t) = None \<or> 0 \<le> sint ?v" by auto
  note s = set_value_ok [OF g this, folded W1]
  show "good W1 L X m" "waiting W1 X = waiting W X" by (rule s)+
  show "evolves ((vals W)(t := vals W t - 1)) W W1"
    by (rule evolves_weaken [OF s(2)]) (use sv in \<open>auto simp: s(4)\<close>)
  show "roomy W X \<Longrightarrow> roomy W1 X"
    by (rule roomy_mono [of W X]) (use sv in \<open>auto simp: s(3,4,5)\<close>)
qed

text \<open>
  The next value of a semaphore. The truncation to \<open>int\<close> makes it wrap at 31 bits, so the test for
  overflow fails from \<open>2 ^ 31 - 1\<close> on.
\<close>

lemma sint_next_value:
  assumes "0 \<le> sint v"
  shows "sint (next_value v) = signed_take_bit 31 (sint v + 1)"
proof -
  have "signed_take_bit 31 (k + 1) = signed_take_bit 31 (signed_take_bit 63 k + 1 :: int)" for k
  proof -
    have "take_bit 32 (k + 1) = take_bit 32 (take_bit 32 k + take_bit 32 1)" by (simp only: take_bit_add)
    also have "take_bit 32 k = take_bit 32 (signed_take_bit 63 k)" by (simp add: take_bit_signed_take_bit)
    also have "take_bit 32 (\<dots> + take_bit 32 1) = take_bit 32 (signed_take_bit 63 k + 1)"
      by (simp only: take_bit_add)
    finally show ?thesis by (simp add: signed_take_bit_eq_iff_take_bit_eq)
  qed
  then show ?thesis
    unfolding next_value_def by transfer (simp add: signed_take_bit_take_bit)
qed

lemma next_value_small:
  assumes "0 \<le> sint v" and "sint v < 2 ^ 31 - 1"
  shows "sint (next_value v) = sint v + 1"
  using assms by (simp add: sint_next_value signed_take_bit_int_eq_self)

lemma next_value_less:
  assumes "0 \<le> sint v"
  shows "v <s next_value v \<longleftrightarrow> sint v < 2 ^ 31 - 1"
proof (cases "sint v < 2 ^ 31 - 1")
  case False
  have "signed_take_bit 31 (sint v + 1) < 2 ^ 31" by (rule signed_take_bit_int_less_exp)
  then show ?thesis using False assms by (simp add: word_sless_alt sint_next_value)
qed (use assms next_value_small in \<open>simp add: word_sless_alt\<close>)

lemma settle_ok:
  fixes b :: bool
  assumes g: "good W L (insert w X) m" and w: "w \<notin> X"
  defines "W1 \<equiv> resume_if_picked w (detach w (if b then set_picked w W else W))"
  shows "good W1 L X m" and "evolves (vals W) W W1" and "roomy W (insert w X) \<Longrightarrow> roomy W1 X"
    and "waiting W1 X = waiting W (insert w X)"
proof -
  define W0 where "W0 = detach w (if b then set_picked w W else W)"
  have a: "aside W0 W1" unfolding W1_def W0_def by (rule aside_resume_if_picked)
  note d = detach_ok [OF g w, of b, folded W0_def]
  show "good W1 L X m" by (rule aside_good [OF a d(1)])
  show "evolves (vals W) W W1" by (rule evolves_trans [OF d(2) aside_evolves [OF a]])
  show "roomy W1 X" if "roomy W (insert w X)" using d(3) [OF that] aside_roomy [OF a] by simp
  show "waiting W1 X = waiting W (insert w X)"
    using d(4) a by (simp add: waiting_def aside_def)
qed

text \<open>A waiter that has been picked: its thread can run and its synchronization has a result.\<close>

definition woken :: "world \<Rightarrow> addr \<Rightarrow> bool" where
  "woken W w \<longleftrightarrow>
     picked (syncers W w) \<and> running (threads W (w_p (syncers W w))) AND MZTHREAD_SUSPENDED = 0 \<and>
     (case w_syncing (syncers W w) of None \<Rightarrow> True
      | Some y \<Rightarrow> y_result (syncings W y) = Suc (syncing_i (syncers W w)))"

lemma woken_evolves:
  assumes "evolves b W W'" and "woken W w"
  shows "woken W' w"
proof -
  have "same_role (syncers W w) (syncers W' w)" "picked (syncers W' w)" "threads_ok W W'"
    "\<And>y. y_result (syncings W y) \<noteq> 0 \<Longrightarrow> y_result (syncings W' y) = y_result (syncings W y)"
    using assms by (auto simp: evolves_def woken_def)
  then show ?thesis
    using assms(2) by (auto simp: woken_def same_role_def threads_ok_def split: option.splits)
qed

lemma settle_woken:
  assumes "running (threads W (w_p (syncers W w))) AND MZTHREAD_USER_SUSPENDED = 0"
    and "\<And>y. w_syncing (syncers W w) = Some y \<Longrightarrow>
           y_result (syncings W y) = Suc (syncing_i (syncers W w))"
  shows "woken (resume_if_picked w (detach w (set_picked w W))) w"
proof -
  define W0 where "W0 = detach w (set_picked w W)"
  define W1 where "W1 = scheme_weak_resume_thread (w_p (syncers W w)) W0"
  have eq: "resume_if_picked w W0 = W1"
    by (simp add: resume_if_picked_def W0_def W1_def detach_def world_simps)
  have "running (threads W1 (w_p (syncers W w))) AND MZTHREAD_SUSPENDED = 0"
    unfolding W1_def by (rule resume_runs) (use assms(1) in \<open>simp add: W0_def detach_def world_simps\<close>)
  moreover have "syncers W1 = syncers W0" "syncings W1 = syncings W"
    by (simp_all add: W1_def W0_def scheme_weak_resume_thread_def detach_def world_simps)
  ultimately show ?thesis
    unfolding W0_def [symmetric] eq
    using assms(2) by (auto simp: woken_def W0_def detach_def world_simps split: option.split)
qed

lemma can_pick_not_suspended:
  assumes "can_pick w W"
  shows "running (threads W (w_p (syncers W w))) AND MZTHREAD_USER_SUSPENDED = 0"
proof -
  let ?r = "running (threads W (w_p (syncers W w)))"
  have "?r AND 16 = (?r AND (4 OR 16)) AND 16" by (simp add: and.assoc)
  also have "?r AND (4 OR 16) = 0"
    using assms by (auto simp: can_pick_def pending_break_def split: if_splits)
  finally show ?thesis by simp
qed

lemma can_pick_cong:
  assumes "w_p (syncers W' w) = w_p (syncers W w)" "w_syncing (syncers W' w) = w_syncing (syncers W w)"
    and "syncings W' = syncings W" "threads W' = threads W" "run_queue W' = run_queue W"
    and "current_thread W' = current_thread W" "all_breaks_disabled W' = all_breaks_disabled W"
    and "no_stack_overflow W' = no_stack_overflow W"
  shows "can_pick w W' \<longleftrightarrow> can_pick w W"
proof -
  have "pending_break p W' = pending_break p W" for p
    using assms(4-8) by (cases "thread_next (run_queue W) p")
      (simp_all add: pending_break_def scheme_can_break_def can_break_param_def upd_thread_def)
  then show ?thesis unfolding can_pick_def assms(1-3) by simp
qed

text \<open>Two steps, the second one with its own bounds.\<close>

lemma evolves_trans2:
  assumes "evolves b W W'" and "evolves c W' W''" and "\<And>s. s_first (semas W' s) = None \<or> d s \<le> c s"
  shows "evolves d W W''"
proof -
  have "evolves (\<lambda>s. d s) W' W''"
    by (rule evolves_weaken [OF assms(2)]) (use assms(2,3) in \<open>auto simp: evolves_def\<close>)
  then show ?thesis by (rule evolves_then [OF assms(1)])
qed

lemma post_ok_then2:
  assumes "evolves b W W'" and "\<And>ln. subseq (L' ln) (L ln)" and "P \<Longrightarrow> Q" and "n' \<le> n"
    and "\<And>s. s_first (semas W' s) = None \<or> d s \<le> c s"
    and r: "post_ok Q c n' X W' L' r"
  shows "post_ok P d n X W L r"
proof (cases r)
  case (Done W'')
  then obtain L'' where L'': "good W'' L'' X n'" "\<And>ln. subseq (L'' ln) (L' ln)" "evolves c W' W''"
    "Q \<longrightarrow> roomy W'' X"
    using r by (auto simp: post_ok_def)
  have "evolves d W W''" by (rule evolves_trans2 [OF assms(1) L''(3) assms(5)])
  moreover have "subseq (L'' ln) (L ln)" for ln
    using L''(2) assms(2) by (meson subseq_order.order_trans)
  ultimately show ?thesis
    unfolding Done using L''(4) assms(3)
    by (intro post_ok_Done [OF good_mono [OF L''(1) assms(4)]]) auto
qed (use r assms(3) in \<open>auto simp: post_ok_def\<close>)

section \<open>The recursion\<close>

abbreviation room_for :: "addr \<Rightarrow> world \<Rightarrow> (line \<Rightarrow> addr list) \<Rightarrow> addr set \<Rightarrow> bool" where
  "room_for t W L X \<equiv> roomy1 W X \<and> (L (Sema_Line t) = [] \<longrightarrow> roomy W X)"

locale nested_post =
  fixes pa :: "addr \<Rightarrow> world \<Rightarrow> world run" and n :: nat
  assumes pa_ok: "good W L X n \<Longrightarrow> post_ok (roomy W X) (vals W) n X W L (pa t W)"
begin

lemma post_nack_list_ok:
  "good W L X n \<Longrightarrow> post_ok (roomy W X) (vals W) n X W L (post_nack_list pa skip l W)"
proof (induction l arbitrary: W L)
  case Nil
  then show ?case by (simp add: post_ok_Done evolves_refl)
next
  case (Cons a l)
  show ?case
  proof (cases "a \<in> set skip")
    case False
    then have "post_nack_list pa skip (a # l) W = bind_run (pa a W) (post_nack_list pa skip l)"
      by simp
    moreover have "post_ok (roomy W X) (vals W) n X W L (bind_run (pa a W) (post_nack_list pa skip l))"
      by (rule post_ok_seq [OF pa_ok [OF Cons.prems] Cons.IH])
    ultimately show ?thesis by simp
  qed (use Cons in simp)
qed

lemma nacks_loop_ok:
  assumes rest: "\<And>skip syncs W L. good W L X n \<Longrightarrow> length syncs + length (replaces W) \<le> m \<Longrightarrow>
      post_ok (roomy W X) (vals W) n X W L (rest skip syncs W)"
  shows "good W L X n \<Longrightarrow> length syncs + length (replaces W) \<le> m \<Longrightarrow>
    post_ok (roomy W X) (vals W) n X W L (nacks_loop pa y is skip syncs rest W)"
proof (induction "is" arbitrary: W L skip syncs)
  case Nil
  then show ?case using rest by simp
next
  case (Cons i "is")
  obtain syncs1 W1 where W1: "nack_replacement y i syncs (leave_line_of_entry y i W) = (syncs1, W1)" by force
  obtain L1 where L1: "good W1 L1 X n" "\<And>ln. subseq (L1 ln) (L ln)" "evolves (vals W) W W1"
    "roomy W X \<longrightarrow> roomy W1 X" and m: "length syncs1 + length (replaces W1) \<le> m"
    using visit_entry_ok [OF Cons.prems W1] by blast
  have tail: "post_ok (roomy W2 X) (vals W2) n X W2 L2 (nacks_loop pa y is sk syncs1 rest (clear_nack y i W2))"
    if "good W2 L2 X n" "length (replaces W2) \<le> length (replaces W1)" for W2 L2 sk
  proof -
    have "length syncs1 + length (replaces (clear_nack y i W2)) \<le> m"
      using that(2) m by (simp add: clear_nack_def world_simps)
    from Cons.IH [OF aside_good [OF aside_clear_nack that(1)] this] show ?thesis
      by (rule post_ok_aside) (simp_all add: aside_evolves aside_clear_nack aside_roomy [OF aside_clear_nack])
  qed
  have posted: "post_ok (roomy W1 X) (vals W1) n X W1 L1 (bind_run (post_nack_list pa sk l W1)
      (\<lambda>W2. nacks_loop pa y is (Some sk) syncs1 rest (clear_nack y i W2)))" for sk l
    by (rule post_ok_seq_le [OF post_nack_list_ok [OF L1(1)] tail])
  have "post_ok (roomy W1 X) (vals W1) n X W1 L1 (nacks_loop pa y (i # is) skip syncs rest W)"
    using Cons.IH [OF L1(1) m] tail [OF L1(1)] posted by (simp add: W1 Let_def split: option.split)
  then show ?case
    using post_ok_then [of "vals W" W W1 L1 L "roomy W X" "roomy W1 X"] L1 by blast
qed

lemma escape_syncing_ok:
  assumes "good W L X n"
  shows "post_ok (roomy W X) (vals W) n X W L (if b then escape_syncing pa y W else Done W)"
proof -
  let ?W = "upd_syncing y (\<lambda>t. t\<lparr>y_thread := None\<rparr>) W"
  have a: "aside W ?W" by (simp add: aside_def world_simps)
  have g: "good ?W L X n" by (rule aside_good [OF a assms])
  have "post_ok (roomy W X) (vals W) n X W L r" if "post_ok (roomy ?W X) (vals ?W) n X ?W L r" for r
    by (rule post_ok_aside [OF that]) (simp_all add: aside_evolves [OF a] aside_roomy [OF a])
  then show ?thesis
    using assms pa_ok [OF g] g
    by (simp add: escape_syncing_def Let_def post_ok_Done evolves_refl split: option.split)
qed

lemma syncing_nacks_loop_ok:
  "good W L X n \<Longrightarrow> length syncs + length (replaces W) < k \<Longrightarrow>
   post_ok (roomy W X) (vals W) n X W L (syncing_nacks_loop pa k y as_escape skip syncs W)"
proof (induction k arbitrary: W L y as_escape skip syncs)
  case (Suc k)
  let ?rest = "\<lambda>skip syncs W3. case syncs of [] \<Rightarrow> Done W3
      | (esc, next) # syncs' \<Rightarrow> syncing_nacks_loop pa k next esc skip syncs' W3"
  have rest: "post_ok (roomy W3 X) (vals W3) n X W3 L3 (?rest skip syncs W3)"
    if "good W3 L3 X n" "length syncs + length (replaces W3) \<le> k" for W3 L3 skip syncs
    using that Suc.IH [OF that(1)] by (auto simp: post_ok_Done evolves_refl split: list.split)
  let ?entries = "\<lambda>V. case y_set (syncings V y) of None \<Rightarrow> [] | Some argv \<Rightarrow> [0..<length argv]"
  have visit: "post_ok (roomy W1 X) (vals W1) n X W1 L1
      (nacks_loop pa y (?entries (forget_sync_box y W1)) skip syncs ?rest (forget_sync_box y W1))"
    if "good W1 L1 X n" "length (replaces W1) \<le> length (replaces W)" for W1 L1
  proof -
    have a: "aside W1 (forget_sync_box y W1)"
      using aside_upd_thread by (simp add: forget_sync_box_def aside_def split: option.split)
    have "length syncs + length (replaces (forget_sync_box y W1)) \<le> k"
      using that(2) Suc.prems(2) a by (simp add: aside_def)
    from nacks_loop_ok [OF rest aside_good [OF a that(1)] this] show ?thesis
      by (rule post_ok_aside) (simp_all add: aside_evolves [OF a] aside_roomy [OF a])
  qed
  show ?case
    unfolding syncing_nacks_loop.simps Let_def
    by (rule post_ok_seq_le [OF escape_syncing_ok [OF Suc.prems(1)] visit])
qed simp

lemma post_syncing_nacks_ok:
  assumes "good W L X n"
  shows "post_ok (roomy W X) (vals W) n X W L (scheme_post_syncing_nacks pa y W)"
  unfolding scheme_post_syncing_nacks_def post_syncing_nacks_def
  by (rule syncing_nacks_loop_ok [OF assms]) simp

text \<open>
  A waiter with a synchronization is picked: its result is set, the nacks of the other events are
  posted, and the post is consumed unless the event only peeks. \<open>Q\<close> is the claim about the outcome.
\<close>

lemma pick_syncing_ok:
  assumes g: "good W1 L1 (insert w X) n" and w: "w \<notin> X" and pick: "can_pick w W1"
    and y: "w_syncing (syncers W1 w) = Some y" and i: "i = syncing_i (syncers W1 w)"
    and b: "0 \<le> b" "s_first (semas W1 t) = None \<or> b < vals W1 t"
    and stop: "\<And>W5 L5. good W5 L5 X n \<Longrightarrow> (\<And>ln. subseq (L5 ln) (L1 ln)) \<Longrightarrow>
       evolves ((vals W1)(t := b)) W1 W5 \<Longrightarrow> (roomy W1 (insert w X) \<Longrightarrow> roomy W5 X) \<Longrightarrow>
       waiting W5 X \<subseteq> waiting W1 (insert w X) \<Longrightarrow> woken W5 w \<Longrightarrow> Q (Done W5)"
    and go: "\<And>W5 L5. good W5 L5 X n \<Longrightarrow> (\<And>ln. subseq (L5 ln) (L1 ln)) \<Longrightarrow>
       evolves (vals W1) W1 W5 \<Longrightarrow> (roomy W1 (insert w X) \<Longrightarrow> roomy W5 X) \<Longrightarrow>
       waiting W5 X \<subseteq> waiting W1 (insert w X) \<Longrightarrow> woken W5 w \<Longrightarrow>
       Q (did_post_sema pa k t W5)"
    and raised: "\<And>W'. \<not> roomy W1 (insert w X) \<Longrightarrow> Q (Raised W')"
  shows "Q (bind_run (scheme_post_syncing_nacks pa y (set_sync_result y i W1))
      (\<lambda>W2. let consumed = \<not> has_repost y i W2;
               W3 = (if consumed then upd_sema t (\<lambda>s. s\<lparr>s_value := s_value s - 1\<rparr>) W2 else W2);
               W4 = set_picked w (scheme_accept_sync y i W3);
               W5 = resume_if_picked w (detach w W4)
           in if consumed then Done W5 else did_post_sema pa k t W5))"
proof -
  define Wn where "Wn = set_sync_result y i W1"
  have a: "aside W1 Wn" using pick y by (simp add: Wn_def can_pick_def aside_set_sync_result)
  note nacks = post_syncing_nacks_ok [OF aside_good [OF a g], of y]
  show ?thesis
  proof (cases "scheme_post_syncing_nacks pa y Wn")
    case (Done W2)
    obtain L2 where L2: "good W2 L2 (insert w X) n" "\<And>ln. subseq (L2 ln) (L1 ln)"
      "evolves (vals Wn) Wn W2" "roomy Wn (insert w X) \<longrightarrow> roomy W2 (insert w X)"
      using nacks Done by (auto simp: post_ok_def)
    have ev2: "evolves (vals W1) W1 W2" by (rule evolves_trans [OF aside_evolves [OF a] L2(3)])
    note sub2 = waiting_mono [OF ev2, of "insert w X"]
    have v2: "s_first (semas W2 t) = None \<or> b < vals W2 t" using ev2 b by (auto simp: evolves_def)
    have room2: "roomy W2 (insert w X)" if "roomy W1 (insert w X)"
      using that L2(4) aside_roomy [OF a] by simp
    have "y_result (syncings Wn y) = Suc i"
      by (simp add: Wn_def set_sync_result_def suspend_breaks_def world_simps split: option.split)
    then have res2: "y_result (syncings W2 y) = Suc i" using L2(3) by (simp add: evolves_def)
    have role2: "same_role (syncers W1 w) (syncers W2 w)"
      "running (threads W2 (w_p (syncers W1 w))) AND MZTHREAD_USER_SUSPENDED = 0"
      using ev2 can_pick_not_suspended [OF pick] by (auto simp: evolves_def threads_ok_def)
    define W5 where "W5 W3 = resume_if_picked w (detach w (set_picked w (scheme_accept_sync y i W3)))"
      for W3
    \<comment> \<open>accepting, and taking the waiter off the line\<close>
    have settled: "good (W5 W3) L2 X n" "evolves (vals W3) W3 (W5 W3)"
      "roomy W3 (insert w X) \<Longrightarrow> roomy (W5 W3) X" "waiting (W5 W3) X = waiting W3 (insert w X)"
      if "good W3 L2 (insert w X) n" for W3
    proof -
      have acc: "aside W3 (scheme_accept_sync y i W3)" by (rule aside_accept)
      note d = settle_ok [OF aside_good [OF acc that] w, of True, simplified, folded W5_def]
      show "good (W5 W3) L2 X n" "evolves (vals W3) W3 (W5 W3)"
        "roomy W3 (insert w X) \<Longrightarrow> roomy (W5 W3) X" "waiting (W5 W3) X = waiting W3 (insert w X)"
        using d evolves_trans [OF aside_evolves [OF acc]] aside_roomy [OF acc] acc
        by (simp_all add: waiting_def aside_def)
    qed
    have wake: "woken (W5 W3) w"
      if "syncers W3 = syncers W2" "threads W3 = threads W2" "syncings W3 = syncings W2" for W3
      unfolding W5_def by (rule settle_woken)
        (use that res2 role2 y i in
          \<open>auto simp: same_role_def scheme_accept_sync_def world_simps split: option.splits\<close>)
    show ?thesis
    proof (cases "has_repost y i W2")
      case True
      have "Q (did_post_sema pa k t (W5 W2))"
        by (rule go [OF settled(1) [OF L2(1)] L2(2)])
          (use settled [OF L2(1)] room2 sub2 evolves_trans [OF ev2] wake in auto)
      then show ?thesis using Done True by (simp add: W5_def Wn_def Let_def)
    next
      case False
      define W3 where "W3 = upd_sema t (\<lambda>s. s\<lparr>s_value := s_value s - 1\<rparr>) W2"
      have "s_first (semas W2 t) = None \<or> 0 < vals W2 t" using v2 b(1) by auto
      note c = consume_ok [OF L2(1) this, folded W3_def]
      have "evolves ((vals W1)(t := b)) W1 W3"
        by (rule evolves_trans2 [OF ev2 c(2)]) (use v2 ev2 in \<open>auto simp: evolves_def\<close>)
      then have "Q (Done (W5 W3))"
        by (intro stop [OF settled(1) [OF c(1)] L2(2)])
          (use settled [OF c(1)] room2 sub2 c wake in
            \<open>auto simp: W3_def world_simps intro: evolves_trans\<close>)
      then show ?thesis using Done False by (simp add: W5_def W3_def Wn_def Let_def)
    qed
  qed (use nacks raised aside_roomy [OF a] in \<open>simp_all add: post_ok_def Wn_def\<close>)
qed

text \<open>
  The loop of \<open>did_post_sema\<close>. It is entered with the value of the semaphore already incremented,
  so above \<open>b\<close>, and takes at least one waiter off a line that is not empty.
\<close>

lemma did_post_ok:
  assumes "good W L X (Suc n)" and "card (waiting W X) < k"
    and "s_first (semas W t) = None \<or> b < vals W t" and "0 \<le> b"
  shows "post_ok (room_for t W L X) ((vals W)(t := b))
           (if L (Sema_Line t) = [] then Suc (card (waiting W X)) else card (waiting W X)) X W L
           (did_post_sema pa k t W)"
  using assms
proof (induction k arbitrary: W L)
  case 0
  then show ?case by simp
next
  case (Suc k)
  let ?b = "(vals W)(t := b)"
  have first: "s_first (semas W t) = hd_ptr (L (Sema_Line t)) None"
    using Suc.prems(1) lines_sema_first [of W L X t] by (simp add: good_def)
  show ?case
  proof (cases "L (Sema_Line t)")
    case Nil
    then have eq: "did_post_sema pa (Suc k) t W = Done W" using first by simp
    have "evolves ?b W W"
      by (rule evolves_weaken [OF evolves_refl]) (use first Nil in auto)
    moreover have "good W L X (Suc (card (waiting W X)))" using Suc.prems(1) by (simp add: good_def)
    ultimately show ?thesis unfolding eq if_P [OF Nil] using Nil by (blast intro: post_ok_Done)
  next
    case (Cons w ws)
    have b: "b < vals W t" using Suc.prems(3) first Cons by simp
    define W1 where "W1 = pop_line t w W"
    define L1 where "L1 = L(Sema_Line t := ws)"
    note pop = pop_ok [OF Suc.prems(1) Cons, folded W1_def L1_def]
    let ?Q = "post_ok (room_for t W L X) ?b (card (waiting W X)) X W L"
    have less: "card (waiting W5 X) < card (waiting W X)"
      if "waiting W5 X \<subseteq> waiting W1 (insert w X)" for W5
      using card_mono [OF _ that] pop(1,6) by (fastforce simp: good_def)
    have sub: "subseq (L5 ln) (L ln)" if "\<And>ln. subseq (L5 ln) (L1 ln)" for L5 ln
      using that pop(5) by (meson subseq_order.order_trans)
    \<comment> \<open>from a store with one waiter less the loop stops or goes on\<close>
    have stop: "?Q (Done W5)"
      if "good W5 L5 X n" "\<And>ln. subseq (L5 ln) (L1 ln)" "evolves ((vals W1)(t := b)) W1 W5"
        "roomy W1 (insert w X) \<Longrightarrow> roomy W5 X" "waiting W5 X \<subseteq> waiting W1 (insert w X)" for W5 L5
      by (rule post_ok_Done [of _ L5])
        (use that less sub pop(3) evolves_trans2 [OF pop(2) that(3), of ?b]
          in \<open>auto simp: good_def W1_def world_simps\<close>)
    have go: "?Q (did_post_sema pa k t W5)"
      if "good W5 L5 X n" "\<And>ln. subseq (L5 ln) (L1 ln)" "evolves (vals W1) W1 W5"
        "roomy W1 (insert w X) \<Longrightarrow> roomy W5 X" "waiting W5 X \<subseteq> waiting W1 (insert w X)" for W5 L5
    proof -
      have ev: "evolves (vals W) W W5" by (rule evolves_trans [OF pop(2) that(3)])
      have b5: "s_first (semas W5 t) = None \<or> b < vals W5 t" using ev b by (auto simp: evolves_def)
      have "post_ok (room_for t W5 L5 X) ((vals W5)(t := b))
          (if L5 (Sema_Line t) = [] then Suc (card (waiting W5 X)) else card (waiting W5 X))
          X W5 L5 (did_post_sema pa k t W5)"
        by (rule Suc.IH [OF good_mono [OF that(1)] _ b5 Suc.prems(4)])
          (use less [OF that(5)] Suc.prems(2) in auto)
      moreover have "room_for t W L X \<Longrightarrow> room_for t W5 L5 X"
        using that(4) pop(3) by (force simp: roomy_def roomy1_def)
      moreover have "s_first (semas W5 s) = None \<or> ?b s \<le> ((vals W5)(t := b)) s" for s
        using ev by (auto simp: evolves_def)
      ultimately show ?thesis
        using sub [OF that(2)] less [OF that(5)]
        by (intro post_ok_then2 [OF ev, where L' = L5]) (auto split: if_splits)
    qed
    show ?thesis
    proof (cases "can_pick w W1")
      case False
      note d = settle_ok [OF pop(1,4), of False, simplified]
      have "?Q (did_post_sema pa k t (resume_if_picked w (detach w W1)))"
        by (rule go [OF d(1)]) (use d in auto)
      then show ?thesis using first Cons False by (simp add: W1_def [symmetric] fun_upd_def)
    next
      case True
      note d = settle_ok [OF pop(1,4), of True, simplified]
      have b1: "s_first (semas W1 t) = None \<or> b < vals W1 t" using b by (simp add: W1_def world_simps)
      have "?Q (Done (resume_if_picked w (detach w (set_picked w W1))))"
        by (rule stop [OF d(1) _ evolves_weaken [OF d(2)]])
          (use d(3,4) b in \<open>auto simp: W1_def world_simps\<close>)
      moreover have "?Q (bind_run (scheme_post_syncing_nacks pa y (set_sync_result y i W1))
          (\<lambda>W2. let consumed = \<not> has_repost y i W2;
               W3 = (if consumed then upd_sema t (\<lambda>s. s\<lparr>s_value := s_value s - 1\<rparr>) W2 else W2);
               W4 = set_picked w (scheme_accept_sync y i W3);
               W5 = resume_if_picked w (detach w W4)
           in if consumed then Done W5 else did_post_sema pa k t W5))"
        if "w_syncing (syncers W1 w) = Some y" "i = syncing_i (syncers W1 w)" for y i
        by (rule pick_syncing_ok [OF pop(1,4) True that Suc.prems(4) b1 stop go])
          (use pop(3) in \<open>auto simp: post_ok_def\<close>)
      ultimately show ?thesis
        using first Cons True by (simp add: W1_def [symmetric] fun_upd_def Let_def split: option.split)
    qed
  qed
qed

text \<open>The loop wakes the first waiter of the line that can be picked.\<close>

lemma did_post_wakes:
  assumes "good W L X (Suc n)" and "card (waiting W X) < k" and "0 \<le> b" and "b < vals W t"
    and "L (Sema_Line t) = as @ w # bs" and "\<forall>a\<in>set as. \<not> can_pick a W" and "can_pick w W"
    and "did_post_sema pa k t W = Done W'"
  shows "woken W' w"
  using assms
proof (induction as arbitrary: W L k)
  case (Cons a as)
  obtain k' where k: "k = Suc k'" using Cons.prems(2) by (cases k) auto
  have ok: "lines W L X" using Cons.prems(1) by (simp add: good_def)
  have hd: "L (Sema_Line t) = a # (as @ w # bs)" using Cons.prems(5) by simp
  define W1 where "W1 = pop_line t a W"
  note pop = pop_ok [OF Cons.prems(1) hd, folded W1_def]
  define W5 where "W5 = resume_if_picked a (detach a W1)"
  note d = settle_ok [OF pop(1,4), of False, simplified, folded W5_def]
  have "\<not> picked (syncers W a)" using linesD(3) [OF ok, of a t] hd by simp
  then have W5: "W5 = detach a W1"
    by (simp add: W5_def W1_def resume_if_picked_def detach_def world_simps syncers_pop_line)
  have same: "can_pick x W1 = can_pick x W" "can_pick x W5 = can_pick x W" for x
    unfolding W5 W1_def by (rule can_pick_cong;
      simp add: detach_def syncers_pop_line world_simps)+
  have "did_post_sema pa k t W = did_post_sema pa k' t W5"
    using lines_sema_first [OF ok, of t] hd Cons.prems(6) same
    by (simp add: k W5_def W1_def [symmetric])
  moreover have "card (waiting W5 X) < k'" using d(4) pop(6) Cons.prems(2) k by simp
  moreover have "vals W5 t = vals W t" by (simp add: W5 W1_def detach_def world_simps)
  ultimately show ?case
    using Cons.IH [OF good_mono [OF d(1)], of k'] Cons.prems same by simp
next
  case Nil
  obtain k' where k: "k = Suc k'" using Nil.prems(2) by (cases k) auto
  have hd: "L (Sema_Line t) = w # bs" using Nil.prems(5) by simp
  define W1 where "W1 = pop_line t w W"
  note pop = pop_ok [OF Nil.prems(1) hd, folded W1_def]
  have pick: "can_pick w W1"
    unfolding W1_def by (rule can_pick_cong [THEN iffD2, OF _ _ _ _ _ _ _ _ Nil.prems(7)];
      simp add: syncers_pop_line world_simps)
  have first: "s_first (semas W t) = Some w"
    using Nil.prems(1) lines_sema_first [of W L X t] hd by (simp add: good_def)
  have b1: "s_first (semas W1 t) = None \<or> b < vals W1 t"
    using Nil.prems(4) by (simp add: W1_def world_simps)
  show ?case
  proof (cases "w_syncing (syncers W1 w)")
    case None
    then have "W' = resume_if_picked w (detach w (set_picked w W1))"
      using Nil.prems(8) first pick by (simp add: k W1_def [symmetric])
    then show ?thesis
      using settle_woken [of W1 w] can_pick_not_suspended [OF pick] None by simp
  next
    case (Some y)
    let ?Q = "\<lambda>r. r = Done W' \<longrightarrow> woken W' w"
    have go: "?Q (did_post_sema pa k' t W5)"
      if "good W5 L5 X n" "evolves (vals W1) W1 W5" "waiting W5 X \<subseteq> waiting W1 (insert w X)"
        "woken W5 w" for W5 L5
    proof -
      have "s_first (semas W5 t) = None \<or> b < vals W5 t"
        using that(2) b1 by (auto simp: evolves_def)
      moreover have "card (waiting W5 X) < k'"
        using card_mono [OF _ that(3)] pop(1,6) Nil.prems(2) k by (fastforce simp: good_def)
      ultimately have "\<exists>P m c. post_ok P c m X W5 L5 (did_post_sema pa k' t W5)"
        using did_post_ok [OF good_mono [OF that(1)], of k' t b] Nil.prems(3) by auto
      then show ?thesis using woken_evolves [OF _ that(4)] by (auto simp: post_ok_def)
    qed
    have "?Q (did_post_sema pa k t W)"
      unfolding k did_post_sema.simps first option.case W1_def [symmetric] Let_def [of W1]
        if_P [OF pick] Some Let_def [of "syncing_i _"]
      by (rule pick_syncing_ok [OF pop(1,4) pick Some refl Nil.prems(3) b1]) (use go in auto)
    then show ?thesis using Nil.prems(8) by blast
  qed
qed

lemma post_sema_ok:
  assumes g: "good W L X (Suc n)" and line: "L (Sema_Line t) \<noteq> []"
  shows "post_ok (roomy W X) (vals W) (card (waiting W X)) X W L (post_sema pa (Suc n) t W)"
proof -
  let ?v = "s_value (semas W t)"
  have ok: "lines W L X" and card: "card (waiting W X) < Suc n" and fin: "finite (waiting W X)"
    using g by (auto simp: good_def)
  have first: "s_first (semas W t) \<noteq> None" using lines_sema_first [OF ok, of t] line by simp
  have v: "0 \<le> sint ?v" using g first by (auto simp: good_def closed_empty_def not_less [symmetric])
  have "waiting W X \<noteq> {}"
    using line linesD(2) [OF ok, of "hd (L (Sema_Line t))" "Sema_Line t"] by (auto simp: waiting_def)
  then have pos: "0 < card (waiting W X)" using fin by (simp add: card_gt_0_iff)
  show ?thesis
  proof (cases "sint ?v < 2 ^ 31 - 1")
    case False
    then have "\<not> ?v <s next_value ?v" using v by (simp add: next_value_less)
    moreover have "\<not> roomy W X" using False first pos by (force simp: roomy_def)
    ultimately show ?thesis using v by (simp add: post_sema_def word_sless_alt post_ok_def Let_def)
  next
    case True
    define W1 where "W1 = upd_sema t (\<lambda>s. s\<lparr>s_value := next_value ?v\<rparr>) W"
    have nv: "sint (next_value ?v) = sint ?v + 1" using v True by (rule next_value_small)
    then have eq: "post_sema pa (Suc n) t W = did_post_sema pa (Suc n) t W1"
      using v first
      by (simp add: post_sema_def word_sless_alt W1_def Let_def world_simps del: did_post_sema.simps)
    have "s_first (semas W t) = None \<or> 0 \<le> sint (next_value ?v)" using nv v by simp
    note s = set_value_ok [OF g this, folded W1_def]
    have post: "post_ok (room_for t W1 L X) ((vals W1)(t := sint ?v)) (card (waiting W X)) X W1 L
        (did_post_sema pa (Suc n) t W1)"
      using did_post_ok [OF s(1), of "Suc n" t "sint ?v"] card nv v line by (simp add: s(3,5))
    have ev: "evolves (vals W) W W1" by (rule evolves_weaken [OF s(2)]) (use nv in auto)
    have room: "room_for t W1 L X" if "roomy W X"
      using that nv line by (force simp: roomy_def roomy1_def s(3,4,5))
    have bound: "s_first (semas W1 x) = None \<or> vals W x \<le> ((vals W1)(t := sint ?v)) x" for x
      by (simp add: s(4,5))
    show ?thesis
      unfolding eq by (rule post_ok_then2 [OF ev _ room order_refl bound post]) simp_all
  qed
qed

lemma post_all_loop_ok:
  "good W L X (Suc n) \<Longrightarrow> card (waiting W X) < j \<Longrightarrow>
   post_ok (roomy W X) (vals W) (Suc (card (waiting W X))) X W L (post_all_loop pa (Suc n) j t W)"
proof (induction j arbitrary: W L)
  case (Suc j)
  have first: "s_first (semas W t) = hd_ptr (L (Sema_Line t)) None"
    using Suc.prems(1) lines_sema_first [of W L X t] by (simp add: good_def)
  show ?case
  proof (cases "L (Sema_Line t) = []")
    case True
    define W1 where "W1 = upd_sema t (\<lambda>s. s\<lparr>s_value := - 1\<rparr>) W"
    have none: "s_first (semas W t) = None" using first True by simp
    have "good W L X (Suc (card (waiting W X)))" using Suc.prems(1) by (simp add: good_def)
    note s = set_value_ok [OF this disjI1 [OF none], of "- 1", folded W1_def]
    have "evolves (vals W) W W1" by (rule evolves_weaken [OF s(2)]) (use none s(4) in auto)
    moreover have "roomy W1 X" if "roomy W X"
      by (rule roomy_mono [OF that]) (use none in \<open>auto simp: s(3,4,5)\<close>)
    moreover note s(1)
    moreover have "post_all_loop pa (Suc n) (Suc j) t W = Done W1"
      using first True by (simp add: W1_def)
    ultimately show ?thesis using post_ok_Done [of W1 L] by (simp only: subseq_order.order_refl)
  next
    case False
    have "post_ok (roomy W X) (vals W) (Suc (card (waiting W X))) X W L
        (bind_run (post_sema pa (Suc n) t W) (post_all_loop pa (Suc n) j t))"
    proof (rule post_ok_bind [OF post_sema_ok [OF Suc.prems(1) False]])
      fix W' L'
      assume g': "good W' L' X (card (waiting W X))" and ev: "evolves (vals W) W W'"
        and sub: "\<And>ln. subseq (L' ln) (L ln)" and room: "roomy W X \<Longrightarrow> roomy W' X"
      have "card (waiting W X) \<le> Suc n" using Suc.prems(1) by (auto simp: good_def)
      note ih = Suc.IH [OF good_mono [OF g' this]]
      have "post_ok (roomy W' X) (vals W') (Suc (card (waiting W' X))) X W' L'
          (post_all_loop pa (Suc n) j t W')"
        by (rule ih) (use g' Suc.prems(2) in \<open>auto simp: good_def\<close>)
      then have "post_ok (roomy W X) (vals W) (Suc (card (waiting W' X))) X W L
          (post_all_loop pa (Suc n) j t W')"
        using post_ok_then [of "vals W" W W' L' L "roomy W X" "roomy W' X"] ev sub room by blast
      then show "post_ok (roomy W X) (vals W) (Suc (card (waiting W X))) X W L
          (post_all_loop pa (Suc n) j t W')"
        using g' by (auto simp: good_def intro: post_ok_more)
    qed
    then show ?thesis using first False by simp
  qed
qed simp

end

text \<open>Closing the recursion: a call with more fuel than there are waiters keeps the contract.\<close>

lemma nested_post_scheme_post_sema_all: "nested_post (scheme_post_sema_all n) n"
proof (induction n)
  case 0
  show ?case by unfold_locales (simp add: good_def)
next
  case (Suc n)
  show ?case
  proof
    fix W L X t
    assume g: "good W L X (Suc n)"
    have "post_ok (roomy W X) (vals W) (Suc (card (waiting W X))) X W L
        (scheme_post_sema_all (Suc n) t W)"
      using nested_post.post_all_loop_ok [OF Suc.IH g, of "Suc n"] g by (simp add: good_def)
    then show "post_ok (roomy W X) (vals W) (Suc n) X W L (scheme_post_sema_all (Suc n) t W)"
      by (rule post_ok_more) (use g in \<open>simp add: good_def\<close>)
  qed
qed

interpretation posts: nested_post "scheme_post_sema_all n" n for n
  by (rule nested_post_scheme_post_sema_all)

text \<open>What a post does, for stores in which no post is in progress.\<close>

lemma scheme_post_sema_wakes:
  assumes g: "good W L {} (Suc n)" and line: "L (Sema_Line t) = as @ w # bs"
    and skip: "\<forall>a\<in>set as. \<not> can_pick a W" and pick: "can_pick w W"
    and "scheme_post_sema n t W = Done W'"
  shows "woken W' w"
proof -
  let ?v = "s_value (semas W t)"
  have ok: "lines W L {}" and card: "card (waiting W {}) < Suc n" using g by (auto simp: good_def)
  have first: "s_first (semas W t) \<noteq> None"
    using lines_sema_first [OF ok, of t] line by (cases as) simp_all
  then have v: "0 \<le> sint ?v" using g by (auto simp: good_def closed_empty_def not_less [symmetric])
  define W1 where "W1 = upd_sema t (\<lambda>s. s\<lparr>s_value := next_value ?v\<rparr>) W"
  have less: "?v <s next_value ?v" and "did_post_sema (scheme_post_sema_all n) (Suc n) t W1 = Done W'"
    using assms(5) v first
    by (auto simp: scheme_post_sema_def post_sema_def Let_def W1_def world_simps word_sless_alt
        simp del: did_post_sema.simps split: if_splits)
  moreover have nv: "sint (next_value ?v) = sint ?v + 1"
    using less v next_value_less [OF v] next_value_small [OF v] by simp
  have "s_first (semas W t) = None \<or> 0 \<le> sint (next_value ?v)" using nv v by simp
  note s = set_value_ok [OF g this, folded W1_def]
  have "can_pick x W1 = can_pick x W" for x
    unfolding W1_def by (rule can_pick_cong; simp add: world_simps)
  ultimately show ?thesis
    using posts.did_post_wakes [OF s(1), of "Suc n" "sint ?v" t as w bs W'] s(3,5) nv v card line skip
      pick by simp
qed

end
