(* ===== verification/Wait.thy ===== *)
theory Wait
  imports SyncPosts
begin

text \<open>
  Waiting for one semaphore: \<open>scheme_wait_semas_chs\<close> as \<open>scheme_wait_sema\<close> calls it, with a single
  semaphore and no synchronization of the caller.

  The C function suspends its thread in the middle of a loop. The model cuts it at the points where
  other threads can run, and a value of \<open>wait_point\<close> says where a thread is, with the values of its
  local variables: suspended in line, in \<open>scheme_thread_block\<close> after having left the line, in
  \<open>scheme_thread_block\<close> in order to die, returned, or left by an exception. A thread that wakes up and finds that another
  thread took the post it was woken for allocates a \<open>Syncing\<close>: from then on a post is consumed on its
  behalf and cannot be stolen.
\<close>

record wait_frame =
  f_sema :: addr
  f_w :: addr
  f_syncing :: "addr option"
  f_main :: bool
  f_old_nkc :: bool

datatype wait_point =
  In_Line wait_frame | At_Block wait_frame | Dying | Returned int | Escaped

definition init_syncer :: "addr \<Rightarrow> addr \<Rightarrow> Scheme_Channel_Syncer" where
  "init_syncer p s =
     \<lparr>w_p = p, in_line = False, picked = False, w_prev = None, w_next = None, w_syncing = None,
      w_obj = Sema s, syncing_i = 0\<rparr>"

definition init_syncing :: Syncing where
  "init_syncing =
     \<lparr>y_set = None, y_result = 0, wrapss = [], nackss = None, reposts = None, accepts = None,
      disable_break = None, y_thread = None\<rparr>"

text \<open>\<open>if (sema->value > 0) --sema->value\<close>\<close>

definition take_value :: "addr \<Rightarrow> world \<Rightarrow> world" where
  "take_value s W =
     (if 0 <s s_value (semas W s) then upd_sema s (\<lambda>t. t\<lparr>s_value := s_value t - 1\<rparr>) W else W)"

definition leave_if_in_line :: "addr \<Rightarrow> addr \<Rightarrow> world \<Rightarrow> world" where
  "leave_if_in_line s w W = (if in_line (syncers W w) then get_outof_line (Sema s) w W else W)"

text \<open>
  The head of the loop: get into line and suspend. The main thread, which is never suspended, is
  marked against breaks instead; any other thread is marked as needing to clean up when killed.
\<close>

definition wait_suspend :: "addr \<Rightarrow> addr \<Rightarrow> addr option \<Rightarrow> world \<Rightarrow> wait_point \<times> world" where
  "wait_suspend s w y W =
     (let W1 = (if in_line (syncers W w) then W else get_into_line (Sema s) w W);
          p = current_thread W1
      in if thread_next (run_queue W1) p = None
         then (In_Line \<lparr>f_sema = s, f_w = w, f_syncing = y, f_main = True, f_old_nkc = False\<rparr>,
               upd_thread p (\<lambda>t. t\<lparr>suspend_break := suspend_break t + 1\<rparr>) W1)
         else let old_nkc = (running (threads W1 p) AND MZTHREAD_NEED_KILL_CLEANUP \<noteq> 0);
                  W2 = (if old_nkc then W1
                        else upd_thread p
                               (\<lambda>t. t\<lparr>running := running t + MZTHREAD_NEED_KILL_CLEANUP\<rparr>) W1)
              in (In_Line \<lparr>f_sema = s, f_w = w, f_syncing = y, f_main = False, f_old_nkc = old_nkc\<rparr>,
                  scheme_weak_suspend_thread p W2))"

text \<open>The initial poll, and entering the line if it fails.\<close>

definition wait_start :: "addr \<Rightarrow> world \<Rightarrow> wait_point \<times> world" where
  "wait_start s W =
     (if s_value (semas W s) \<noteq> 0 then (Returned 1, take_value s W)
      else wait_suspend s (fresh W) None
             (W\<lparr>syncers := (syncers W)(fresh W := init_syncer (current_thread W) s),
                fresh := fresh W + 1\<rparr>))"

text \<open>The end of the loop: poll again, and go into fair mode if somebody else took the post.\<close>

definition wait_poll :: "wait_frame \<Rightarrow> world \<Rightarrow> wait_point \<times> world" where
  "wait_poll fr W =
     (let s = f_sema fr; w = f_w fr
      in if s_value (semas W s) \<noteq> 0 then
           (let W1 = (case f_syncing fr of
                        None \<Rightarrow> take_value s W
                      | Some y \<Rightarrow> scheme_accept_sync y 0
                          (upd_syncing y (\<lambda>t. t\<lparr>y_result := 1\<rparr>)
                            (if has_repost y 0 W then W else take_value s W)))
            in (Returned 1, leave_if_in_line s w W1))
         else case f_syncing fr of
                Some y \<Rightarrow> wait_suspend s w (Some y) W
              | None \<Rightarrow>
                  (let y = fresh W;
                       W1 = W\<lparr>syncings := (syncings W)(y := init_syncing), fresh := y + 1\<rparr>;
                       W2 = upd_syncer w (\<lambda>t. t\<lparr>w_syncing := Some y\<rparr>) (leave_if_in_line s w W1)
                   in wait_suspend s w (Some y) W2))"

text \<open>What follows a return from \<open>scheme_thread_block\<close>.\<close>

definition after_block :: "world \<Rightarrow> world" where
  "after_block W = upd_thread (current_thread W) (\<lambda>t. t\<lparr>ran_some := True\<rparr>) W"

text \<open>After the suspension.\<close>

definition wait_restore :: "wait_frame \<Rightarrow> world \<Rightarrow> world" where
  "wait_restore fr W =
     (let p = current_thread W
      in if f_main fr then upd_thread p (\<lambda>t. t\<lparr>suspend_break := suspend_break t - 1\<rparr>) W
         else if \<not> f_old_nkc fr \<and> running (threads W p) AND MZTHREAD_NEED_KILL_CLEANUP \<noteq> 0
         then upd_thread p (\<lambda>t. t\<lparr>running := running t - MZTHREAD_NEED_KILL_CLEANUP\<rparr>) W
         else W)"

text \<open>
  Was it for the semaphore? \<open>Some i\<close> if the thread was taken out of its line, with the index \<open>i\<close> of
  the semaphore it got, or 1 (the number of semaphores) if the post is gone.
\<close>

definition wait_got :: "wait_frame \<Rightarrow> world \<Rightarrow> int option \<times> world" where
  "wait_got fr W =
     (case f_syncing fr of
        None \<Rightarrow>
          (if picked (syncers W (f_w fr)) then
             (if s_value (semas W (f_sema fr)) \<noteq> 0 then (Some 0, take_value (f_sema fr) W)
              else (Some 1, W))
           else (None, W))
      | Some y \<Rightarrow>
          (if y_result (syncings W y) \<noteq> 0 then (Some (int (y_result (syncings W y)) - 1), W)
           else (None, W)))"

definition killed_or_suspended :: "Scheme_Thread \<Rightarrow> bool" where
  "killed_or_suspended t \<longleftrightarrow>
     running t AND MZTHREAD_KILLED \<noteq> 0 \<or>
     running t AND MZTHREAD_USER_SUSPENDED \<noteq> 0 \<and> running t AND MZTHREAD_NEED_SUSPEND_CLEANUP = 0"

text \<open>A post for another semaphore than the accepted one is consumed and posted again.\<close>

definition wait_repost :: "nat \<Rightarrow> wait_frame \<Rightarrow> int \<Rightarrow> world \<Rightarrow> world run" where
  "wait_repost n fr i W =
     (if f_syncing fr = None \<and> i \<noteq> 0 \<and> picked (syncers W (f_w fr)) \<and>
         s_value (semas W (f_sema fr)) \<noteq> 0
      then scheme_post_sema n (f_sema fr) (take_value (f_sema fr) W)
      else Done W)"

fun after_repost :: "(world \<Rightarrow> wait_point \<times> world) \<Rightarrow> world run \<Rightarrow> (wait_point \<times> world) run" where
  "after_repost f (Done W) = Done (f W)"
| "after_repost f (Raised W) = Raised (Escaped, W)"
| "after_repost f Diverged = Diverged"
| "after_repost f Undefined = Undefined"

definition wait_resumed :: "nat \<Rightarrow> wait_frame \<Rightarrow> world \<Rightarrow> (wait_point \<times> world) run" where
  "wait_resumed n fr W =
     (let (got, W1) = wait_got fr (wait_restore fr W)
      in case got of
           None \<Rightarrow> Done (At_Block fr, leave_if_in_line (f_sema fr) (f_w fr) W1)
         | Some i \<Rightarrow>
             (let i' = (if killed_or_suspended (threads W1 (current_thread W1)) then - 1 else i)
              in after_repost
                   (\<lambda>W2. if i' < 1
                         then (if i' = - 1 then Dying else Returned (i' + 1),
                               leave_if_in_line (f_sema fr) (f_w fr) W2)
                         else wait_poll fr W2)
                   (wait_repost n fr i' W1)))"

end
