(* ===== verification/SyncSystem.thy ===== *)
theory SyncSystem
  imports Wait
begin

text \<open>
  Threads that wait for and post semaphores, in any interleaving. The step relation runs one segment
  of one thread between two suspension points; the environment may change the state of threads and
  the run queue in any way (kills, breaks, user suspension, scheduling) between two steps. The
  invariant of the reachable states says that no wake-up is lost.
\<close>

section \<open>A post to waiters without event sets\<close>

definition plain :: "world \<Rightarrow> bool" where
  "plain W \<longleftrightarrow>
     (\<forall>y. y_set (syncings W y) = None \<and> y_thread (syncings W y) = None \<and>
        reposts (syncings W y) = None \<and> accepts (syncings W y) = None \<and>
        disable_break (syncings W y) = None)"

text \<open>
  The effect of a post: waiters that cannot be picked leave the line, and the first one that can be
  is picked, which consumes the post only if the waiter is in fair mode.
\<close>

definition post_effect :: "addr \<Rightarrow> world \<Rightarrow> (line \<Rightarrow> addr list) \<Rightarrow> world \<Rightarrow> (line \<Rightarrow> addr list) \<Rightarrow> bool" where
  "post_effect t W L W' L' \<longleftrightarrow>
     lines W' L' {} \<and> plain W' \<and> fresh W' = fresh W \<and>
     (\<forall>x. same_role (syncers W x) (syncers W' x) \<and>
        (in_line (syncers W' x) \<longrightarrow> in_line (syncers W x))) \<and>
     (\<forall>x. x \<noteq> t \<longrightarrow> s_value (semas W' x) = s_value (semas W x)) \<and>
     (\<forall>ln. set (L' ln) \<subseteq> set (L ln)) \<and>
     (L' (Sema_Line t) = [] \<and> s_value (semas W' t) = s_value (semas W t) \<and>
        (\<forall>x. picked (syncers W' x) = picked (syncers W x)) \<or>
      (\<exists>w \<in> set (L (Sema_Line t)).
        (\<forall>x. picked (syncers W' x) \<longleftrightarrow> picked (syncers W x) \<or> x = w) \<and>
        s_value (semas W' t) =
          (if w_syncing (syncers W w) = None then s_value (semas W t) else s_value (semas W t) - 1)))"

lemma resume_if_picked_simps [world_simps]:
  "syncers (resume_if_picked w W) = syncers W" "semas (resume_if_picked w W) = semas W"
  "channels (resume_if_picked w W) = channels W"
  "channel_puts (resume_if_picked w W) = channel_puts W"
  "syncings (resume_if_picked w W) = syncings W" "fresh (resume_if_picked w W) = fresh W"
  by (simp_all add: resume_if_picked_def scheme_weak_resume_thread_def world_simps)

lemma lines_settle:
  fixes b :: bool
  assumes "lines W L (insert w X)" and "w \<notin> X"
  shows "lines (resume_if_picked w (detach w (if b then set_picked w W else W))) L X"
  by (rule aside_lines [OF aside_resume_if_picked lines_detach [OF assms]])

lemma nacks_plain: "plain W \<Longrightarrow> scheme_post_syncing_nacks pa y W = Done W"
  by (simp add: scheme_post_syncing_nacks_def post_syncing_nacks_def forget_sync_box_def plain_def)

lemma set_sync_result_plain:
  "plain W \<Longrightarrow> set_sync_result y i W = upd_syncing y (\<lambda>t. t\<lparr>y_result := i + 1\<rparr>) W"
  by (simp add: set_sync_result_def suspend_breaks_def plain_def)

lemma settle_fields:
  fixes b :: bool and w :: addr
  defines "W' \<equiv> \<lambda>W. resume_if_picked w (detach w (if b then set_picked w W else W))"
  shows "syncings (W' W) = syncings W" "fresh (W' W) = fresh W" "semas (W' W) = semas W"
    "same_role (syncers W x) (syncers (W' W) x) \<and>
       (in_line (syncers (W' W) x) \<longrightarrow> in_line (syncers W x))"
    "picked (syncers (W' W) x) \<longleftrightarrow> picked (syncers W x) \<or> x = w \<and> b"
  by (auto simp: W'_def detach_def world_simps same_role_def)

lemma post_effect_mono:
  assumes "post_effect t V K W' L'"
    and role: "\<And>x. same_role (syncers W x) (syncers V x) \<and>
          (in_line (syncers V x) \<longrightarrow> in_line (syncers W x))"
    and "\<And>x. picked (syncers V x) = picked (syncers W x)"
    and "\<And>x. s_value (semas V x) = s_value (semas W x)" and "fresh V = fresh W"
    and "\<And>ln. set (K ln) \<subseteq> set (L ln)"
  shows "post_effect t W L W' L'"
proof -
  have "w_syncing (syncers V x) = w_syncing (syncers W x)" for x
    using role [of x] by (simp add: same_role_def)
  moreover have "same_role (syncers W x) (syncers W' x) \<and>
      (in_line (syncers W' x) \<longrightarrow> in_line (syncers W x))" for x
    using assms(1) same_role_trans role by (simp add: post_effect_def) blast
  ultimately show ?thesis
    using assms(1,6) unfolding post_effect_def assms(3-5) by (smt (verit) subset_iff)
qed

lemma pop_fields:
  "same_role (syncers W x) (syncers (pop_line t w W) x)"
  "picked (syncers (pop_line t w W) x) = picked (syncers W x)"
  "in_line (syncers (pop_line t w W) x) = in_line (syncers W x)"
  by (simp_all add: syncers_pop_line same_role_def)

lemma did_post_plain:
  assumes "lines W L {}" and "plain W" and "did_post_sema pa k t W = Done W'"
  shows "\<exists>L'. post_effect t W L W' L'"
  using assms
proof (induction k arbitrary: W L)
  case (Suc k)
  note ok = Suc.prems(1)
  have first: "s_first (semas W t) = hd_ptr (L (Sema_Line t)) None" by (rule lines_sema_first [OF ok])
  show ?case
  proof (cases "L (Sema_Line t)")
    case Nil
    then have "W' = W" using Suc.prems(3) first by simp
    then show ?thesis using Suc.prems Nil by (intro exI [of _ L]) (simp add: post_effect_def)
  next
    case (Cons w ws)
    define W1 where "W1 = pop_line t w W"
    define L1 where "L1 = L(Sema_Line t := ws)"
    have ok1: "lines W1 L1 {w}" unfolding W1_def L1_def by (rule lines_pop_line [OF ok Cons])
    have plain1: "plain W1" using Suc.prems(2) by (simp add: plain_def W1_def world_simps)
    have val1: "s_value (semas W1 x) = s_value (semas W x)" for x by (simp add: W1_def world_simps)
    have role1: "same_role (syncers W x) (syncers W1 x)"
      "picked (syncers W1 x) = picked (syncers W x)"
      "in_line (syncers W1 x) = in_line (syncers W x)" for x
      by (simp_all add: W1_def pop_fields)
    have sub: "set (L1 ln) \<subseteq> set (L ln)" for ln by (auto simp: L1_def Cons)
    show ?thesis
    proof (cases "can_pick w W1")
      case False
      define W5 where "W5 = resume_if_picked w (detach w W1)"
      note f = settle_fields [where w = w and b = False and W = W1, simplified, folded W5_def]
      have ok5: "lines W5 L1 {}" using lines_settle [OF ok1, of False] by (simp add: W5_def)
      have plain5: "plain W5" using plain1 by (simp add: plain_def f)
      have "did_post_sema pa k t W5 = Done W'"
        using Suc.prems(3) first Cons False by (simp add: W5_def W1_def [symmetric])
      from Suc.IH [OF ok5 plain5 this] obtain L' where L': "post_effect t W5 L1 W' L'" by blast
      have "post_effect t W L W' L'"
        by (rule post_effect_mono [OF L'])
          (use same_role_trans [OF role1(1)] role1(2,3) f sub in
            \<open>simp_all add: val1\<close>, simp add: W1_def world_simps)
      then show ?thesis by blast
    next
      case True
      define V where "V = (case w_syncing (syncers W1 w) of None \<Rightarrow> W1
        | Some y \<Rightarrow> upd_sema t (\<lambda>s. s\<lparr>s_value := s_value s - 1\<rparr>)
            (upd_syncing y (\<lambda>u. u\<lparr>y_result := syncing_i (syncers W1 w) + 1\<rparr>) W1))"
      have W': "W' = resume_if_picked w (detach w (set_picked w V))"
        using Suc.prems(3) first Cons True plain1
        by (auto simp: W1_def [symmetric] V_def Let_def set_sync_result_plain nacks_plain
            has_repost_def scheme_accept_sync_def plain_def world_simps split: option.splits)
      have V: "syncers V = syncers W1" "channels V = channels W1" "channel_puts V = channel_puts W1"
        "fresh V = fresh W1" "s_first (semas V x) = s_first (semas W1 x)"
        "s_last (semas V x) = s_last (semas W1 x)"
        "s_value (semas V x) = (if x = t \<and> w_syncing (syncers W1 w) \<noteq> None
           then s_value (semas W1 x) - 1 else s_value (semas W1 x))" for x
        by (simp_all add: V_def world_simps split: option.split)
      have "line_first V ln = line_first W1 ln" "line_last V ln = line_last W1 ln" for ln
        by (cases ln; simp add: V)+
      then have okV: "lines V L1 {w}"
        using lines_frame [OF ok1, of V "{}"] by (simp add: V)
      have plainV: "plain V" using plain1 by (simp add: plain_def V_def world_simps split: option.split)
      note f = settle_fields [where w = w and b = True and W = V, simplified, folded W']
      have "lines W' L1 {}" using lines_settle [OF okV, of True] by (simp add: W')
      moreover have "plain W'" using plainV by (simp add: plain_def f)
      moreover have "w_syncing (syncers W1 w) = w_syncing (syncers W w)"
        using role1(1) [of w] by (simp add: same_role_def)
      moreover have "same_role (syncers W x) (syncers W' x) \<and>
          (in_line (syncers W' x) \<longrightarrow> in_line (syncers W x))" for x
        using same_role_trans [OF role1(1)] f(4) V(1) role1(3) by simp
      moreover have "fresh W' = fresh W" by (simp add: f V W1_def world_simps)
      ultimately have "post_effect t W L W' L1"
        using sub unfolding post_effect_def by (auto simp: f V role1(2) val1 Cons)
      then show ?thesis by blast
    qed
  qed
qed simp

lemma scheme_post_sema_plain:
  assumes ok: "lines W L {}" and "plain W" and v: "0 \<le> vals W t"
    and post: "scheme_post_sema n t W = Done W'"
  defines "V \<equiv> upd_sema t (\<lambda>s. s\<lparr>s_value := next_value (s_value (semas W t))\<rparr>) W"
  shows "\<exists>L'. post_effect t V L W' L'" and "vals V t = vals W t + 1"
proof -
  have V: "syncers V = syncers W" "channels V = channels W" "channel_puts V = channel_puts W"
    "syncings V = syncings W" "s_first (semas V x) = s_first (semas W x)"
    "s_last (semas V x) = s_last (semas W x)" for x
    by (simp_all add: V_def world_simps)
  have less: "s_value (semas W t) <s next_value (s_value (semas W t))"
    using post v by (auto simp: scheme_post_sema_def post_sema_def Let_def word_sless_alt
        split: if_splits)
  then show "vals V t = vals W t + 1"
    using next_value_less [OF v] next_value_small [OF v] by (simp add: V_def world_simps)
  have "line_first V ln = line_first W ln" "line_last V ln = line_last W ln" for ln
    by (cases ln; simp add: V)+
  then have okV: "lines V L {}" using lines_frame [OF ok, of V "{}"] by (simp add: V)
  have plainV: "plain V" using assms(2) by (simp add: plain_def V)
  show "\<exists>L'. post_effect t V L W' L'"
  proof (cases "s_first (semas V t)")
    case None
    then have "W' = V"
      using post v less by (simp add: scheme_post_sema_def post_sema_def Let_def word_sless_alt V_def)
    moreover have "L (Sema_Line t) = []" using lines_sema_first [OF okV, of t] None
      by (metis hd_ptr_None_iff)
    ultimately show ?thesis using okV plainV by (intro exI [of _ L]) (simp add: post_effect_def)
  next
    case (Some w)
    then have "did_post_sema (scheme_post_sema_all n) (Suc n) t V = Done W'"
      using post v less by (simp add: scheme_post_sema_def post_sema_def Let_def word_sless_alt
          V_def [symmetric] del: did_post_sema.simps)
    then show ?thesis by (rule did_post_plain [OF okV plainV])
  qed
qed

section \<open>The transition system\<close>

type_synonym sys = "world \<times> (addr \<Rightarrow> wait_point option)"

text \<open>
  \<open>In_Line\<close> and \<open>At_Block\<close> points are inside of the wait loop. A thread in \<open>scheme_thread_block\<close> may be
  killed or broken, and then leaves the loop.
\<close>

inductive step :: "sys \<Rightarrow> sys \<Rightarrow> bool" where
  start: "pt T = None \<Longrightarrow> wait_start s (W\<lparr>current_thread := T\<rparr>) = (q, W') \<Longrightarrow>
     step (W, pt) (W', pt(T \<mapsto> q))"
| resumed: "pt T = Some (In_Line fr) \<Longrightarrow>
     wait_resumed n fr (W\<lparr>current_thread := T\<rparr>) = Done (q, W') \<Longrightarrow> step (W, pt) (W', pt(T \<mapsto> q))"
| raised: "pt T = Some (In_Line fr) \<Longrightarrow>
     wait_resumed n fr (W\<lparr>current_thread := T\<rparr>) = Raised (q, W') \<Longrightarrow> step (W, pt) (W', pt(T \<mapsto> q))"
| polled: "pt T = Some (At_Block fr) \<Longrightarrow> wait_poll fr (after_block (W\<lparr>current_thread := T\<rparr>)) = (q, W') \<Longrightarrow>
     step (W, pt) (W', pt(T \<mapsto> q))"
| escaped: "pt T = Some (At_Block fr) \<Longrightarrow> step (W, pt) (W, pt(T \<mapsto> Escaped))"
| left: "pt T \<in> {Some Dying, Some Escaped, Some (Returned i)} \<Longrightarrow> step (W, pt) (W, pt(T := None))"
| post: "scheme_post_sema n s W = Done W' \<Longrightarrow> step (W, pt) (W', pt)"
| try_wait: "scheme_try_plain_sema s W = (b, W') \<Longrightarrow> step (W, pt) (W', pt)"
| environment: "step (W, pt)
     (W\<lparr>threads := ts, run_queue := rq, current_thread := c, all_breaks_disabled := a,
        no_stack_overflow := d\<rparr>, pt)"

inductive reachable :: "world \<Rightarrow> sys \<Rightarrow> bool" for W0 where
  init: "reachable W0 (W0, \<lambda>_. None)"
| step: "reachable W0 c \<Longrightarrow> step c c' \<Longrightarrow> reachable W0 c'"

text \<open>
  The threads that have been woken by a post of \<open>s\<close> they still have to take, and the invariant: as long
  as somebody stands in line, every unit of the value of the semaphore is matched by such a thread.
\<close>

definition pending :: "addr \<Rightarrow> sys \<Rightarrow> addr set" where
  "pending s c =
     {T. \<exists>fr. snd c T = Some (In_Line fr) \<and> f_sema fr = s \<and> f_syncing fr = None \<and>
           picked (syncers (fst c) (f_w fr))}"

definition frame_at :: "sys \<Rightarrow> addr \<Rightarrow> wait_frame \<Rightarrow> bool" where
  "frame_at c T fr \<longleftrightarrow> snd c T = Some (In_Line fr) \<or> snd c T = Some (At_Block fr)"

definition frames_ok :: "sys \<Rightarrow> bool" where
  "frames_ok c \<longleftrightarrow>
     finite (dom (snd c)) \<and>
     (\<forall>T fr. frame_at c T fr \<longrightarrow> f_w fr < fresh (fst c) \<and>
        w_obj (syncers (fst c) (f_w fr)) = Sema (f_sema fr) \<and>
        w_syncing (syncers (fst c) (f_w fr)) = f_syncing fr) \<and>
     (\<forall>T T' fr fr'. frame_at c T fr \<longrightarrow> frame_at c T' fr' \<longrightarrow> f_w fr = f_w fr' \<longrightarrow> T = T') \<and>
     (\<forall>w. in_line (syncers (fst c) w) \<longrightarrow> (\<exists>T fr. snd c T = Some (In_Line fr) \<and> f_w fr = w))"

definition sync_inv :: "sys \<Rightarrow> bool" where
  "sync_inv c \<longleftrightarrow>
     frames_ok c \<and> plain (fst c) \<and> (\<exists>L. lines (fst c) L {}) \<and>
     (\<forall>s. 0 \<le> vals (fst c) s \<and>
        (s_first (semas (fst c) s) \<noteq> None \<longrightarrow> vals (fst c) s \<le> int (card (pending s c))))"

section \<open>The invariant is kept\<close>

text \<open>Changes of threads and of the run queue do not matter.\<close>

definition same_sync :: "world \<Rightarrow> world \<Rightarrow> bool" where
  "same_sync W W' \<longleftrightarrow>
     semas W' = semas W \<and> channels W' = channels W \<and> channel_puts W' = channel_puts W \<and>
     syncers W' = syncers W \<and> syncings W' = syncings W \<and> fresh W' = fresh W"

lemma same_sync_lines: "same_sync W W' \<Longrightarrow> lines W L X \<Longrightarrow> lines W' L X"
  using lines_frame [of W L X W' "{}"] line_ends_cong [of W' W] by (simp add: same_sync_def)

lemma sync_invI:
  assumes "frames_ok (W, pt)" "plain W" "lines W L {}" "\<And>s. 0 \<le> vals W s"
    "\<And>s. s_first (semas W s) \<noteq> None \<Longrightarrow> vals W s \<le> int (card (pending s (W, pt)))"
  shows "sync_inv (W, pt)"
  using assms by (auto simp: sync_inv_def)

lemma same_sync_inv:
  assumes "same_sync W W'" and "sync_inv (W, pt)"
  shows "sync_inv (W', pt)"
proof -
  have eqs: "semas W' = semas W" "syncers W' = syncers W" "syncings W' = syncings W" "fresh W' = fresh W"
    using assms(1) by (auto simp: same_sync_def)
  obtain L where "lines W L {}" using assms(2) by (auto simp: sync_inv_def)
  then have "lines W' L {}" by (rule same_sync_lines [OF assms(1)])
  then show ?thesis
    by (rule sync_invI [rotated 2])
      (use assms(2) in \<open>simp_all add: sync_inv_def frames_ok_def frame_at_def pending_def plain_def eqs\<close>)
qed

lemma same_sync_suspend: "same_sync W (scheme_weak_suspend_thread p W)"
  by (simp add: same_sync_def scheme_weak_suspend_thread_def world_simps)

lemma same_sync_restore: "same_sync W (wait_restore fr W)"
  by (simp add: same_sync_def wait_restore_def Let_def world_simps)

lemma sync_invD:
  assumes "sync_inv (W, pt)"
  shows "frames_ok (W, pt)" "plain W" "\<exists>L. lines W L {}" "0 \<le> vals W s" "finite (pending s (W, pt))"
    "s_first (semas W s) \<noteq> None \<Longrightarrow> vals W s \<le> int (card (pending s (W, pt)))"
proof -
  show "finite (pending s (W, pt))"
    by (rule finite_subset [of _ "dom pt"]) (use assms in \<open>auto simp: pending_def sync_inv_def frames_ok_def\<close>)
qed (use assms in \<open>auto simp: sync_inv_def\<close>)

lemma frames_okD:
  assumes "frames_ok (W, pt)"
  shows "finite (dom pt)"
    and "frame_at (W, pt) T fr \<Longrightarrow> f_w fr < fresh W"
    and "frame_at (W, pt) T fr \<Longrightarrow> w_obj (syncers W (f_w fr)) = Sema (f_sema fr)"
    and "frame_at (W, pt) T fr \<Longrightarrow> w_syncing (syncers W (f_w fr)) = f_syncing fr"
    and "frame_at (W, pt) T fr \<Longrightarrow> frame_at (W, pt) T' fr' \<Longrightarrow> f_w fr = f_w fr' \<Longrightarrow> T = T'"
    and "in_line (syncers W w) \<Longrightarrow> \<exists>T fr. pt T = Some (In_Line fr) \<and> f_w fr = w"
  using assms unfolding frames_ok_def fst_conv snd_conv by blast+

text \<open>Frames that stay with their thread, as far as the invariant looks at them.\<close>

lemma frames_okI:
  assumes f: "frames_ok (W, pt)" and "finite (dom pt')" and "fresh W \<le> fresh W'"
    and role: "\<And>x. same_role (syncers W x) (syncers W' x)"
    and at: "\<And>U g. frame_at (W', pt') U g \<Longrightarrow>
      \<exists>h. frame_at (W, pt) U h \<and> f_w h = f_w g \<and> f_sema h = f_sema g \<and> f_syncing h = f_syncing g"
    and inl: "\<And>x. in_line (syncers W' x) \<Longrightarrow> \<exists>U g. pt' U = Some (In_Line g) \<and> f_w g = x"
  shows "frames_ok (W', pt')"
  unfolding frames_ok_def fst_conv snd_conv
proof (intro conjI allI impI)
  show "finite (dom pt')" by (rule assms(2))
  have roles: "w_obj (syncers W' x) = w_obj (syncers W x)"
    "w_syncing (syncers W' x) = w_syncing (syncers W x)" for x
    using role [of x] by (simp_all add: same_role_def)
  show "f_w g < fresh W'" "w_obj (syncers W' (f_w g)) = Sema (f_sema g)"
    "w_syncing (syncers W' (f_w g)) = f_syncing g" if g: "frame_at (W', pt') U g" for U g
  proof -
    obtain h where h: "frame_at (W, pt) U h" "f_w h = f_w g" "f_sema h = f_sema g"
      "f_syncing h = f_syncing g"
      using at [OF g] by blast
    show "f_w g < fresh W'" "w_obj (syncers W' (f_w g)) = Sema (f_sema g)"
      "w_syncing (syncers W' (f_w g)) = f_syncing g"
      using frames_okD(2-4) [OF f h(1)] assms(3) by (simp_all add: roles h(2-4))
  qed
  show "U = U'" if "frame_at (W', pt') U g" "frame_at (W', pt') U' g'" "f_w g = f_w g'" for U U' g g'
    using at [OF that(1)] at [OF that(2)] that(3) frames_okD(5) [OF f] by metis
qed (rule inl)

text \<open>Taking a unit of the value.\<close>

lemma take_value_fields:
  "syncers (take_value s W) = syncers W" "syncings (take_value s W) = syncings W"
  "fresh (take_value s W) = fresh W" "channels (take_value s W) = channels W"
  "channel_puts (take_value s W) = channel_puts W"
  "s_first (semas (take_value s W) x) = s_first (semas W x)"
  "s_last (semas (take_value s W) x) = s_last (semas W x)"
  "x \<noteq> s \<Longrightarrow> s_value (semas (take_value s W) x) = s_value (semas W x)"
  "0 < vals W s \<Longrightarrow> vals (take_value s W) s = vals W s - 1"
  "\<not> 0 < vals W s \<Longrightarrow> take_value s W = W"
  using sint_minus_1 [of "s_value (semas W s)"]
  by (auto simp: take_value_def world_simps word_sless_alt)

lemma take_value_lines: "lines W L X \<Longrightarrow> lines (take_value s W) L X"
proof -
  have "line_first (take_value s W) ln = line_first W ln" "line_last (take_value s W) ln = line_last W ln"
    for ln by (cases ln; simp add: take_value_fields)+
  then show "lines W L X \<Longrightarrow> lines (take_value s W) L X"
    using lines_frame [of W L X "take_value s W" "{}"] by (simp add: take_value_fields)
qed

lemma take_value_vals:
  "0 \<le> vals W s \<Longrightarrow> vals (take_value s W) x = (if x = s \<and> 0 < vals W s then vals W x - 1 else vals W x)"
  using take_value_fields(8) [of x s W] take_value_fields(9,10) [of W s] by (cases "x = s"; cases "0 < vals W s") auto

lemma inv_take:
  assumes "sync_inv (W, pt)"
  shows "sync_inv (take_value s W, pt)"
proof -
  have v: "0 \<le> vals W x" for x by (rule sync_invD(4) [OF assms])
  obtain L where "lines W L {}" using sync_invD(3) [OF assms] by blast
  then have "\<exists>L. lines (take_value s W) L {}" using take_value_lines by blast
  moreover have "0 \<le> vals (take_value s W) x \<and> vals (take_value s W) x \<le> vals W x" for x
    using v [of x] v [of s] by (simp add: take_value_vals)
  ultimately show ?thesis
    using assms
    by (simp add: sync_inv_def frames_ok_def frame_at_def plain_def pending_def take_value_fields)
      (meson order_trans)
qed

text \<open>A thread that is not woken moves from its line to \<open>scheme_thread_block\<close>, or out of the loop.\<close>

lemma inv_move:
  assumes inv: "sync_inv (W, pt)" and fr: "frame_at (W, pt) T fr"
    and nin: "\<not> in_line (syncers W (f_w fr))"
    and q: "\<And>fr'. q \<noteq> Some (In_Line fr')" "\<And>fr'. q = Some (At_Block fr') \<Longrightarrow> fr' = fr"
    and np: "\<And>s. T \<in> pending s (W, pt) \<Longrightarrow> s_first (semas W s) \<noteq> None \<Longrightarrow>
           vals W s = 0 \<or> vals W s < int (card (pending s (W, pt)))"
  shows "sync_inv (W, pt(T := q))"
proof -
  note f = sync_invD(1) [OF inv]
  have at: "frame_at (W, pt(T := q)) U g \<Longrightarrow> frame_at (W, pt) U g" for U g
    using fr q by (auto simp: frame_at_def split: if_splits)
  have "\<exists>U g. (pt(T := q)) U = Some (In_Line g) \<and> f_w g = w" if inl: "in_line (syncers W w)" for w
  proof -
    obtain U g where g: "pt U = Some (In_Line g)" "f_w g = w"
      using frames_okD(6) [OF f inl] by blast
    then have "U \<noteq> T" using fr nin inl by (auto simp: frame_at_def)
    then show ?thesis using g by (intro exI [of _ U] exI [of _ g]) simp
  qed
  moreover have "finite (dom (pt(T := q)))" using f by (simp add: frames_ok_def)
  ultimately have frames: "frames_ok (W, pt(T := q))"
    by (intro frames_okI [OF f]) (simp_all del: fun_upd_apply, use at in blast)
  have "pending s (W, pt(T := q)) = pending s (W, pt) - {T}" for s
    using q by (auto simp: pending_def)
  then have "vals W s \<le> int (card (pending s (W, pt(T := q))))" if "s_first (semas W s) \<noteq> None" for s
    using sync_invD(6) [OF inv that] np [OF _ that] sync_invD(5) [OF inv, of s]
    by (cases "T \<in> pending s (W, pt)") (auto simp: card_Diff_singleton)
  then show ?thesis
    using sync_invD(3) [OF inv] sync_invI [OF frames sync_invD(2) [OF inv]] sync_invD(4) [OF inv] by blast
qed

text \<open>A woken thread takes its unit of the value, if it is still there.\<close>

lemma inv_take_move:
  assumes inv: "sync_inv (W, pt)" and fr: "pt T = Some (In_Line fr)"
    and T: "f_syncing fr = None" "picked (syncers W (f_w fr))"
  shows "sync_inv (take_value (f_sema fr) W, pt(T \<mapsto> At_Block fr))"
proof (rule inv_move [OF inv_take [OF inv]])
  let ?s = "f_sema fr" and ?W = "take_value (f_sema fr) W"
  show "frame_at (?W, pt) T fr" using fr by (simp add: frame_at_def)
  obtain L where L: "lines W L {}" using sync_invD(3) [OF inv] by blast
  have "w_obj (syncers W (f_w fr)) = Sema ?s"
    using frames_okD(3) [OF sync_invD(1) [OF inv], of T fr] fr by (simp add: frame_at_def)
  then show "\<not> in_line (syncers ?W (f_w fr))"
    using linesD(2) [OF L, of "f_w fr" "Sema_Line ?s"] linesD(3) [OF L, of "f_w fr" ?s] T(2)
    by (auto simp: take_value_fields)
  fix s
  assume "T \<in> pending s (?W, pt)" and first: "s_first (semas ?W s) \<noteq> None"
  then have "s = ?s" using fr by (auto simp: pending_def)
  moreover have "pending s (?W, pt) = pending s (W, pt)" by (simp add: pending_def take_value_fields)
  moreover have "s_first (semas W s) \<noteq> None" using first by (simp add: take_value_fields)
  ultimately show "vals ?W s = 0 \<or> vals ?W s < int (card (pending s (?W, pt)))"
    using sync_invD(6) [OF inv, of s] sync_invD(4) [OF inv, of ?s] by (auto simp: take_value_vals)
qed simp_all

lemma inv_leave:
  assumes inv: "sync_inv (W, pt)" and fr: "pt T = Some (In_Line fr)"
  shows "sync_inv (leave_if_in_line (f_sema fr) (f_w fr) W, pt)"
    and "\<not> in_line (syncers (leave_if_in_line (f_sema fr) (f_w fr) W) (f_w fr))"
proof -
  let ?s = "f_sema fr" and ?w = "f_w fr"
  define W' where "W' = get_outof_line (Sema ?s) ?w W"
  obtain L where L: "lines W L {}" using sync_invD(3) [OF inv] by blast
  have obj: "w_obj (syncers W ?w) = Sema ?s"
    using sync_invD(1) [OF inv] fr by (auto simp: frames_ok_def frame_at_def)
  have L': "lines W' (L(Sema_Line ?s := remove1 ?w (L (Sema_Line ?s)))) {}"
    unfolding W'_def by (rule lines_get_outof_line [OF L]) (simp_all add: obj)
  have keep: "same_role (syncers W x) (syncers W' x)" "picked (syncers W' x) = picked (syncers W x)"
    "in_line (syncers W' x) \<Longrightarrow> in_line (syncers W x)"
    "s_value (semas W' x) = s_value (semas W x)" "syncings W' = syncings W" "fresh W' = fresh W" for x
    by (simp_all add: W'_def get_outof_line_keeps(1,2) world_simps)
      (auto dest: get_outof_line_keeps(3))
  have first: "s_first (semas W' x) \<noteq> None \<Longrightarrow> s_first (semas W x) \<noteq> None" for x
  proof -
    have "subseq ((L(Sema_Line ?s := remove1 ?w (L (Sema_Line ?s)))) (Sema_Line x)) (L (Sema_Line x))"
      by (simp add: subseq_remove1)
    note first = lines_first_None [OF L L' this]
    show "s_first (semas W x) \<noteq> None" if "s_first (semas W' x) \<noteq> None" using first that by auto
  qed
  have role: "w_obj (syncers W' x) = w_obj (syncers W x)"
    "w_syncing (syncers W' x) = w_syncing (syncers W x)" for x
    using keep(1) [of x] by (simp_all add: same_role_def)
  have "sync_inv (W', pt)"
    by (rule sync_invI [OF _ _ L'])
      (use sync_invD [OF inv] first keep(3) in
        \<open>auto simp: frames_ok_def frame_at_def plain_def pending_def keep role\<close>)
  then show "sync_inv (leave_if_in_line ?s ?w W, pt)"
    using inv by (simp add: leave_if_in_line_def W'_def)
  have "\<not> in_line (syncers W' ?w)"
    using linesD(2) [OF L', of ?w "Sema_Line ?s"] role obj
      linesD(1) [OF L, of "Sema_Line ?s"] by (auto simp: linked_def)
  then show "\<not> in_line (syncers (leave_if_in_line ?s ?w W) ?w)"
    by (simp add: leave_if_in_line_def W'_def)
qed

text \<open>Getting into the line of a semaphore without posts.\<close>

lemma get_into_line_keeps:
  "same_role (syncers W x) (syncers (get_into_line ev w W) x)"
  "x \<noteq> w \<Longrightarrow> picked (syncers (get_into_line ev w W) x) = picked (syncers W x)"
  "x \<noteq> w \<Longrightarrow> in_line (syncers (get_into_line ev w W) x) = in_line (syncers W x)"
  "\<not> picked (syncers (get_into_line ev w W) w)"
  "syncings (get_into_line ev w W) = syncings W" "fresh (get_into_line ev w W) = fresh W"
  "s_value (semas (get_into_line ev w W) s) = s_value (semas W s)"
  "line_of W ev = Some (Sema_Line t) \<Longrightarrow> s \<noteq> t \<Longrightarrow>
     s_first (semas (get_into_line ev w W) s) = s_first (semas W s)"
  by (auto simp: get_into_line_def Let_def world_simps same_role_def split: option.splits)

lemma inv_enter:
  assumes inv: "sync_inv (W, pt)" and fr: "pt T = Some (At_Block fr)"
    and v: "vals W (f_sema fr) = 0"
    and fr': "f_w fr' = f_w fr" "f_sema fr' = f_sema fr" "f_syncing fr' = f_syncing fr"
  shows "sync_inv (get_into_line (Sema (f_sema fr)) (f_w fr) W, pt(T \<mapsto> In_Line fr'))"
proof -
  let ?s = "f_sema fr" and ?w = "f_w fr"
  define W' where "W' = get_into_line (Sema ?s) ?w W"
  define pt' where "pt' = pt(T \<mapsto> In_Line fr')"
  note f = sync_invD(1) [OF inv]
  have at: "frame_at (W, pt) T fr" using fr by (simp add: frame_at_def)
  obtain L where L: "lines W L {}" using sync_invD(3) [OF inv] by blast
  note obj = frames_okD(3) [OF f at]
  have nin: "\<not> in_line (syncers W ?w)"
    using frames_okD(5) [OF f at] frames_okD(6) [OF f] fr by (fastforce simp: frame_at_def)
  have L': "lines W' (L(Sema_Line ?s := L (Sema_Line ?s) @ [?w])) {}"
    using lines_get_into_line [OF L _ nin, of "Sema_Line ?s"] obj by (simp add: W'_def)
  note keep = get_into_line_keeps [where W = W and ev = "Sema ?s" and w = ?w, folded W'_def]
  have role: "w_obj (syncers W' x) = w_obj (syncers W x)"
    "w_syncing (syncers W' x) = w_syncing (syncers W x)" for x
    using keep(1) [of x] by (simp_all add: same_role_def)
  have at': "frame_at (W', pt') U g \<Longrightarrow>
      \<exists>h. frame_at (W, pt) U h \<and> f_w h = f_w g \<and> f_sema h = f_sema g \<and> f_syncing h = f_syncing g" for U g
    using at fr' by (auto simp: frame_at_def pt'_def split: if_splits)
  have frames: "frames_ok (W', pt')"
  proof (rule frames_okI [OF f])
    show "finite (dom pt')" using frames_okD(1) [OF f] by (simp add: pt'_def)
    show "\<exists>U g. pt' U = Some (In_Line g) \<and> f_w g = x" if inl: "in_line (syncers W' x)" for x
    proof (cases "x = ?w")
      case True
      then show ?thesis using fr' by (intro exI [of _ T] exI [of _ fr']) (simp add: pt'_def)
    next
      case False
      then have "in_line (syncers W x)" using inl keep(3) by simp
      then obtain U g where g: "pt U = Some (In_Line g)" "f_w g = x" using frames_okD(6) [OF f] by blast
      then have "U \<noteq> T" using fr by auto
      then show ?thesis using g by (intro exI [of _ U] exI [of _ g]) (simp add: pt'_def)
    qed
  qed (use keep(1,6) at' in auto)
  have pend: "pending s (W', pt') = pending s (W, pt)" for s
  proof (intro set_eqI)
    fix U
    show "U \<in> pending s (W', pt') \<longleftrightarrow> U \<in> pending s (W, pt)"
    proof (cases "U = T")
      case True
      then show ?thesis using fr fr' keep(4) by (auto simp: pending_def pt'_def)
    next
      case False
      then have "f_w g \<noteq> ?w" if "pt U = Some (In_Line g)" for g
        using frames_okD(5) [OF f at, of U g] that by (auto simp: frame_at_def)
      then show ?thesis using False keep(2) by (auto simp: pending_def pt'_def)
    qed
  qed
  show ?thesis
    unfolding W'_def [symmetric] pt'_def [symmetric]
  proof (rule sync_invI [OF frames _ L'])
    show "plain W'" using sync_invD(2) [OF inv] by (simp add: plain_def keep)
    show "0 \<le> vals W' s" for s using sync_invD(4) [OF inv] by (simp add: keep)
    show "vals W' s \<le> int (card (pending s (W', pt')))" if "s_first (semas W' s) \<noteq> None" for s
      using that sync_invD(6) [OF inv, of s] v keep(8) [of ?s s] unfolding pend keep(7)
      by (cases "s = ?s") simp_all
  qed
qed

text \<open>Allocating a waiter, and a synchronization for fair mode.\<close>

lemma lines_set_syncer:
  assumes ok: "lines W L {}" and "\<not> in_line (syncers W a)" and "\<not> in_line v"
    and W': "syncers W' = (syncers W)(a := v)" "semas W' = semas W" "channels W' = channels W"
      "channel_puts W' = channel_puts W"
  shows "lines W' L {}"
proof -
  have nin: "a \<notin> set (L ln)" for ln using linesD(2) [OF ok, of a ln] assms(2) by simp
  have "linked W' ln (L ln)" for ln
    by (rule linked_frame [OF linesD(1) [OF ok]])
      (use nin [of ln] line_ends_cong [OF W'(2,3)] in \<open>auto simp: W'\<close>)
  then show ?thesis
    using linesD(2,3) [OF ok] line_of_cong [OF W'(4)] assms(2,3) unfolding lines_def W'(1) by auto
qed

lemma frames_ok_update:
  assumes f: "frames_ok (W, pt)" and "fresh W \<le> fresh W'"
    and new: "f_w fr < fresh W'" "w_obj (syncers W' (f_w fr)) = Sema (f_sema fr)"
      "w_syncing (syncers W' (f_w fr)) = f_syncing fr" "\<not> in_line (syncers W' (f_w fr))"
    and other: "\<And>U g. frame_at (W, pt) U g \<Longrightarrow> U \<noteq> T \<Longrightarrow> f_w g \<noteq> f_w fr"
    and same: "\<And>x. x \<noteq> f_w fr \<Longrightarrow> syncers W' x = syncers W x"
    and T: "\<And>g. pt T \<noteq> Some (In_Line g)"
  shows "frames_ok (W', pt(T \<mapsto> At_Block fr))"
    and "pending s (W', pt(T \<mapsto> At_Block fr)) = pending s (W, pt)"
proof -
  define pt' where "pt' = pt(T \<mapsto> At_Block fr)"
  have at: "frame_at (W', pt') U g \<longleftrightarrow> (if U = T then g = fr else frame_at (W, pt) U g)" for U g
    by (auto simp: frame_at_def pt'_def)
  have "frames_ok (W', pt')"
    unfolding frames_ok_def fst_conv snd_conv
  proof (intro conjI allI impI)
    show "finite (dom pt')" using frames_okD(1) [OF f] by (simp add: pt'_def)
    show "f_w g < fresh W'" "w_obj (syncers W' (f_w g)) = Sema (f_sema g)"
      "w_syncing (syncers W' (f_w g)) = f_syncing g" if "frame_at (W', pt') U g" for U g
      using that new frames_okD(2-4) [OF f, of U g] other [of U g] same [of "f_w g"] assms(2)
      by (auto simp: at split: if_splits)
    show "U = U'" if "frame_at (W', pt') U g" "frame_at (W', pt') U' g'" "f_w g = f_w g'" for U U' g g'
      using that other [of U g] other [of U' g'] frames_okD(5) [OF f, of U g U' g']
      by (auto simp: at split: if_splits)
    show "\<exists>U g. pt' U = Some (In_Line g) \<and> f_w g = x" if inl: "in_line (syncers W' x)" for x
    proof -
      have "x \<noteq> f_w fr" using inl new(4) by auto
      then have "in_line (syncers W x)" using inl same by simp
      then obtain U g where g: "pt U = Some (In_Line g)" "f_w g = x" using frames_okD(6) [OF f] by blast
      then have "U \<noteq> T" using T by auto
      then show ?thesis using g by (intro exI [of _ U] exI [of _ g]) (simp add: pt'_def)
    qed
  qed
  then show "frames_ok (W', pt(T \<mapsto> At_Block fr))" by (simp add: pt'_def)
  have "picked (syncers W' (f_w g)) = picked (syncers W (f_w g))" if "pt U = Some (In_Line g)" for U g
  proof -
    have "U \<noteq> T" using T that by auto
    then show ?thesis using other [of U g] same that by (simp add: frame_at_def)
  qed
  then show "pending s (W', pt(T \<mapsto> At_Block fr)) = pending s (W, pt)"
    using T by (auto simp: pending_def)
qed

lemma inv_alloc:
  fixes p :: addr
  assumes inv: "sync_inv (W, pt)" and T: "pt T = None"
    and fr: "f_w fr = fresh W" "f_sema fr = s" "f_syncing fr = None"
  defines "W' \<equiv> W\<lparr>syncers := (syncers W)(fresh W := init_syncer p s), fresh := fresh W + 1\<rparr>"
  shows "sync_inv (W', pt(T \<mapsto> At_Block fr))"
proof -
  note f = sync_invD(1) [OF inv]
  have nin: "\<not> in_line (syncers W (fresh W))"
    using frames_okD(6) [OF f] frames_okD(2) [OF f] by (fastforce simp: frame_at_def)
  obtain L where L: "lines W L {}" using sync_invD(3) [OF inv] by blast
  have L': "lines W' L {}"
    by (rule lines_set_syncer [OF L nin]) (simp_all add: W'_def init_syncer_def)
  have S: "syncers W' x = (if x = fresh W then init_syncer p s else syncers W x)"
    "semas W' = semas W" "syncings W' = syncings W" "fresh W' = fresh W + 1" for x
    by (simp_all add: W'_def)
  have "f_w g \<noteq> f_w fr" if "frame_at (W, pt) U g" for U g
    using frames_okD(2) [OF f that] fr by simp
  have "frames_ok (W', pt(T \<mapsto> At_Block fr))"
    "pending x (W', pt(T \<mapsto> At_Block fr)) = pending x (W, pt)" for x
    by (rule frames_ok_update [OF f]; use fr T \<open>\<And>U g. frame_at (W, pt) U g \<Longrightarrow> f_w g \<noteq> f_w fr\<close>
        in \<open>simp add: S init_syncer_def\<close>)+
  then show ?thesis
    using sync_invD(2,4,6) [OF inv] by (intro sync_invI [OF _ _ L']) (simp_all add: S plain_def)
qed

lemma inv_fair:
  assumes inv: "sync_inv (W, pt)" and T: "pt T = Some (At_Block fr)"
    and fr': "f_w fr' = f_w fr" "f_sema fr' = f_sema fr" "f_syncing fr' = Some y"
    and W': "W' = upd_syncer (f_w fr) (\<lambda>t. t\<lparr>w_syncing := Some y\<rparr>)
       (W\<lparr>syncings := (syncings W)(y := init_syncing), fresh := fresh W + 1\<rparr>)"
  shows "sync_inv (W', pt(T \<mapsto> At_Block fr'))"
proof -
  note f = sync_invD(1) [OF inv]
  have at: "frame_at (W, pt) T fr" using T by (simp add: frame_at_def)
  have nin: "\<not> in_line (syncers W (f_w fr))"
    using frames_okD(5) [OF f at] frames_okD(6) [OF f] T by (fastforce simp: frame_at_def)
  have S: "syncers W' x = (if x = f_w fr then (syncers W x)\<lparr>w_syncing := Some y\<rparr> else syncers W x)"
    "semas W' = semas W" "syncings W' = (syncings W)(y := init_syncing)" "fresh W' = fresh W + 1" for x
    by (simp_all add: W' world_simps)
  obtain L where L: "lines W L {}" using sync_invD(3) [OF inv] by blast
  have L': "lines W' L {}"
    by (rule lines_set_syncer [OF L nin]) (use nin in \<open>auto simp: W' world_simps\<close>)
  have other: "f_w g \<noteq> f_w fr" if "frame_at (W, pt) U g" "U \<noteq> T" for U g
    using frames_okD(5) [OF f that(1) at] that(2) by auto
  have "frames_ok (W', pt(T \<mapsto> At_Block fr'))"
    "pending x (W', pt(T \<mapsto> At_Block fr')) = pending x (W, pt)" for x
    by (rule frames_ok_update [OF f]; use fr' T other nin frames_okD(2,3) [OF f at]
        in \<open>simp add: S\<close>)+
  then show ?thesis
    using sync_invD(2,4,6) [OF inv]
    by (intro sync_invI [OF _ _ L']) (simp_all add: S plain_def init_syncing_def)
qed

text \<open>A post.\<close>

lemma inv_post:
  assumes inv: "sync_inv (W, pt)" and post: "scheme_post_sema n t W = Done W'"
  shows "sync_inv (W', pt)"
proof -
  note f = sync_invD(1) [OF inv]
  obtain L where L: "lines W L {}" using sync_invD(3) [OF inv] by blast
  define V where "V = upd_sema t (\<lambda>s. s\<lparr>s_value := next_value (s_value (semas W t))\<rparr>) W"
  note plain = scheme_post_sema_plain [OF L sync_invD(2,4) [OF inv] post, folded V_def]
  obtain L' where eff: "post_effect t V L W' L'" using plain(1) by blast
  have V: "syncers V = syncers W" "fresh V = fresh W" "vals V x = (if x = t then vals W t + 1 else vals W x)"
    for x using plain(2) by (auto simp: V_def world_simps)
  have L': "lines W' L' {}" and plain': "plain W'" and fresh: "fresh W' = fresh W"
    and role: "\<And>x. same_role (syncers W x) (syncers W' x)"
    and inl: "\<And>x. in_line (syncers W' x) \<Longrightarrow> in_line (syncers W x)"
    and sub: "\<And>ln. set (L' ln) \<subseteq> set (L ln)"
    and other: "\<And>x. x \<noteq> t \<Longrightarrow> vals W' x = vals W x"
    using eff by (auto simp: post_effect_def V)
  have frames: "frames_ok (W', pt)"
    by (rule frames_okI [OF f frames_okD(1) [OF f] _ role])
      (use fresh frames_okD(6) [OF f inl] in \<open>auto simp: frame_at_def\<close>)
  have first: "s_first (semas W x) \<noteq> None" if "s_first (semas W' x) \<noteq> None" for x
    using that lines_sema_first [OF L, of x] lines_sema_first [OF L', of x] sub [of "Sema_Line x"]
    by (cases "L (Sema_Line x)"; cases "L' (Sema_Line x)") auto
  have more: "pending x (W, pt) \<subseteq> pending x (W', pt)" for x
    using eff by (auto simp: pending_def post_effect_def V)
  have card: "card (pending x (W, pt)) \<le> card (pending x (W', pt))" for x
    by (rule card_mono [OF finite_subset [of _ "dom pt"] more])
      (use frames_okD(1) [OF f] in \<open>auto simp: pending_def\<close>)
  have at_t: "0 \<le> vals W' t \<and> (s_first (semas W' t) \<noteq> None \<longrightarrow> vals W' t \<le> int (card (pending t (W', pt))))"
  proof (cases "L' (Sema_Line t) = [] \<and> s_value (semas W' t) = s_value (semas V t)")
    case True
    then show ?thesis using lines_sema_first [OF L', of t] sync_invD(4) [OF inv, of t] V(3) [of t] by simp
  next
    case False
    then obtain w where w: "w \<in> set (L (Sema_Line t))" "picked (syncers W' w)"
      "s_value (semas W' t) = (if w_syncing (syncers W w) = None then s_value (semas V t)
         else s_value (semas V t) - 1)"
      using eff by (auto simp: post_effect_def V)
    have "s_first (semas W t) \<noteq> None" using w(1) lines_sema_first [OF L, of t] by (cases "L (Sema_Line t)") auto
    note old = sync_invD(6) [OF inv this] and v = sync_invD(4) [OF inv, of t]
    have in_w: "in_line (syncers W w)" "w_obj (syncers W w) = Sema t" "\<not> picked (syncers W w)"
      using w(1) linesD(2,3) [OF L, of w] by (auto elim: line_of.elims)
    show ?thesis
    proof (cases "w_syncing (syncers W w)")
      case None
      obtain U g where g: "pt U = Some (In_Line g)" "f_w g = w" using frames_okD(6) [OF f in_w(1)] by blast
      then have at: "frame_at (W, pt) U g" by (simp add: frame_at_def)
      have "U \<in> pending t (W', pt)" "U \<notin> pending t (W, pt)"
        using g frames_okD(3,4) [OF f at] in_w None w(2) by (auto simp: pending_def)
      then have "pending t (W, pt) \<subset> pending t (W', pt)" using more by blast
      then have "card (pending t (W, pt)) < card (pending t (W', pt))"
        by (rule psubset_card_mono [rotated])
          (rule finite_subset [of _ "dom pt"], use frames_okD(1) [OF f] in \<open>auto simp: pending_def\<close>)
      then show ?thesis using w(3) None old v V(3) [of t] by simp
    next
      case (Some y)
      then have "vals W' t = vals W t"
        using w(3) V(3) [of t] v sint_minus_1 [of "s_value (semas V t)"] by simp
      then show ?thesis using old v card [of t] by simp
    qed
  qed
  show ?thesis
  proof (rule sync_invI [OF frames plain' L'])
    show "0 \<le> vals W' s" for s
      using at_t other sync_invD(4) [OF inv, of s] by (cases "s = t") auto
    show "vals W' s \<le> int (card (pending s (W', pt)))" if "s_first (semas W' s) \<noteq> None" for s
      using that at_t other sync_invD(6) [OF inv first [OF that]] card [of s] by (cases "s = t") auto
  qed
qed

section \<open>Every step keeps the invariant\<close>

lemma at_block_not_in_line:
  assumes "sync_inv (W, pt)" and "pt T = Some (At_Block fr)"
  shows "\<not> in_line (syncers W (f_w fr))" and "T \<notin> pending s (W, pt)"
proof -
  note f = sync_invD(1) [OF assms(1)]
  have at: "frame_at (W, pt) T fr" using assms(2) by (simp add: frame_at_def)
  show "\<not> in_line (syncers W (f_w fr))"
    using frames_okD(5) [OF f at] frames_okD(6) [OF f] assms(2) by (fastforce simp: frame_at_def)
  show "T \<notin> pending s (W, pt)" using assms(2) by (simp add: pending_def)
qed

lemma inv_exit:
  assumes "sync_inv (W, pt)" and "pt T = Some (At_Block fr)"
    and "\<And>g. q \<noteq> Some (In_Line g)" "\<And>g. q \<noteq> Some (At_Block g)"
  shows "sync_inv (leave_if_in_line s (f_w fr) W, pt(T := q))"
proof -
  have "leave_if_in_line s (f_w fr) W = W"
    using at_block_not_in_line(1) [OF assms(1,2)] by (simp add: leave_if_in_line_def)
  moreover have "sync_inv (W, pt(T := q))"
    by (rule inv_move [OF assms(1), where fr = fr])
      (use assms(2-4) at_block_not_in_line [OF assms(1,2)] in \<open>auto simp: frame_at_def\<close>)
  ultimately show ?thesis by simp
qed

lemma wait_suspend_cases:
  assumes "wait_suspend s w y W = (q, W')"
  obtains fr where "q = In_Line fr" "f_w fr = w" "f_sema fr = s" "f_syncing fr = y"
    "same_sync (if in_line (syncers W w) then W else get_into_line (Sema s) w W) W'"
proof -
  define W1 where "W1 = (if in_line (syncers W w) then W else get_into_line (Sema s) w W)"
  define p where "p = current_thread W1"
  note defs = assms [unfolded wait_suspend_def W1_def [symmetric], unfolded Let_def, folded p_def]
  show thesis
  proof (cases "thread_next (run_queue W1) p = None")
    case True
    then have q: "q = In_Line \<lparr>f_sema = s, f_w = w, f_syncing = y, f_main = True, f_old_nkc = False\<rparr>"
      and W': "W' = upd_thread p (\<lambda>t. t\<lparr>suspend_break := suspend_break t + 1\<rparr>) W1"
      using defs by simp_all
    show thesis
      by (rule that [OF q]) (simp_all add: W' W1_def [symmetric] same_sync_def world_simps)
  next
    case False
    define W2 where "W2 = (if running (threads W1 p) AND MZTHREAD_NEED_KILL_CLEANUP \<noteq> 0 then W1
      else upd_thread p (\<lambda>t. t\<lparr>running := running t + MZTHREAD_NEED_KILL_CLEANUP\<rparr>) W1)"
    have q: "q = In_Line \<lparr>f_sema = s, f_w = w, f_syncing = y, f_main = False,
        f_old_nkc = (running (threads W1 p) AND MZTHREAD_NEED_KILL_CLEANUP \<noteq> 0)\<rparr>"
      and W': "W' = scheme_weak_suspend_thread p W2"
      using defs False by (simp_all add: W2_def)
    have "same_sync W1 W2" by (simp add: W2_def same_sync_def world_simps)
    then have "same_sync W1 W'"
      using same_sync_suspend [of W2 p] by (simp add: W' same_sync_def)
    then show thesis by (intro that [OF q]) (simp_all add: W1_def)
  qed
qed

lemma inv_suspend:
  assumes inv: "sync_inv (W, pt)" and T: "pt T = Some (At_Block fr)" and v: "vals W (f_sema fr) = 0"
    and "wait_suspend (f_sema fr) (f_w fr) (f_syncing fr) W = (q, W')"
  shows "sync_inv (W', pt(T \<mapsto> q))"
proof -
  obtain fr' where fr': "q = In_Line fr'" "f_w fr' = f_w fr" "f_sema fr' = f_sema fr"
    "f_syncing fr' = f_syncing fr" "same_sync (get_into_line (Sema (f_sema fr)) (f_w fr) W) W'"
    using wait_suspend_cases [OF assms(4)] at_block_not_in_line(1) [OF inv T] by auto
  show ?thesis
    unfolding fr'(1) by (rule same_sync_inv [OF fr'(5) inv_enter [OF inv T v fr'(2-4)]])
qed

lemma inv_result:
  assumes "sync_inv (W, pt)"
  shows "sync_inv (upd_syncing y (\<lambda>t. t\<lparr>y_result := r\<rparr>) W, pt)"
proof -
  obtain L where L: "lines W L {}" using sync_invD(3) [OF assms] by blast
  have ends: "line_first (upd_syncing y g W) ln = line_first W ln"
    "line_last (upd_syncing y g W) ln = line_last W ln" for g ln
    by (rule line_ends_cong; simp add: world_simps)+
  have "lines (upd_syncing y (\<lambda>t. t\<lparr>y_result := r\<rparr>) W) L ({} - {})"
    by (rule lines_frame [OF L]) (simp_all add: world_simps ends)
  then show ?thesis
    using assms by (intro sync_invI)
      (auto simp: sync_inv_def frames_ok_def frame_at_def pending_def plain_def world_simps)
qed

text \<open>The world after a successful poll.\<close>

lemma poll_take:
  fixes fr :: wait_frame
  assumes "sync_inv (W, pt)"
  defines "W1 \<equiv> (case f_syncing fr of
                  None \<Rightarrow> take_value (f_sema fr) W
                | Some y \<Rightarrow> scheme_accept_sync y 0
                    (upd_syncing y (\<lambda>t. t\<lparr>y_result := 1\<rparr>)
                      (if has_repost y 0 W then W else take_value (f_sema fr) W)))"
  shows "sync_inv (W1, pt)" and "syncers W1 = syncers W"
proof -
  have "plain W" by (rule sync_invD(2) [OF assms(1)])
  then have "W1 = (case f_syncing fr of None \<Rightarrow> take_value (f_sema fr) W
      | Some y \<Rightarrow> upd_syncing y (\<lambda>t. t\<lparr>y_result := 1\<rparr>) (take_value (f_sema fr) W))"
    by (simp add: W1_def has_repost_def scheme_accept_sync_def plain_def take_value_fields world_simps
        split: option.split)
  then show "sync_inv (W1, pt)" "syncers W1 = syncers W"
    using inv_take [OF assms(1)] inv_result
    by (auto simp: take_value_fields world_simps split: option.split)
qed

lemma inv_poll:
  assumes inv: "sync_inv (W, pt)" and T: "pt T = Some (At_Block fr)"
    and poll: "wait_poll fr W = (q, W')"
  shows "sync_inv (W', pt(T \<mapsto> q))"
proof (cases "s_value (semas W (f_sema fr)) = 0")
  case False
  define W1 where "W1 = (case f_syncing fr of
      None \<Rightarrow> take_value (f_sema fr) W
    | Some y \<Rightarrow> scheme_accept_sync y 0
        (upd_syncing y (\<lambda>t. t\<lparr>y_result := 1\<rparr>)
          (if has_repost y 0 W then W else take_value (f_sema fr) W)))"
  have "sync_inv (W1, pt)" unfolding W1_def by (rule poll_take [OF inv])
  then show ?thesis
    using inv_exit [of W1 pt T fr "Some (Returned 1)" "f_sema fr"] T poll False
    by (simp add: wait_poll_def Let_def W1_def)
next
  case True
  then have v: "vals W (f_sema fr) = 0" by simp
  show ?thesis
  proof (cases "f_syncing fr")
    case (Some y)
    then show ?thesis using inv_suspend [OF inv T v] poll True by (simp add: wait_poll_def Let_def)
  next
    case None
    define fr' where "fr' = fr\<lparr>f_syncing := Some (fresh W)\<rparr>"
    define W1 where "W1 = W\<lparr>syncings := (syncings W)(fresh W := init_syncing), fresh := fresh W + 1\<rparr>"
    define W2 where "W2 = upd_syncer (f_w fr) (\<lambda>t. t\<lparr>w_syncing := Some (fresh W)\<rparr>) W1"
    have nin: "\<not> in_line (syncers W1 (f_w fr))"
      using at_block_not_in_line(1) [OF inv T] by (simp add: W1_def)
    have "sync_inv (W2, pt(T \<mapsto> At_Block fr'))"
      by (rule inv_fair [OF inv T]) (simp_all add: fr'_def W2_def W1_def)
    moreover have "vals W2 (f_sema fr') = 0" using v by (simp add: W2_def W1_def fr'_def world_simps)
    moreover have "wait_suspend (f_sema fr') (f_w fr') (f_syncing fr') W2 = (q, W')"
      using poll True None nin
      by (simp add: wait_poll_def Let_def W1_def W2_def fr'_def leave_if_in_line_def)
    ultimately show ?thesis using inv_suspend [of W2 "pt(T \<mapsto> At_Block fr')" T fr' q W'] by simp
  qed
qed

text \<open>The same from inside of the line, for a thread in fair mode.\<close>

lemma inv_move_fair:
  assumes "sync_inv (W, pt)" and "pt T = Some (In_Line fr)" and "T \<notin> pending (f_sema fr) (W, pt)"
    and "\<And>g. q \<noteq> Some (In_Line g)" "\<And>g. q = Some (At_Block g) \<Longrightarrow> g = fr"
  shows "sync_inv (leave_if_in_line (f_sema fr) (f_w fr) W, pt(T := q))"
proof (rule inv_move [OF inv_leave(1) [OF assms(1,2)] _ inv_leave(2) [OF assms(1,2)] assms(4,5)])
  let ?W = "leave_if_in_line (f_sema fr) (f_w fr) W"
  show "frame_at (?W, pt) T fr" using assms(2) by (simp add: frame_at_def)
  have "picked (syncers ?W x) = picked (syncers W x)" for x
    by (simp add: leave_if_in_line_def get_outof_line_keeps)
  then have "T \<notin> pending s (?W, pt)" for s
    using assms(2,3) by (cases "s = f_sema fr") (auto simp: pending_def)
  then show "vals ?W s = 0 \<or> vals ?W s < int (card (pending s (?W, pt)))"
    if "T \<in> pending s (?W, pt)" for s
    using that by blast
qed

lemma inv_poll_fair:
  assumes inv: "sync_inv (W, pt)" and T: "pt T = Some (In_Line fr)" and y: "f_syncing fr = Some y"
    and poll: "wait_poll fr W = (q, W')"
  shows "sync_inv (W', pt(T \<mapsto> q))"
proof (cases "in_line (syncers W (f_w fr))")
  case False
  have np: "T \<notin> pending s (W, pt)" for s using T y by (auto simp: pending_def)
  have "sync_inv (W, pt(T \<mapsto> At_Block fr))"
    by (rule inv_move [OF inv _ False]) (use T np in \<open>auto simp: frame_at_def\<close>)
  then show ?thesis using inv_poll [of W "pt(T \<mapsto> At_Block fr)" T fr q W'] poll by simp
next
  case inl: True
  show ?thesis
  proof (cases "s_value (semas W (f_sema fr)) = 0")
    case False
    define W1 where "W1 = scheme_accept_sync y 0 (upd_syncing y (\<lambda>t. t\<lparr>y_result := 1\<rparr>)
      (if has_repost y 0 W then W else take_value (f_sema fr) W))"
    have "sync_inv (W1, pt)" using poll_take [OF inv, of fr] y by (simp add: W1_def)
    moreover have "T \<notin> pending (f_sema fr) (W1, pt)" using T y by (auto simp: pending_def)
    ultimately show ?thesis
      using inv_move_fair [of W1 pt T fr "Some (Returned 1)"] T poll False y
      by (simp add: wait_poll_def Let_def W1_def)
  next
    case True
    then have "wait_suspend (f_sema fr) (f_w fr) (Some y) W = (q, W')"
      using poll y by (simp add: wait_poll_def Let_def)
    from wait_suspend_cases [OF this] inl
    obtain fr' where fr': "q = In_Line fr'" "f_w fr' = f_w fr" "f_sema fr' = f_sema fr"
      "f_syncing fr' = Some y" "same_sync W W'" by auto
    have "sync_inv (W, pt(T \<mapsto> In_Line fr'))"
    proof -
      note f = sync_invD(1) [OF inv]
      have "frames_ok (W, pt(T \<mapsto> In_Line fr'))"
      proof (rule frames_okI [OF f])
        show "finite (dom (pt(T \<mapsto> In_Line fr')))" using frames_okD(1) [OF f] by simp
        show "\<exists>h. frame_at (W, pt) U h \<and> f_w h = f_w g \<and> f_sema h = f_sema g \<and> f_syncing h = f_syncing g"
          if "frame_at (W, pt(T \<mapsto> In_Line fr')) U g" for U g
          using that T fr'(2-4) y by (auto simp: frame_at_def split: if_splits)
        show "\<exists>U g. (pt(T \<mapsto> In_Line fr')) U = Some (In_Line g) \<and> f_w g = x"
          if inx: "in_line (syncers W x)" for x
        proof -
          obtain U g where "pt U = Some (In_Line g)" "f_w g = x" using frames_okD(6) [OF f inx] by blast
          then show ?thesis
            using T fr'(2) by (cases "U = T") (auto intro: exI [of _ T] exI [of _ U])
        qed
      qed simp_all
      moreover have "pending s (W, pt(T \<mapsto> In_Line fr')) = pending s (W, pt)" for s
        using T y fr'(4) by (auto simp: pending_def)
      ultimately show ?thesis
        using sync_invD(2,3,4,6) [OF inv] by (auto intro: sync_invI)
    qed
    then show ?thesis unfolding fr'(1) by (rule same_sync_inv [OF fr'(5)])
  qed
qed

lemma inv_reposted:
  assumes inv: "sync_inv (W, pt)" and T: "pt T = Some (At_Block fr)"
    and repost: "wait_repost n fr i W = Done W2"
  shows "sync_inv (W2, pt)"
  using repost inv inv_post [OF inv_take [OF inv]] by (auto simp: wait_repost_def split: if_splits)

text \<open>The thread got out of its line and stands, as far as the invariant goes, outside of it.\<close>

lemma inv_after_repost:
  assumes inv: "sync_inv (W, pt)" and T: "pt T = Some (At_Block fr)"
    and res: "after_repost
       (\<lambda>W2. if i < 1 then (if i = - 1 then Dying else Returned (i + 1),
                             leave_if_in_line (f_sema fr) (f_w fr) W2)
             else wait_poll fr W2)
       (wait_repost n fr i W) = Done (q, W')"
  shows "sync_inv (W', pt(T \<mapsto> q))"
proof (cases "wait_repost n fr i W")
  case (Done W2)
  note inv2 = inv_reposted [OF inv T Done]
  show ?thesis
  proof (cases "i < 1")
    case True
    then have "q = (if i = - 1 then Dying else Returned (i + 1))"
      "W' = leave_if_in_line (f_sema fr) (f_w fr) W2"
      using res Done by auto
    then show ?thesis using inv_exit [OF inv2 T, of "Some q" "f_sema fr"] by auto
  next
    case False
    then show ?thesis using inv_poll [OF inv2 T] res Done by simp
  qed
qed (use res in simp_all)

lemma inv_resumed:
  assumes inv: "sync_inv (W, pt)" and T: "pt T = Some (In_Line fr)"
    and res: "wait_resumed n fr W = Done (q, W')"
  shows "sync_inv (W', pt(T \<mapsto> q))"
proof -
  define W0 where "W0 = wait_restore fr W"
  have inv0: "sync_inv (W0, pt)" unfolding W0_def by (rule same_sync_inv [OF same_sync_restore inv])
  obtain got W1 where got: "wait_got fr W0 = (got, W1)" by force
  note res' = res [unfolded wait_resumed_def W0_def [symmetric] got prod.case Let_def]
  have not_woken: ?thesis if "got = None"
  proof -
    have "W1 = W0" "T \<notin> pending (f_sema fr) (W0, pt)"
      using got that T by (auto simp: wait_got_def pending_def split: option.splits if_splits)
    then show ?thesis
      using inv_move_fair [OF inv0 T, of "Some (At_Block fr)"] res' that by simp
  qed
  define i' where
    "i' i = (if killed_or_suspended (threads W1 (current_thread W1)) then - 1 else i)" for i :: int
  show ?thesis
  proof (cases got)
    case None
    then show ?thesis by (rule not_woken)
  next
    case (Some i)
    note res2 = res' [unfolded Some option.case, folded i'_def]
    show ?thesis
    proof (cases "f_syncing fr")
      case None
      then have "picked (syncers W0 (f_w fr))" and W1: "W1 = take_value (f_sema fr) W0"
        using got Some take_value_fields(10) [of W0 "f_sema fr"]
        by (auto simp: wait_got_def split: if_splits)
      then have "sync_inv (W1, pt(T \<mapsto> At_Block fr))"
        using inv_take_move [OF inv0 T None] by simp
      then show ?thesis
        using inv_after_repost [of W1 "pt(T \<mapsto> At_Block fr)" T fr "i' i" n q W'] res2 by simp
    next
      case (Some y)
      have W1: "W1 = W0" using got Some by (auto simp: wait_got_def split: if_splits)
      have np: "T \<notin> pending (f_sema fr) (W0, pt)" using T Some by (auto simp: pending_def)
      have rep: "wait_repost n fr (i' i) W0 = Done W0" using Some by (simp add: wait_repost_def)
      show ?thesis
      proof (cases "i' i < 1")
        case True
        then show ?thesis
          using inv_move_fair [OF inv0 T np, of "Some q"] res2 rep W1 by auto
      next
        case False
        then show ?thesis using inv_poll_fair [OF inv0 T Some] res2 rep W1 by simp
      qed
    qed
  qed
qed

text \<open>Posting a semaphore again may exceed its limit; the post has been consumed then.\<close>

lemma did_post_plain_not_raised: "plain W \<Longrightarrow> did_post_sema pa k t W \<noteq> Raised W'"
proof (induction k arbitrary: W)
  case (Suc k)
  show ?case
  proof (cases "s_first (semas W t)")
    case (Some w)
    define W1 where "W1 = pop_line t w W"
    have plain1: "plain W1" using Suc.prems by (simp add: plain_def W1_def world_simps)
    have "plain (resume_if_picked w (detach w W1))"
      using plain1 settle_fields(1) [where w = w and b = False and W = W1] by (simp add: plain_def)
    then show ?thesis
      using Suc.IH Some plain1
      by (auto simp: W1_def [symmetric] Let_def set_sync_result_plain nacks_plain has_repost_def plain_def
          world_simps split: option.splits)
  qed simp
qed simp

lemma post_plain_raised: "plain W \<Longrightarrow> scheme_post_sema n t W = Raised W' \<Longrightarrow> W' = W"
  using did_post_plain_not_raised [of "upd_sema t f W" for f]
  by (auto simp: scheme_post_sema_def post_sema_def Let_def plain_def world_simps
      simp del: did_post_sema.simps split: if_splits)

lemma inv_raised:
  assumes inv: "sync_inv (W, pt)" and T: "pt T = Some (In_Line fr)"
    and res: "wait_resumed n fr W = Raised (q, W')"
  shows "sync_inv (W', pt(T \<mapsto> q))"
proof -
  define W0 where "W0 = wait_restore fr W"
  have inv0: "sync_inv (W0, pt)" unfolding W0_def by (rule same_sync_inv [OF same_sync_restore inv])
  obtain got W1 where got: "wait_got fr W0 = (got, W1)" by force
  note res' = res [unfolded wait_resumed_def W0_def [symmetric] got prod.case Let_def]
  then obtain i where i: "got = Some i" by (cases got) auto
  then obtain j where "wait_repost n fr j W1 = Raised W'" and q: "q = Escaped"
    using res' by (cases "wait_repost n fr (if killed_or_suspended (threads W1 (current_thread W1))
      then - 1 else i) W1") auto
  then have post: "scheme_post_sema n (f_sema fr) (take_value (f_sema fr) W1) = Raised W'"
    and y: "f_syncing fr = None" by (auto simp: wait_repost_def split: if_splits)
  then have "picked (syncers W0 (f_w fr))" and "W1 = take_value (f_sema fr) W0"
    using got i take_value_fields(10) [of W0 "f_sema fr"] by (auto simp: wait_got_def split: if_splits)
  then have "sync_inv (W1, pt(T \<mapsto> At_Block fr))" using inv_take_move [OF inv0 T y] by simp
  then have inv2: "sync_inv (take_value (f_sema fr) W1, pt(T \<mapsto> At_Block fr))" by (rule inv_take)
  have "W' = take_value (f_sema fr) W1" by (rule post_plain_raised [OF sync_invD(2) [OF inv2] post])
  then show ?thesis
    using inv_exit [OF inv2, of T fr "Some Escaped" "f_sema fr"] q
      at_block_not_in_line(1) [OF inv2, of T fr] by (simp add: leave_if_in_line_def)
qed

lemma inv_start:
  assumes inv: "sync_inv (W, pt)" and T: "pt T = None" and start: "wait_start s W = (q, W')"
  shows "sync_inv (W', pt(T \<mapsto> q))"
proof (cases "s_value (semas W s) = 0")
  case True
  define fr where
    "fr = \<lparr>f_sema = s, f_w = fresh W, f_syncing = None, f_main = False, f_old_nkc = False\<rparr>"
  define W1 where "W1 = W\<lparr>syncers := (syncers W)(fresh W := init_syncer (current_thread W) s),
      fresh := fresh W + 1\<rparr>"
  have "sync_inv (W1, pt(T \<mapsto> At_Block fr))"
    unfolding W1_def by (rule inv_alloc [OF inv T]) (simp_all add: fr_def)
  moreover have "wait_suspend (f_sema fr) (f_w fr) (f_syncing fr) W1 = (q, W')"
    using start True by (simp add: wait_start_def W1_def fr_def)
  moreover have "vals W1 (f_sema fr) = 0" using True by (simp add: W1_def fr_def)
  ultimately show ?thesis using inv_suspend [of W1 "pt(T \<mapsto> At_Block fr)" T fr q W'] by simp
next
  case False
  then have q: "q = Returned 1" and W': "W' = take_value s W" using start by (auto simp: wait_start_def)
  have inv1: "sync_inv (W', pt)" unfolding W' by (rule inv_take [OF inv])
  have at: "frame_at (W', pt(T \<mapsto> q)) U g \<longleftrightarrow> frame_at (W', pt) U g" for U g
    using T by (auto simp: frame_at_def q)
  have same: "(pt(T \<mapsto> q)) U = Some (In_Line g) \<longleftrightarrow> pt U = Some (In_Line g)" for U g
    using T by (auto simp: q)
  have "frames_ok (W', pt(T \<mapsto> q))"
    using sync_invD(1) [OF inv1] unfolding frames_ok_def fst_conv snd_conv at same by simp
  moreover have "pending x (W', pt(T \<mapsto> q)) = pending x (W', pt)" for x
    unfolding pending_def fst_conv snd_conv same ..
  ultimately show ?thesis using sync_invD(2,3,4,6) [OF inv1] by (auto intro: sync_invI)
qed

lemma inv_gone:
  assumes inv: "sync_inv (W, pt)" and T: "pt T \<in> {Some Dying, Some Escaped, Some (Returned i)}"
  shows "sync_inv (W, pt(T := None))"
proof -
  have at: "frame_at (W, pt(T := None)) U g \<longleftrightarrow> frame_at (W, pt) U g" for U g
    using T by (auto simp: frame_at_def)
  have same: "(pt(T := None)) U = Some (In_Line g) \<longleftrightarrow> pt U = Some (In_Line g)" for U g
    using T by auto
  have "frames_ok (W, pt(T := None))"
    using sync_invD(1) [OF inv] unfolding frames_ok_def fst_conv snd_conv at same by simp
  moreover have "pending x (W, pt(T := None)) = pending x (W, pt)" for x
    unfolding pending_def fst_conv snd_conv same ..
  ultimately show ?thesis using sync_invD(2,3,4,6) [OF inv] by (auto intro: sync_invI)
qed

lemma try_plain_take: "snd (scheme_try_plain_sema s W) = take_value s W"
  by (simp add: scheme_try_plain_sema_def take_value_def word_sless_alt)

lemma inv_step:
  assumes "step c c'" and "sync_inv c"
  shows "sync_inv c'"
  using assms
proof (induction rule: step.induct)
  case (start pt T s W q W')
  have "sync_inv (W\<lparr>current_thread := T\<rparr>, pt)"
    by (rule same_sync_inv [OF _ start.prems]) (simp add: same_sync_def)
  from inv_start [OF this start.hyps] show ?case .
next
  case (resumed pt T fr n W q W')
  have "sync_inv (W\<lparr>current_thread := T\<rparr>, pt)"
    by (rule same_sync_inv [OF _ resumed.prems]) (simp add: same_sync_def)
  from inv_resumed [OF this resumed.hyps] show ?case .
next
  case (raised pt T fr n W q W')
  have "sync_inv (W\<lparr>current_thread := T\<rparr>, pt)"
    by (rule same_sync_inv [OF _ raised.prems]) (simp add: same_sync_def)
  from inv_raised [OF this raised.hyps] show ?case .
next
  case (polled pt T fr W q W')
  have "sync_inv (after_block (W\<lparr>current_thread := T\<rparr>), pt)"
    by (rule same_sync_inv [OF _ polled.prems]) (simp add: same_sync_def after_block_def upd_thread_def)
  from inv_poll [OF this polled.hyps] show ?case .
next
  case (escaped pt T fr W)
  then show ?case
    using inv_exit [of W pt T fr "Some Escaped" "f_sema fr"] at_block_not_in_line(1) [of W pt T fr]
    by (simp add: leave_if_in_line_def)
next
  case (left pt T i W)
  then show ?case using inv_gone by blast
next
  case (post n s W W' pt)
  then show ?case using inv_post by blast
next
  case (try_wait s W b W' pt)
  then show ?case using inv_take [of W pt s] try_plain_take [of s W] by simp
next
  case (environment W pt ts rq c a d)
  then show ?case by (rule same_sync_inv [rotated]) (simp add: same_sync_def)
qed

text \<open>Starting without waiters, every reachable state satisfies the invariant.\<close>

definition no_waiters :: "world \<Rightarrow> bool" where
  "no_waiters W \<longleftrightarrow>
     plain W \<and> (\<forall>w. \<not> in_line (syncers W w)) \<and> (\<forall>ln. line_first W ln = None \<and> line_last W ln = None) \<and>
     (\<forall>s. 0 \<le> vals W s)"

lemma sync_inv_init:
  assumes "no_waiters W"
  shows "sync_inv (W, \<lambda>_. None)"
proof -
  have "lines W (\<lambda>_. []) {}" using assms by (simp add: no_waiters_def lines_def linked_def)
  moreover have "s_first (semas W s) = None" for s
    using assms unfolding no_waiters_def by (metis line_first.simps(1))
  ultimately show ?thesis
    using assms by (intro sync_invI) (auto simp: no_waiters_def frames_ok_def frame_at_def)
qed

lemma reachable_inv: "reachable W0 c \<Longrightarrow> no_waiters W0 \<Longrightarrow> sync_inv c"
  by (induction rule: reachable.induct) (auto intro: sync_inv_init inv_step)

end
