(* ===== verification/Channel.thy ===== *)
theory Channel
  imports SyncPosts
begin

text \<open>
  Channels: \<open>try_channel\<close> of \<open>sema.c\<close>. A thread that offers to receive from a channel looks through the
  line of those who offer to send, and the other way round; the first waiter that is not part of the
  same synchronization and that can be picked is the partner. Both synchronizations get their
  result and the value goes into the event set of the receiver. Waiters that can no longer be picked
  are removed from the line on the way.

  The result is \<open>Some v\<close> when a partner was found, with the value \<open>v\<close> that was sent.
\<close>

fun and_then ::
  "world run \<Rightarrow> (world \<Rightarrow> (nat option \<times> world) run) \<Rightarrow> (nat option \<times> world) run" where
  "and_then (Done W) f = f W"
| "and_then (Raised W) f = Raised (None, W)"
| "and_then Diverged f = Diverged"
| "and_then Undefined f = Undefined"

text \<open>\<open>syncing->set->argv[i] = v\<close>; there is no set to write to when the pointer is null.\<close>

definition deliver :: "addr \<Rightarrow> nat \<Rightarrow> nat \<Rightarrow> world \<Rightarrow> world run" where
  "deliver y i v W =
     (case y_set (syncings W y) of
        None \<Rightarrow> Undefined
      | Some argv \<Rightarrow> Done (upd_syncing y (\<lambda>t. t\<lparr>y_set := Some (argv[i := Other_Obj v])\<rparr>) W))"

text \<open>The result of one of the two synchronizations, with its nacks.\<close>

definition conclude :: "(addr \<Rightarrow> world \<Rightarrow> world run) \<Rightarrow> addr \<Rightarrow> nat \<Rightarrow> world \<Rightarrow> world run" where
  "conclude pa y i W = scheme_post_syncing_nacks pa y (set_sync_result y i W)"

text \<open>\<open>if (syncing && (pos >= 0))\<close>: the side that called \<open>try_channel\<close>.\<close>

definition own_target :: "addr option \<Rightarrow> nat option \<Rightarrow> (addr \<times> nat) option" where
  "own_target sy pos = (case sy of None \<Rightarrow> None | Some y \<Rightarrow> map_option (Pair y) pos)"

definition pick_sender ::
  "(addr \<Rightarrow> world \<Rightarrow> world run) \<Rightarrow> (addr \<times> nat) option \<Rightarrow> addr \<Rightarrow> addr \<Rightarrow> nat \<Rightarrow> world \<Rightarrow> world run" where
  "pick_sender pa own w y v W =
     bind_run
       (bind_run (conclude pa y (syncing_i (syncers W w)) (set_picked w W))
         (\<lambda>W1. case own of None \<Rightarrow> Done W1
            | Some (u, p) \<Rightarrow> bind_run (conclude pa u p W1) (deliver u p v)))
       (\<lambda>W2. Done (scheme_weak_resume_thread (w_p (syncers W2 w)) W2))"

definition pick_receiver ::
  "(addr \<Rightarrow> world \<Rightarrow> world run) \<Rightarrow> (addr \<times> nat) option \<Rightarrow> addr \<Rightarrow> addr \<Rightarrow> nat \<Rightarrow> world \<Rightarrow> world run" where
  "pick_receiver pa own w y v W =
     bind_run
       (bind_run (deliver y (syncing_i (syncers W w)) v (set_picked w W))
         (\<lambda>W0. bind_run (conclude pa y (syncing_i (syncers W0 w)) W0)
           (\<lambda>W1. case own of None \<Rightarrow> Done W1 | Some (u, p) \<Rightarrow> conclude pa u p W1)))
       (\<lambda>W2. Done (scheme_weak_resume_thread (w_p (syncers W2 w)) W2))"

text \<open>The loop of the GET mode over the line of senders; \<open>cur\<close> is the variable \<open>w\<close> of the loop.\<close>

fun try_get_loop ::
  "(addr \<Rightarrow> world \<Rightarrow> world run) \<Rightarrow> nat \<Rightarrow> addr option \<Rightarrow> nat option \<Rightarrow> addr option \<Rightarrow> world \<Rightarrow>
   (nat option \<times> world) run" where
  "try_get_loop pa 0 sy pos cur W = Diverged"
| "try_get_loop pa (Suc k) sy pos None W = Done (None, W)"
| "try_get_loop pa (Suc k) sy pos (Some w) W =
     (if w_syncing (syncers W w) = sy then try_get_loop pa k sy pos (w_next (syncers W w)) W
      else case (w_syncing (syncers W w), w_obj (syncers W w)) of
             (Some y, Channel_Put q) \<Rightarrow>
               (let v = chp_val (channel_puts W q)
                in if can_pick w W
                   then and_then (pick_sender pa (own_target sy pos) w y v W)
                          (\<lambda>W1. Done (Some v, get_outof_line (Channel_Put q) w W1))
                   else try_get_loop pa k sy pos (w_next (syncers W w))
                          (get_outof_line (Channel_Put q) w W))
           | _ \<Rightarrow> Undefined)"

text \<open>The loop of the PUT mode over the line of receivers of the channel \<open>c\<close>.\<close>

fun try_put_loop ::
  "(addr \<Rightarrow> world \<Rightarrow> world run) \<Rightarrow> nat \<Rightarrow> addr option \<Rightarrow> nat option \<Rightarrow> addr \<Rightarrow> nat \<Rightarrow> addr option \<Rightarrow>
   world \<Rightarrow> (nat option \<times> world) run" where
  "try_put_loop pa 0 sy pos c v cur W = Diverged"
| "try_put_loop pa (Suc k) sy pos c v None W = Done (None, W)"
| "try_put_loop pa (Suc k) sy pos c v (Some w) W =
     (if w_syncing (syncers W w) = sy then try_put_loop pa k sy pos c v (w_next (syncers W w)) W
      else case w_syncing (syncers W w) of
             Some y \<Rightarrow>
               (if can_pick w W
                then and_then (pick_receiver pa (own_target sy pos) w y v W)
                       (\<lambda>W1. Done (Some v, get_outof_line (Channel c) w W1))
                else try_put_loop pa k sy pos c v (w_next (syncers W w))
                       (get_outof_line (Channel c) w W))
           | None \<Rightarrow> Undefined)"

fun try_channel ::
  "nat \<Rightarrow> evt \<Rightarrow> addr option \<Rightarrow> nat option \<Rightarrow> world \<Rightarrow> (nat option \<times> world) run" where
  "try_channel n (Channel c) sy pos W =
     try_get_loop (scheme_post_sema_all n) (Suc n) sy pos (put_first (channels W c)) W"
| "try_channel n (Channel_Put q) sy pos W =
     (let c = chp_ch (channel_puts W q)
      in try_put_loop (scheme_post_sema_all n) (Suc n) sy pos c (chp_val (channel_puts W q))
           (get_first (channels W c)) W)"
| "try_channel n _ sy pos W = Undefined"

definition scheme_try_channel_get :: "nat \<Rightarrow> addr \<Rightarrow> world \<Rightarrow> (nat option \<times> world) run" where
  "scheme_try_channel_get n c W = try_channel n (Channel c) None None W"

end
