(* ===== verification/ChannelProps.thy ===== *)
theory ChannelProps
  imports Channel
begin

text \<open>
  A rendezvous on a channel, for stores without nack guards (\<open>nackss\<close> is null in every
  synchronization) and without active \<open>replace-evt\<close>s, in which concluding a synchronization only takes its waiters out of their lines.
\<close>

definition quiet :: "world \<Rightarrow> bool" where
  "quiet W \<longleftrightarrow> (\<forall>y. nackss (syncings W y) = None) \<and> replaces W = []"

text \<open>What every step of a rendezvous keeps.\<close>

definition settles :: "world \<Rightarrow> world \<Rightarrow> bool" where
  "settles W W' \<longleftrightarrow>
     channel_puts W' = channel_puts W \<and> threads_ok W W' \<and> (replaces W = [] \<longrightarrow> replaces W' = []) \<and>
     (\<forall>x. same_role (syncers W x) (syncers W' x) \<and>
        (in_line (syncers W' x) \<longrightarrow> in_line (syncers W x)) \<and>
        (picked (syncers W x) \<longrightarrow> picked (syncers W' x)))"

lemma settles_refl: "settles W W"
  by (simp add: settles_def)

lemma settles_trans: "settles W W' \<Longrightarrow> settles W' W'' \<Longrightarrow> settles W W''"
  unfolding settles_def by (metis same_role_trans threads_ok_trans)

lemma evolves_settles: "evolves b W W' \<Longrightarrow> settles W W'"
  using evolvesD(3) [of b W W'] by (auto simp: evolves_def settles_def)

lemma quiet_settles:
  "quiet W \<Longrightarrow> settles W W' \<Longrightarrow> (\<And>y. nackss (syncings W' y) = nackss (syncings W y)) \<Longrightarrow> quiet W'"
  by (simp add: quiet_def settles_def)

lemma good_subst:
  assumes g: "good W L X n" and s: "semas W' = semas W" "channels W' = channels W"
      "channel_puts W' = channel_puts W" "syncers W' = syncers W" and sets: "sets_ok W'"
  shows "good W' L X n"
proof -
  have "lines W' L (X - {})"
    by (rule lines_frame) (use g line_ends_cong [OF s(1,2)] s in \<open>auto simp: good_def\<close>)
  then show ?thesis using g sets by (simp add: good_def closed_empty_def waiting_def s)
qed

section \<open>Concluding a synchronization\<close>

lemma leave_entry_syncings [simp]: "syncings (leave_line_of_entry y i W) = syncings W"
  by (simp add: leave_line_of_entry_def scheme_get_outof_line_def world_simps
      split: option.split evt.split)

lemma nack_replacement_quiet: "replaces W = [] \<Longrightarrow> nack_replacement y i syncs W = (syncs, W)"
  by (cases W) (auto simp: nack_replacement_def scheme_replace_evt_nack_def split: option.split evt.split)

lemma nacks_loop_quiet:
  assumes "good W L X n" and "quiet W"
  shows "\<exists>W' L'. nacks_loop pa y is sk [] rest W = rest sk [] W' \<and> good W' L' X n \<and>
           (\<forall>ln. subseq (L' ln) (L ln)) \<and> evolves (vals W) W W' \<and> syncings W' = syncings W"
  using assms
proof (induction "is" arbitrary: W L)
  case Nil
  then show ?case by (auto intro: evolves_refl)
next
  case (Cons i "is")
  define W1 where "W1 = leave_line_of_entry y i W"
  obtain L1 where L1: "good W1 L1 X n" "\<And>ln. subseq (L1 ln) (L ln)" "evolves (vals W) W W1"
    using leave_entry_ok [OF Cons.prems(1), of y i] unfolding W1_def by blast
  have s1: "syncings W1 = syncings W" by (simp add: W1_def)
  have q1: "quiet W1" using Cons.prems(2) s1 evolvesD(3) [OF L1(3)] by (simp add: quiet_def)
  from Cons.IH [OF L1(1) this] obtain W' L' where
    ih: "nacks_loop pa y is sk [] rest W1 = rest sk [] W'" "good W' L' X n"
      "\<forall>ln. subseq (L' ln) (L1 ln)" "evolves (vals W1) W1 W'" "syncings W' = syncings W1" by blast
  have "nacks_loop pa y (i # is) sk [] rest W = rest sk [] W'"
    using ih(1) q1 nack_replacement_quiet [of W1 y i "[]"] by (simp add: Let_def W1_def quiet_def)
  moreover have "subseq (L' ln) (L ln)" for ln
    using ih(3) L1(2) by (meson subseq_order.order_trans)
  ultimately show ?case using ih(2,5) s1 evolves_trans [OF L1(3) ih(4)] by metis
qed

lemma conclude_quiet:
  assumes g: "good W L X n" and q: "quiet W"
  obtains W' L' where "conclude pa y i W = Done W'" "good W' L' X n" "\<And>ln. subseq (L' ln) (L ln)"
    "settles W W'" "syncings W' = (syncings W)(y := (syncings W y)\<lparr>y_result := Suc i\<rparr>)"
proof -
  define W1 where "W1 = set_sync_result y i W"
  define W2 where "W2 = forget_sync_box y W1"
  have fields: "semas W2 = semas W" "channels W2 = channels W" "channel_puts W2 = channel_puts W"
    "syncers W2 = syncers W" "syncings W2 = (syncings W)(y := (syncings W y)\<lparr>y_result := Suc i\<rparr>)"
    "replaces W2 = replaces W" "replaces W1 = replaces W"
    by (simp_all add: W2_def W1_def forget_sync_box_def set_sync_result_def suspend_breaks_def world_simps
        split: option.split)
  have sets: "y_set (syncings W2 z) = y_set (syncings W z)"
    "nackss (syncings W2 z) = nackss (syncings W z)" for z
    by (simp_all add: fields)
  have thr: "threads_ok W W2"
    by (simp add: W2_def W1_def forget_sync_box_def set_sync_result_def suspend_breaks_def threads_ok_def
        world_simps split: option.split)
  have "sets_ok W2" using g by (simp add: good_def sets_ok_def sets fields(4))
  then have g2: "good W2 L X n" by (rule good_subst [OF g fields(1-4)])
  have q2: "quiet W2" using q by (simp add: quiet_def sets fields)
  have "\<exists>W' L'. conclude pa y i W = Done W' \<and> good W' L' X n \<and>
      (\<forall>ln. subseq (L' ln) (L ln)) \<and> evolves (vals W2) W2 W' \<and> syncings W' = syncings W2"
    using nacks_loop_quiet [OF g2 q2, of pa y
        "case y_set (syncings W2 y) of None \<Rightarrow> [] | Some argv \<Rightarrow> [0..<length argv]" None "\<lambda>skip syncs W3. case syncs of [] \<Rightarrow> Done W3
          | (esc, next) # syncs' \<Rightarrow> syncing_nacks_loop pa 0 next esc skip syncs' W3"] q
    by (simp add: conclude_def scheme_post_syncing_nacks_def post_syncing_nacks_def Let_def fields(7)
        quiet_def W1_def [symmetric] W2_def [symmetric])
  then obtain W' L' where W': "conclude pa y i W = Done W'" "good W' L' X n"
    "\<And>ln. subseq (L' ln) (L ln)" "evolves (vals W2) W2 W'" "syncings W' = syncings W2" by blast
  have "settles W W2" using thr by (simp add: settles_def fields)
  then have "settles W W'" by (rule settles_trans [OF _ evolves_settles [OF W'(4)]])
  then show thesis using that W' fields(5) by metis
qed

lemma deliver_ok:
  assumes g: "good W L X n" and set: "y_set (syncings W y) = Some argv"
  obtains W' where "deliver y i v W = Done W'" "good W' L X n" "settles W W'"
    "syncings W' = (syncings W)(y := (syncings W y)\<lparr>y_set := Some (argv[i := Other_Obj v])\<rparr>)"
proof -
  define W' where "W' = upd_syncing y (\<lambda>t. t\<lparr>y_set := Some (argv[i := Other_Obj v])\<rparr>) W"
  have "Syncer w \<in> set argv" if "Syncer w \<in> set (argv[i := Other_Obj v])" for w
    using that set_update_subset_insert [of argv i "Other_Obj v"] by auto
  then have "sets_ok W'"
    using g set by (auto simp: good_def sets_ok_def W'_def world_simps)
  then have "good W' L X n" by (intro good_subst [OF g]) (simp_all add: W'_def world_simps)
  moreover have "settles W W'" by (simp add: settles_def W'_def world_simps)
  ultimately show thesis
    using that [of W'] set by (simp add: deliver_def W'_def world_simps)
qed

lemma good_set_picked:
  assumes g: "good W L X n" and w: "\<And>s. w_obj (syncers W w) \<noteq> Sema s"
  shows "good (set_picked w W) L X n"
proof -
  have ok: "lines W L X" using g by (simp add: good_def)
  define W' where "W' = set_picked w W"
  have S: "syncers W' x = (if x = w then (syncers W w)\<lparr>picked := True\<rparr> else syncers W x)"
    "semas W' = semas W" "syncings W' = syncings W" for x
    by (simp_all add: W'_def world_simps)
  have lo: "line_of W' e = line_of W e" for e by (simp add: W'_def world_simps)
  have "linked W' ln (L ln)" for ln
    by (rule linked_frame [OF linesD(1) [OF ok]]) (auto simp: W'_def world_simps)
  moreover have "\<not> picked (syncers W' x)" if "x \<in> set (L (Sema_Line s))" for x s
  proof -
    have "line_of W (w_obj (syncers W x)) = Some (Sema_Line s)" using linesD(2) [OF ok, of x] that by simp
    then have "x \<noteq> w" using w by (auto elim: line_of.elims)
    then show ?thesis using linesD(3) [OF ok that] by (simp add: S)
  qed
  ultimately have "lines W' L X"
    unfolding lines_def using linesD(2,4,5) [OF ok] by (auto simp: S lo)
  moreover have "waiting W' X = waiting W X" by (auto simp: waiting_def S)
  moreover have "sets_ok W'" using g by (simp add: good_def sets_ok_def S)
  ultimately show ?thesis using g by (simp add: good_def closed_empty_def W'_def [symmetric] S)
qed

section \<open>Picking a partner\<close>

text \<open>
  The outcome for the synchronization of a partner, or of the caller: it has the result for its entry
  \<open>i\<close>, and \<open>set\<close> is its event set.
\<close>

definition concluded :: "world \<Rightarrow> addr \<Rightarrow> nat \<Rightarrow> evt list option \<Rightarrow> bool" where
  "concluded W y i argv \<longleftrightarrow> y_result (syncings W y) = Suc i \<and> y_set (syncings W y) = argv"

lemma resume_last:
  assumes g: "good W L X n" and user: "running (threads W p) AND MZTHREAD_USER_SUSPENDED = 0"
  defines "W' \<equiv> scheme_weak_resume_thread p W"
  shows "good W' L X n" "settles W W'" "syncings W' = syncings W"
    "running (threads W' p) AND MZTHREAD_SUSPENDED = 0"
proof -
  have a: "aside W W'" unfolding W'_def by (rule aside_resume)
  show "good W' L X n" by (rule aside_good [OF a g])
  show "settles W W'" by (rule evolves_settles [OF aside_evolves [OF a]])
  show "syncings W' = syncings W"
    by (simp add: W'_def scheme_weak_resume_thread_def world_simps)
  show "running (threads W' p) AND MZTHREAD_SUSPENDED = 0"
    unfolding W'_def by (rule resume_runs [OF user])
qed

lemma finish_pick:
  assumes g: "good W2 L X n" and to2: "settles W W2" and pick: "can_pick w W"
    and w: "picked (syncers W2 w)" "w_syncing (syncers W w) = Some y"
      "y_result (syncings W2 y) = Suc (syncing_i (syncers W w))"
  defines "W' \<equiv> scheme_weak_resume_thread (w_p (syncers W2 w)) W2"
  shows "good W' L X n" "settles W W'" "syncings W' = syncings W2" "woken W' w"
proof -
  have role: "same_role (syncers W w) (syncers W2 w)" and thr: "threads_ok W W2"
    using to2 by (auto simp: settles_def)
  have p: "w_p (syncers W2 w) = w_p (syncers W w)" using role by (simp add: same_role_def)
  have user: "running (threads W2 (w_p (syncers W2 w))) AND MZTHREAD_USER_SUSPENDED = 0"
    using can_pick_not_suspended [OF pick] thr by (simp add: p threads_ok_def)
  note r = resume_last [OF g user, folded W'_def]
  show "good W' L X n" "syncings W' = syncings W2" by (rule r)+
  show to': "settles W W'" by (rule settles_trans [OF to2 r(2)])
  have "same_role (syncers W w) (syncers W' w)" "picked (syncers W' w)"
    using to' r(2) w(1) by (auto simp: settles_def)
  then show "woken W' w" using r(3,4) w(2,3) p by (simp add: woken_def same_role_def)
qed

lemma pick_sender_ok:
  assumes g: "good W L X n" and q: "quiet W" and w: "\<And>s. w_obj (syncers W w) \<noteq> Sema s"
    and pick: "can_pick w W" and y: "w_syncing (syncers W w) = Some y"
    and own: "\<And>u p. own = Some (u, p) \<Longrightarrow> u \<noteq> y \<and> y_set (syncings W u) \<noteq> None"
  obtains W' L' where "pick_sender pa own w y v W = Done W'" "good W' L' X n" "settles W W'" "woken W' w"
    "\<And>u p. own = Some (u, p) \<Longrightarrow>
       concluded W' u p (map_option (\<lambda>argv. argv[p := Other_Obj v]) (y_set (syncings W u)))"
proof -
  define i where "i = syncing_i (syncers W w)"
  define W0 where "W0 = set_picked w W"
  have g0: "good W0 L X n" unfolding W0_def by (rule good_set_picked [OF g w])
  have s0: "syncings W0 = syncings W" "settles W W0"
    by (simp_all add: W0_def world_simps settles_def same_role_def)
  have q0: "quiet W0" by (rule quiet_settles [OF q s0(2)]) (simp add: s0)
  obtain W1 L1 where W1: "conclude pa y i W0 = Done W1" "good W1 L1 X n" "settles W0 W1"
    "syncings W1 = (syncings W0)(y := (syncings W0 y)\<lparr>y_result := Suc i\<rparr>)"
    using conclude_quiet [OF g0 q0, of pa y i] by metis
  have q1: "quiet W1" by (rule quiet_settles [OF q0 W1(3)]) (simp add: W1(4))
  have "\<exists>W2 L2. (case own of None \<Rightarrow> Done W1
      | Some (u, p) \<Rightarrow> bind_run (conclude pa u p W1) (deliver u p v)) = Done W2 \<and>
      good W2 L2 X n \<and> settles W1 W2 \<and> y_result (syncings W2 y) = Suc i \<and>
      (\<forall>u p. own = Some (u, p) \<longrightarrow>
        concluded W2 u p (map_option (\<lambda>argv. argv[p := Other_Obj v]) (y_set (syncings W u))))"
  proof (cases own)
    case None
    then show ?thesis using W1 settles_refl by (intro exI [of _ W1] exI [of _ L1]) simp
  next
    case (Some up)
    obtain u p where up: "own = Some (u, p)" using Some by (cases up) auto
    obtain argv where argv: "y_set (syncings W u) = Some argv" and ne: "u \<noteq> y" using own [OF up] by auto
    obtain Wa La where Wa: "conclude pa u p W1 = Done Wa" "good Wa La X n" "settles W1 Wa"
      "syncings Wa = (syncings W1)(u := (syncings W1 u)\<lparr>y_result := Suc p\<rparr>)"
      using conclude_quiet [OF W1(2) q1, of pa u p] by metis
    have "y_set (syncings Wa u) = Some argv" using argv ne by (simp add: Wa(4) W1(4) s0)
    from deliver_ok [OF Wa(2) this, of p v] obtain Wb where Wb: "deliver u p v Wa = Done Wb"
      "good Wb La X n" "settles Wa Wb"
      "syncings Wb = (syncings Wa)(u := (syncings Wa u)\<lparr>y_set := Some (argv[p := Other_Obj v])\<rparr>)" by metis
    then show ?thesis
      using Wa settles_trans [OF Wa(3) Wb(3)] up argv ne
      by (intro exI [of _ Wb] exI [of _ La]) (auto simp: concluded_def W1(4))
  qed
  then obtain W2 L2 where W2: "(case own of None \<Rightarrow> Done W1
      | Some (u, p) \<Rightarrow> bind_run (conclude pa u p W1) (deliver u p v)) = Done W2"
      "good W2 L2 X n" "settles W1 W2" "y_result (syncings W2 y) = Suc i"
      "\<And>u p. own = Some (u, p) \<Longrightarrow>
        concluded W2 u p (map_option (\<lambda>argv. argv[p := Other_Obj v]) (y_set (syncings W u)))"
    by blast
  have to2: "settles W W2" by (rule settles_trans [OF settles_trans [OF s0(2) W1(3)] W2(3)])
  have "picked (syncers W2 w)"
    using W1(3) W2(3) by (simp add: settles_def W0_def world_simps)
  note r = finish_pick [OF W2(2) to2 pick this y W2(4) [unfolded i_def]]
  show thesis
  proof (rule that [OF _ r(1,2,4)])
    show "pick_sender pa own w y v W = Done (scheme_weak_resume_thread (w_p (syncers W2 w)) W2)"
      using W1(1) W2(1) by (simp add: pick_sender_def W0_def i_def split: option.splits prod.splits)
  qed (use W2(5) r(3) in \<open>simp add: concluded_def\<close>)
qed

lemma pick_receiver_ok:
  assumes g: "good W L X n" and q: "quiet W" and w: "\<And>s. w_obj (syncers W w) \<noteq> Sema s"
    and pick: "can_pick w W" and y: "w_syncing (syncers W w) = Some y"
    and set: "y_set (syncings W y) = Some argv" and own: "\<And>u p. own = Some (u, p) \<Longrightarrow> u \<noteq> y"
  obtains W' L' where "pick_receiver pa own w y v W = Done W'" "good W' L' X n" "settles W W'"
    "woken W' w" "y_set (syncings W' y) = Some (argv[syncing_i (syncers W w) := Other_Obj v])"
    "\<And>u p. own = Some (u, p) \<Longrightarrow> concluded W' u p (y_set (syncings W u))"
proof -
  define i where "i = syncing_i (syncers W w)"
  define Wp where "Wp = set_picked w W"
  have gp: "good Wp L X n" unfolding Wp_def by (rule good_set_picked [OF g w])
  have sp: "syncings Wp = syncings W" "settles W Wp" "syncing_i (syncers Wp w) = i"
    by (simp_all add: Wp_def world_simps settles_def same_role_def i_def)
  have "y_set (syncings Wp y) = Some argv" using set by (simp add: sp)
  from deliver_ok [OF gp this, of i v] obtain W0 where W0: "deliver y i v Wp = Done W0" "good W0 L X n"
    "settles Wp W0"
    "syncings W0 = (syncings Wp)(y := (syncings Wp y)\<lparr>y_set := Some (argv[i := Other_Obj v])\<rparr>)" by metis
  have i0: "syncing_i (syncers W0 w) = i" using W0(3) sp(3) by (simp add: settles_def same_role_def)
  have q0: "quiet W0"
    by (rule quiet_settles [OF q settles_trans [OF sp(2) W0(3)]]) (simp add: W0(4) sp(1))
  obtain W1 L1 where W1: "conclude pa y i W0 = Done W1" "good W1 L1 X n" "settles W0 W1"
    "syncings W1 = (syncings W0)(y := (syncings W0 y)\<lparr>y_result := Suc i\<rparr>)"
    using conclude_quiet [OF W0(2) q0, of pa y i] by metis
  have q1: "quiet W1" by (rule quiet_settles [OF q0 W1(3)]) (simp add: W1(4))
  have "\<exists>W2 L2. (case own of None \<Rightarrow> Done W1 | Some (u, p) \<Rightarrow> conclude pa u p W1) = Done W2 \<and>
      good W2 L2 X n \<and> settles W1 W2 \<and> syncings W2 y = syncings W1 y \<and>
      (\<forall>u p. own = Some (u, p) \<longrightarrow> concluded W2 u p (y_set (syncings W u)))"
  proof (cases own)
    case None
    then show ?thesis using W1 settles_refl by (intro exI [of _ W1] exI [of _ L1]) simp
  next
    case (Some up)
    obtain u p where up: "own = Some (u, p)" using Some by (cases up) auto
    obtain Wa La where "conclude pa u p W1 = Done Wa" "good Wa La X n" "settles W1 Wa"
      "syncings Wa = (syncings W1)(u := (syncings W1 u)\<lparr>y_result := Suc p\<rparr>)"
      using conclude_quiet [OF W1(2) q1, of pa u p] by metis
    then show ?thesis
      using up own [OF up] by (intro exI [of _ Wa] exI [of _ La])
        (auto simp: concluded_def W1(4) W0(4) sp(1))
  qed
  then obtain W2 L2 where W2: "(case own of None \<Rightarrow> Done W1 | Some (u, p) \<Rightarrow> conclude pa u p W1) = Done W2"
    "good W2 L2 X n" "settles W1 W2" "syncings W2 y = syncings W1 y"
    "\<And>u p. own = Some (u, p) \<Longrightarrow> concluded W2 u p (y_set (syncings W u))" by blast
  have to2: "settles W W2"
    by (rule settles_trans [OF settles_trans [OF settles_trans [OF sp(2) W0(3)] W1(3)] W2(3)])
  have "picked (syncers W2 w)"
    using W0(3) W1(3) W2(3) by (simp add: settles_def Wp_def world_simps)
  note r = finish_pick [OF W2(2) to2 pick this y]
  have res: "y_result (syncings W2 y) = Suc (syncing_i (syncers W w))" by (simp add: W2(4) W1(4) i_def)
  show thesis
  proof (rule that [OF _ r(1,2,4) [OF res]])
    show "pick_receiver pa own w y v W = Done (scheme_weak_resume_thread (w_p (syncers W2 w)) W2)"
      using W0(1) W1(1) W2(1) i0
      by (simp add: pick_receiver_def Wp_def [symmetric] i_def [symmetric] split: option.splits prod.splits)
  qed (use W2(4,5) r(3) [OF res] in \<open>simp_all add: concluded_def W1(4) W0(4) i_def\<close>)
qed

section \<open>Searching a line\<close>

lemma good_leave:
  assumes g: "good W L X n" and ln: "line_of W ev = Some ln" "line_of W (w_obj (syncers W w)) = Some ln"
    and w: "w \<notin> X"
  defines "W' \<equiv> get_outof_line ev w W"
  shows "good W' (L(ln := remove1 w (L ln))) X n" "settles W W'" "\<not> in_line (syncers W' w)"
proof -
  have ok: "lines W L X" and fin: "finite (waiting W X)" using g by (auto simp: good_def)
  have ok': "lines W' (L(ln := remove1 w (L ln))) X"
    unfolding W'_def by (rule lines_get_outof_line [OF ok ln w])
  have keep: "same_role (syncers W x) (syncers W' x)" "picked (syncers W' x) = picked (syncers W x)"
    "s_value (semas W' x) = s_value (semas W x)" "channel_puts W' = channel_puts W"
    "syncings W' = syncings W" "threads W' = threads W" "replaces W' = replaces W" for x
    by (simp_all add: W'_def get_outof_line_keeps(1,2) world_simps)
  have inl: "in_line (syncers W x)" if "in_line (syncers W' x)" for x
    using that unfolding W'_def by (rule get_outof_line_keeps(3))
  show "settles W W'" using inl by (simp add: settles_def keep)
  have first: "s_first (semas W' x) = None" if "s_first (semas W x) = None" for x
    by (rule lines_first_None [OF ok ok' _ that]) (simp add: subseq_remove1)
  have sub: "waiting W' X \<subseteq> waiting W X" using inl by (auto simp: waiting_def)
  have role: "w_obj (syncers W' x) = w_obj (syncers W x)" for x
    using keep(1) [of x] by (simp add: same_role_def)
  have "sets_ok W'" using g by (simp add: good_def sets_ok_def keep role)
  moreover have "closed_empty W'" using g first by (simp add: good_def closed_empty_def keep)
  ultimately show "good W' (L(ln := remove1 w (L ln))) X n"
    using g ok' finite_subset [OF sub fin] card_mono [OF fin sub] by (simp add: good_def)
  have "w \<notin> set (remove1 w (L ln))" using linesD(1) [OF ok, of ln] by (simp add: linked_def)
  moreover have "line_of W' (w_obj (syncers W' w)) = Some ln"
    using ln(2) line_of_cong [of W' W] by (simp add: keep role)
  ultimately show "\<not> in_line (syncers W' w)"
    using linesD(2) [OF ok', of w ln] w by simp
qed

lemma line_flags [world_simps]:
  "all_breaks_disabled (set_line ln f l W) = all_breaks_disabled W"
  "no_stack_overflow (set_line ln f l W) = no_stack_overflow W"
  "all_breaks_disabled (set_next a v W) = all_breaks_disabled W"
  "no_stack_overflow (set_next a v W) = no_stack_overflow W"
  "all_breaks_disabled (set_prev a v W) = all_breaks_disabled W"
  "no_stack_overflow (set_prev a v W) = no_stack_overflow W"
  by (cases ln; simp add: world_simps set_next_def set_prev_def split: option.split)+

lemma can_pick_leave: "can_pick x (get_outof_line ev w W) = can_pick x W"
proof (rule can_pick_cong)
  show "all_breaks_disabled (get_outof_line ev w W) = all_breaks_disabled W"
    "no_stack_overflow (get_outof_line ev w W) = no_stack_overflow W"
    by (simp_all add: get_outof_line_def Let_def world_simps split: option.split)
qed (use get_outof_line_keeps(1) [of W x ev w] in \<open>simp_all add: same_role_def world_simps\<close>)

lemma settles_woken:
  assumes "settles W W'" and "syncings W' = syncings W" and "woken W w"
  shows "woken W' w"
  using assms by (auto simp: woken_def settles_def same_role_def threads_ok_def split: option.splits)

text \<open>Waiters that the search passes by: of the same synchronization, or not to be picked.\<close>

definition passed :: "addr option \<Rightarrow> world \<Rightarrow> addr \<Rightarrow> bool" where
  "passed sy W a \<longleftrightarrow> w_syncing (syncers W a) = sy \<or> w_syncing (syncers W a) \<noteq> None \<and> \<not> can_pick a W"

lemma passed_leave: "passed sy (get_outof_line ev w W) a = passed sy W a"
  using get_outof_line_keeps(1) [of W a ev w] by (simp add: passed_def can_pick_leave same_role_def)

lemma put_line_obj: "line_of W e = Some (Put_Line c) \<Longrightarrow> \<exists>q. e = Channel_Put q"
  by (cases e) simp_all

lemma get_line_obj: "line_of W e = Some (Get_Line c) \<longleftrightarrow> e = Channel c"
  by (cases e) simp_all

text \<open>The loops at a waiter that is the partner.\<close>

lemma try_get_hit:
  assumes "good W L {} n" and "quiet W" and "L (Put_Line c) = pre @ w # bs" and "0 < k" and "can_pick w W"
    and "w_syncing (syncers W w) = Some y" "sy \<noteq> Some y"
    and "\<And>u p. own_target sy pos = Some (u, p) \<Longrightarrow> y_set (syncings W u) \<noteq> None"
    and "w_obj (syncers W w) = Channel_Put q"
  shows "\<exists>W' L'. try_get_loop pa k sy pos (Some w) W = Done (Some (chp_val (channel_puts W q)), W') \<and>
           good W' L' {} n \<and> woken W' w \<and> \<not> in_line (syncers W' w) \<and>
           (\<forall>u p. own_target sy pos = Some (u, p) \<longrightarrow>
              concluded W' u p (map_option (\<lambda>argv. argv[p := Other_Obj (chp_val (channel_puts W q))])
                (y_set (syncings W u))))"
proof -
  let ?v = "chp_val (channel_puts W q)"
  obtain k' where k: "k = Suc k'" using assms(4) by (cases k) auto
  have ok: "lines W L {}" using assms(1) by (simp add: good_def)
  have lo: "line_of W (w_obj (syncers W w)) = Some (Put_Line c)"
    using linesD(2) [OF ok, of w "Put_Line c"] assms(3) by simp
  have own: "u \<noteq> y \<and> y_set (syncings W u) \<noteq> None" if "own_target sy pos = Some (u, p)" for u p
    using assms(7) assms(8) [OF that] that by (auto simp: own_target_def split: option.splits)
  obtain W1 L1 where W1: "pick_sender pa (own_target sy pos) w y ?v W = Done W1" "good W1 L1 {} n"
    "settles W W1" "woken W1 w"
    "\<And>u p. own_target sy pos = Some (u, p) \<Longrightarrow>
       concluded W1 u p (map_option (\<lambda>argv. argv[p := Other_Obj ?v]) (y_set (syncings W u)))"
    by (rule pick_sender_ok [OF assms(1,2) _ assms(5,6) own, where pa = pa and v = ?v])
      (use assms(9) in auto)
  define W' where "W' = get_outof_line (Channel_Put q) w W1"
  have lo1: "line_of W1 (w_obj (syncers W1 w)) = Some (Put_Line c)" "w_obj (syncers W1 w) = Channel_Put q"
    using lo W1(3) assms(9) line_of_cong [of W1 W] by (auto simp: settles_def same_role_def)
  note gl = good_leave [OF W1(2) lo1(1) [unfolded lo1(2)] lo1(1), folded W'_def, simplified]
  have sy: "syncings W' = syncings W1" by (simp add: W'_def world_simps)
  have "woken W' w" by (rule settles_woken [OF gl(2) sy W1(4)])
  moreover have "try_get_loop pa k sy pos (Some w) W = Done (Some ?v, W')"
    using W1(1) assms(5-7,9) by (simp add: k W'_def)
  ultimately show ?thesis
    using gl(1,3) W1(5) by (auto simp: concluded_def sy)
qed

lemma try_get_finds:
  assumes "good W L {} n" and "quiet W" and "L (Put_Line c) = pre @ as @ w # bs" and "length as < k"
    and "\<forall>a\<in>set as. passed sy W a" and "can_pick w W"
    and "w_syncing (syncers W w) = Some y" "sy \<noteq> Some y"
    and "\<And>u p. own_target sy pos = Some (u, p) \<Longrightarrow> y_set (syncings W u) \<noteq> None"
    and "w_obj (syncers W w) = Channel_Put q"
  shows "\<exists>W' L'. try_get_loop pa k sy pos (hd_ptr (as @ w # bs) None) W =
             Done (Some (chp_val (channel_puts W q)), W') \<and>
           good W' L' {} n \<and> woken W' w \<and> \<not> in_line (syncers W' w) \<and>
           (\<forall>u p. own_target sy pos = Some (u, p) \<longrightarrow>
              concluded W' u p (map_option (\<lambda>argv. argv[p := Other_Obj (chp_val (channel_puts W q))])
                (y_set (syncings W u))))"
  using assms
proof (induction as arbitrary: W L pre k)
  case (Cons a as)
  have ok: "lines W L {}" using Cons.prems(1) by (simp add: good_def)
  obtain k' where k: "k = Suc k'" using Cons.prems(4) by (cases k) auto
  have l: "linked W (Put_Line c) (pre @ a # (as @ w # bs))"
    using linesD(1) [OF ok, of "Put_Line c"] Cons.prems(3) by simp
  note parts = linked_split [OF l]
  have lo: "line_of W (w_obj (syncers W a)) = Some (Put_Line c)"
    using linesD(2) [OF ok, of a "Put_Line c"] Cons.prems(3) by simp
  obtain qa where qa: "w_obj (syncers W a) = Channel_Put qa" using put_line_obj [OF lo] by blast
  show ?case
  proof (cases "w_syncing (syncers W a) = sy")
    case True
    have "try_get_loop pa k sy pos (hd_ptr ((a # as) @ w # bs) None) W =
        try_get_loop pa k' sy pos (hd_ptr (as @ w # bs) None) W"
      using True parts(2) by (simp add: k)
    then show ?thesis
      using Cons.IH [of W L "pre @ [a]" k'] Cons.prems k by simp
  next
    case False
    define W1 where "W1 = get_outof_line (Channel_Put qa) a W"
    note gl = good_leave [OF Cons.prems(1) lo [unfolded qa] lo, folded W1_def, simplified]
    obtain ya where ya: "w_syncing (syncers W a) = Some ya" "\<not> can_pick a W"
      using Cons.prems(5) False by (auto simp: passed_def)
    have eq: "try_get_loop pa k sy pos (hd_ptr ((a # as) @ w # bs) None) W =
        try_get_loop pa k' sy pos (hd_ptr (as @ w # bs) None) W1"
      using False ya parts(2) by (simp add: k qa W1_def)
    have L1: "(L(Put_Line c := remove1 a (L (Put_Line c)))) (Put_Line c) = pre @ as @ w # bs"
      using parts(3) Cons.prems(3) by (simp add: remove1_append)
    have keep: "channel_puts W1 = channel_puts W" "syncings W1 = syncings W" "replaces W1 = replaces W"
      by (simp_all add: W1_def world_simps)
    have role: "w_syncing (syncers W1 x) = w_syncing (syncers W x)"
      "w_obj (syncers W1 x) = w_obj (syncers W x)" for x
      using gl(2) by (simp_all add: settles_def same_role_def)
    show ?thesis
      unfolding eq
      using Cons.IH [OF gl(1) _ L1, of k'] Cons.prems k
      by (simp add: keep role quiet_def W1_def [symmetric] passed_leave
          can_pick_leave [of w "Channel_Put qa" a W, folded W1_def]
          passed_leave [of sy "Channel_Put qa" a W, folded W1_def])
  qed
qed (use try_get_hit in auto)

lemma try_put_hit:
  assumes "good W L {} n" and "quiet W" and "L (Get_Line c) = pre @ w # bs" and "0 < k" and "can_pick w W"
    and "w_syncing (syncers W w) = Some y" "sy \<noteq> Some y" and "y_set (syncings W y) = Some argv"
  shows "\<exists>W' L'. try_put_loop pa k sy pos c v (Some w) W = Done (Some v, W') \<and>
           good W' L' {} n \<and> woken W' w \<and> \<not> in_line (syncers W' w) \<and>
           y_set (syncings W' y) = Some (argv[syncing_i (syncers W w) := Other_Obj v]) \<and>
           (\<forall>u p. own_target sy pos = Some (u, p) \<longrightarrow> concluded W' u p (y_set (syncings W u)))"
proof -
  obtain k' where k: "k = Suc k'" using assms(4) by (cases k) auto
  have ok: "lines W L {}" using assms(1) by (simp add: good_def)
  have obj: "w_obj (syncers W w) = Channel c"
    using linesD(2) [OF ok, of w "Get_Line c"] assms(3) by (simp add: get_line_obj)
  have own: "u \<noteq> y" if "own_target sy pos = Some (u, p)" for u p
    using assms(7) that by (auto simp: own_target_def split: option.splits)
  obtain W1 L1 where W1: "pick_receiver pa (own_target sy pos) w y v W = Done W1" "good W1 L1 {} n"
    "settles W W1" "woken W1 w"
    "y_set (syncings W1 y) = Some (argv[syncing_i (syncers W w) := Other_Obj v])"
    "\<And>u p. own_target sy pos = Some (u, p) \<Longrightarrow> concluded W1 u p (y_set (syncings W u))"
    by (rule pick_receiver_ok [OF assms(1,2) _ assms(5,6,8) own, where pa = pa and v = v])
      (use obj in auto)
  define W' where "W' = get_outof_line (Channel c) w W1"
  have "w_obj (syncers W1 w) = Channel c" using W1(3) obj by (simp add: settles_def same_role_def)
  then have lo1: "line_of W1 (w_obj (syncers W1 w)) = Some (Get_Line c)" by simp
  note gl = good_leave [OF W1(2) _ lo1, of "Channel c", folded W'_def, simplified]
  have sy: "syncings W' = syncings W1" by (simp add: W'_def world_simps)
  have "woken W' w" by (rule settles_woken [OF gl(2) sy W1(4)])
  moreover have "try_put_loop pa k sy pos c v (Some w) W = Done (Some v, W')"
    using W1(1) assms(5-7) by (simp add: k W'_def)
  ultimately show ?thesis
    using gl(1,3) W1(5,6) by (auto simp: concluded_def sy)
qed

lemma try_put_finds:
  assumes "good W L {} n" and "quiet W" and "L (Get_Line c) = pre @ as @ w # bs" and "length as < k"
    and "\<forall>a\<in>set as. passed sy W a" and "can_pick w W"
    and "w_syncing (syncers W w) = Some y" "sy \<noteq> Some y" and "y_set (syncings W y) = Some argv"
  shows "\<exists>W' L'. try_put_loop pa k sy pos c v (hd_ptr (as @ w # bs) None) W = Done (Some v, W') \<and>
           good W' L' {} n \<and> woken W' w \<and> \<not> in_line (syncers W' w) \<and>
           y_set (syncings W' y) = Some (argv[syncing_i (syncers W w) := Other_Obj v]) \<and>
           (\<forall>u p. own_target sy pos = Some (u, p) \<longrightarrow> concluded W' u p (y_set (syncings W u)))"
  using assms
proof (induction as arbitrary: W L pre k)
  case (Cons a as)
  have ok: "lines W L {}" using Cons.prems(1) by (simp add: good_def)
  obtain k' where k: "k = Suc k'" using Cons.prems(4) by (cases k) auto
  have l: "linked W (Get_Line c) (pre @ a # (as @ w # bs))"
    using linesD(1) [OF ok, of "Get_Line c"] Cons.prems(3) by simp
  note parts = linked_split [OF l]
  have lo: "line_of W (w_obj (syncers W a)) = Some (Get_Line c)"
    using linesD(2) [OF ok, of a "Get_Line c"] Cons.prems(3) by simp
  show ?case
  proof (cases "w_syncing (syncers W a) = sy")
    case True
    then show ?thesis
      using Cons.IH [of W L "pre @ [a]" k'] Cons.prems k parts(2) by simp
  next
    case False
    define W1 where "W1 = get_outof_line (Channel c) a W"
    note gl = good_leave [OF Cons.prems(1) _ lo, of "Channel c", folded W1_def, simplified]
    obtain ya where ya: "w_syncing (syncers W a) = Some ya" "\<not> can_pick a W"
      using Cons.prems(5) False by (auto simp: passed_def)
    have eq: "try_put_loop pa k sy pos c v (hd_ptr ((a # as) @ w # bs) None) W =
        try_put_loop pa k' sy pos c v (hd_ptr (as @ w # bs) None) W1"
      using False ya parts(2) by (simp add: k W1_def)
    have L1: "(L(Get_Line c := remove1 a (L (Get_Line c)))) (Get_Line c) = pre @ as @ w # bs"
      using parts(3) Cons.prems(3) by (simp add: remove1_append)
    have keep: "syncings W1 = syncings W" "replaces W1 = replaces W" by (simp_all add: W1_def world_simps)
    have role: "w_syncing (syncers W1 x) = w_syncing (syncers W x)"
      "syncing_i (syncers W1 x) = syncing_i (syncers W x)" for x
      using gl(2) by (simp_all add: settles_def same_role_def)
    show ?thesis
      unfolding eq
      using Cons.IH [OF gl(1) _ L1, of k'] Cons.prems k
      by (simp add: keep role quiet_def can_pick_leave [of w "Channel c" a W, folded W1_def]
          passed_leave [of sy "Channel c" a W, folded W1_def])
  qed
qed (use try_put_hit in auto)

end
