(* ===== verification/Mailbox.thy ===== *)
theory Mailbox
  imports SyncPosts
begin

text \<open>
  Thread mailboxes of \<open>sema.c\<close>: a singly linked list of raw pairs with a pointer to its last pair, and
  a semaphore that counts the messages. The locale \<open>fifo\<close> is the contract of a bounded queue; the
  mailbox of a thread that is not waiting is an instance of it.
\<close>

section \<open>Operations\<close>

definition make_mbox_sema :: "addr \<Rightarrow> world \<Rightarrow> world" where
  "make_mbox_sema p W =
     (if mbox_sema (threads W p) = None
      then upd_thread p (\<lambda>t. t\<lparr>mbox_sema := Some (fresh W)\<rparr>)
             (W\<lparr>semas := (semas W)(fresh W := \<lparr>s_first = None, s_last = None, s_value = 0\<rparr>),
                fresh := fresh W + 1\<rparr>)
      else W)"

text \<open>\<open>scheme_make_raw_pair (car, cdr)\<close>\<close>

definition make_raw_pair :: "nat \<Rightarrow> addr option \<Rightarrow> world \<Rightarrow> addr \<times> world" where
  "make_raw_pair car cdr W =
     (fresh W, W\<lparr>cells := (cells W)(fresh W := (car, cdr)), fresh := fresh W + 1\<rparr>)"

definition post_mbox :: "nat \<Rightarrow> addr \<Rightarrow> world \<Rightarrow> world run" where
  "post_mbox n p W =
     (case mbox_sema (threads W p) of None \<Rightarrow> Undefined | Some s \<Rightarrow> scheme_post_sema n s W)"

definition mbox_push :: "nat \<Rightarrow> addr \<Rightarrow> nat \<Rightarrow> world \<Rightarrow> world run" where
  "mbox_push n p x W =
     (let (nx, W1) = make_raw_pair x None W
      in bind_run
           (if mbox_first (threads W1 p) \<noteq> None then
              (case mbox_last (threads W1 p) of
                 None \<Rightarrow> Undefined
               | Some l \<Rightarrow>
                   Done (upd_thread p (\<lambda>t. t\<lparr>mbox_last := Some nx\<rparr>)
                     (W1\<lparr>cells := (cells W1)(l := (fst (cells W1 l), Some nx))\<rparr>)))
            else Done (upd_thread p (\<lambda>t. t\<lparr>mbox_first := Some nx, mbox_last := Some nx\<rparr>) W1))
           (\<lambda>W2. post_mbox n p (make_mbox_sema p W2)))"

text \<open>
  The loop of \<open>mbox_push_front\<close>, which posts once for every 257 messages: \<open>cnt\<close> counts from -1, is
  added to the value, and the post adds one more.
\<close>

definition add_value :: "int \<Rightarrow> addr \<Rightarrow> world \<Rightarrow> world" where
  "add_value cnt s = upd_sema s (\<lambda>t. t\<lparr>s_value := s_value t + word_of_int cnt\<rparr>)"

fun push_front_loop :: "nat \<Rightarrow> addr \<Rightarrow> int \<Rightarrow> nat list \<Rightarrow> world \<Rightarrow> world run" where
  "push_front_loop n p cnt [] W = Done W"
| "push_front_loop n p cnt (x # next) W =
     (let (hd, W1) = make_raw_pair x (mbox_first (threads W p)) W;
          W2 = (if mbox_first (threads W1 p) = None
                then upd_thread p (\<lambda>t. t\<lparr>mbox_last := Some hd\<rparr>) W1 else W1);
          W3 = upd_thread p (\<lambda>t. t\<lparr>mbox_first := Some hd\<rparr>) W2;
          cnt' = cnt + 1
      in if next = [] \<or> cnt' = 256
         then case mbox_sema (threads W3 p) of None \<Rightarrow> Undefined
              | Some s \<Rightarrow> bind_run (scheme_post_sema n s (add_value cnt' s W3))
                           (push_front_loop n p (- 1) next)
         else push_front_loop n p cnt' next W3)"

definition mbox_push_front :: "nat \<Rightarrow> addr \<Rightarrow> nat list \<Rightarrow> world \<Rightarrow> world run" where
  "mbox_push_front n p lst W = push_front_loop n p (- 1) lst (make_mbox_sema p W)"

text \<open>\<open>None\<close> where the assertion \<open>mbox_first != NULL\<close> fails.\<close>

definition mbox_pop :: "addr \<Rightarrow> bool \<Rightarrow> world \<Rightarrow> (nat \<times> world) option" where
  "mbox_pop p dec W =
     (case mbox_first (threads W p) of
        None \<Rightarrow> None
      | Some c \<Rightarrow>
          (let r = fst (cells W c);
               W1 = upd_thread p (\<lambda>t. t\<lparr>mbox_first := snd (cells W c)\<rparr>) W;
               W2 = (if mbox_first (threads W1 p) = None
                     then upd_thread p (\<lambda>t. t\<lparr>mbox_last := None\<rparr>) W1 else W1)
           in if dec
              then case mbox_sema (threads W2 p) of None \<Rightarrow> None
                   | Some s \<Rightarrow> Some (r, snd (scheme_try_plain_sema s W2))
              else Some (r, W2)))"

text \<open>
  The primitives. Sending to a thread that is not running calls the failure thunk if there is one
  (\<open>Some None\<close> is \<open>#f\<close>).
\<close>

datatype send_outcome = Sent "world run" | Send_False | Send_Call nat | Send_Error

definition thread_send :: "nat \<Rightarrow> addr \<Rightarrow> nat \<Rightarrow> nat option option \<Rightarrow> world \<Rightarrow> send_outcome" where
  "thread_send n p x fail W =
     (if running (threads W p) \<noteq> 0 \<and> running (threads W p) AND MZTHREAD_KILLED = 0
      then Sent (mbox_push n p x W)
      else case fail of None \<Rightarrow> Send_Error | Some None \<Rightarrow> Send_False | Some (Some f) \<Rightarrow> Send_Call f)"

text \<open>\<open>None\<close> is the result \<open>#f\<close>.\<close>

definition thread_try_receive :: "world \<Rightarrow> (nat option \<times> world) option" where
  "thread_try_receive W =
     (let p = current_thread W
      in if mbox_first (threads W p) \<noteq> None
         then map_option (\<lambda>(v, W1). (Some v, W1)) (mbox_pop p True W)
         else Some (None, W))"

definition thread_rewind_receive :: "nat \<Rightarrow> nat list \<Rightarrow> world \<Rightarrow> world run" where
  "thread_rewind_receive n lst W = mbox_push_front n (current_thread W) lst W"

section \<open>The contract of a queue\<close>

fun push_all :: "('a \<Rightarrow> 's \<Rightarrow> 's run) \<Rightarrow> 'a list \<Rightarrow> 's \<Rightarrow> 's run" where
  "push_all push [] s = Done s"
| "push_all push (x # xs) s = bind_run (push x s) (push_all push xs)"

fun drain :: "('s \<Rightarrow> ('a \<times> 's) option) \<Rightarrow> nat \<Rightarrow> 's \<Rightarrow> 'a list" where
  "drain pop 0 s = []"
| "drain pop (Suc k) s = (case pop s of None \<Rightarrow> [] | Some (x, s') \<Rightarrow> x # drain pop k s')"

locale fifo =
  fixes rep :: "'s \<Rightarrow> 'a list \<Rightarrow> bool"
    and push :: "'a \<Rightarrow> 's \<Rightarrow> 's run"
    and pop :: "'s \<Rightarrow> ('a \<times> 's) option"
    and cap :: nat
  assumes push_ok: "rep s xs \<Longrightarrow> length xs < cap \<Longrightarrow> \<exists>s'. push x s = Done s' \<and> rep s' (xs @ [x])"
    and pop_ok: "rep s (x # xs) \<Longrightarrow> \<exists>s'. pop s = Some (x, s') \<and> rep s' xs"
    and pop_empty: "rep s [] \<Longrightarrow> pop s = None"
begin

lemma push_all_ok:
  "rep s xs \<Longrightarrow> length (xs @ ys) \<le> cap \<Longrightarrow> \<exists>s'. push_all push ys s = Done s' \<and> rep s' (xs @ ys)"
proof (induction ys arbitrary: s xs)
  case (Cons y ys)
  obtain s1 where s1: "push y s = Done s1" "rep s1 (xs @ [y])"
    using push_ok [OF Cons.prems(1), of y] Cons.prems(2) by auto
  then show ?case using Cons.IH [OF s1(2)] Cons.prems(2) by simp
qed simp

lemma drain_ok: "rep s xs \<Longrightarrow> drain pop k s = take k xs"
proof (induction k arbitrary: s xs)
  case (Suc k)
  show ?case
  proof (cases xs)
    case Nil
    then show ?thesis using pop_empty Suc.prems by simp
  next
    case (Cons x ys)
    then obtain s' where "pop s = Some (x, s')" "rep s' ys" using pop_ok Suc.prems by blast
    then show ?thesis using Suc.IH Cons by simp
  qed
qed simp

lemma push_then_drain:
  "rep s xs \<Longrightarrow> length (xs @ ys) \<le> cap \<Longrightarrow>
   \<exists>s'. push_all push ys s = Done s' \<and> (\<forall>k. drain pop k s' = take k (xs @ ys))"
  using push_all_ok drain_ok by blast

end

section \<open>The mailbox as a queue\<close>

fun chain :: "(addr \<Rightarrow> nat \<times> addr option) \<Rightarrow> addr option \<Rightarrow> addr list \<Rightarrow> bool" where
  "chain C p [] \<longleftrightarrow> p = None"
| "chain C p (a # as) \<longleftrightarrow> p = Some a \<and> chain C (snd (C a)) as"

text \<open>
  The messages \<open>xs\<close> in the mailbox of \<open>p\<close>, whose owner is not waiting: nobody is in line for the
  semaphore, and its value is the number of messages.
\<close>

definition mbox_list :: "addr \<Rightarrow> world \<Rightarrow> nat list \<Rightarrow> bool" where
  "mbox_list p W xs \<longleftrightarrow>
     (\<exists>as. chain (cells W) (mbox_first (threads W p)) as \<and> distinct as \<and>
        mbox_last (threads W p) = last_ptr None as \<and> (\<forall>a\<in>set as. a < fresh W) \<and>
        xs = map (\<lambda>a. fst (cells W a)) as)"

definition mbox_count :: "addr \<Rightarrow> world \<Rightarrow> int \<Rightarrow> bool" where
  "mbox_count p W k \<longleftrightarrow>
     (case mbox_sema (threads W p) of
        None \<Rightarrow> k = 0
      | Some s \<Rightarrow> s < fresh W \<and> s_first (semas W s) = None \<and> vals W s = k)"

definition mbox_rep :: "addr \<Rightarrow> world \<Rightarrow> nat list \<Rightarrow> bool" where
  "mbox_rep p W xs \<longleftrightarrow> mbox_list p W xs \<and> mbox_count p W (int (length xs))"

lemma chain_cong: "(\<And>a. a \<in> set as \<Longrightarrow> snd (C' a) = snd (C a)) \<Longrightarrow> chain C' p as = chain C p as"
  by (induction as arbitrary: p) auto

lemma chain_snoc:
  assumes "chain C p as" and "distinct as" and "b \<notin> set as" and "snd (C' b) = None"
    and "\<And>a. a \<in> set as \<Longrightarrow> snd (C' a) = (if a = last as then Some b else snd (C a))"
  shows "chain C' (if as = [] then Some b else p) (as @ [b])"
  using assms
proof (induction as arbitrary: p)
  case (Cons a as)
  show ?case
  proof (cases "as = []")
    case False
    then have "snd (C' a) = snd (C a)" using Cons.prems by auto
    moreover have "chain C' (if as = [] then Some b else snd (C a)) (as @ [b])"
      by (rule Cons.IH) (use Cons.prems False in \<open>auto split: if_splits\<close>)
    ultimately show ?thesis using Cons.prems(1) False by simp
  qed (use Cons.prems in simp)
qed simp

lemma post_idle:
  assumes "s_first (semas W s) = None" and "0 \<le> vals W s" and "vals W s < 2 ^ 31 - 1"
  defines "W' \<equiv> upd_sema s (\<lambda>t. t\<lparr>s_value := next_value (s_value (semas W s))\<rparr>) W"
  shows "scheme_post_sema n s W = Done W'" and "vals W' s = vals W s + 1"
proof -
  have "s_value (semas W s) <s next_value (s_value (semas W s))"
    using next_value_less [OF assms(2)] assms(3) by simp
  then show "scheme_post_sema n s W = Done W'"
    using assms(1,2) by (simp add: scheme_post_sema_def post_sema_def Let_def word_sless_alt W'_def world_simps)
  show "vals W' s = vals W s + 1"
    using next_value_small [OF assms(2,3)] by (simp add: W'_def world_simps)
qed

lemma mbox_list_cong:
  assumes "mbox_list p W xs" and "cells W' = cells W" and "fresh W \<le> fresh W'"
    and "mbox_first (threads W' p) = mbox_first (threads W p)"
    and "mbox_last (threads W' p) = mbox_last (threads W p)"
  shows "mbox_list p W' xs"
  using assms by (fastforce simp: mbox_list_def)

text \<open>The semaphore of the mailbox is made when it is needed.\<close>

lemma make_mbox_sema_ok:
  assumes "mbox_list p W xs" and "mbox_count p W k"
  shows "mbox_list p (make_mbox_sema p W) xs" and "mbox_count p (make_mbox_sema p W) k"
    and "mbox_sema (threads (make_mbox_sema p W) p) \<noteq> None"
proof -
  show "mbox_list p (make_mbox_sema p W) xs"
    by (rule mbox_list_cong [OF assms(1)]) (simp_all add: make_mbox_sema_def world_simps)
  show "mbox_count p (make_mbox_sema p W) k"
    using assms(2) by (auto simp: mbox_count_def make_mbox_sema_def world_simps split: option.splits)
  show "mbox_sema (threads (make_mbox_sema p W) p) \<noteq> None"
    by (simp add: make_mbox_sema_def world_simps)
qed

lemma post_count:
  assumes "mbox_list p W xs" and "mbox_count p W k" and s: "mbox_sema (threads W p) = Some s"
    and "0 \<le> k" "k < 2 ^ 31 - 1"
  obtains W' where "scheme_post_sema n s W = Done W'" "mbox_list p W' xs" "mbox_count p W' (k + 1)"
    "mbox_sema (threads W' p) = Some s"
proof -
  have c: "s < fresh W" "s_first (semas W s) = None" "vals W s = k"
    using assms(2) s by (simp_all add: mbox_count_def)
  define W' where "W' = upd_sema s (\<lambda>t. t\<lparr>s_value := next_value (s_value (semas W s))\<rparr>) W"
  note post = post_idle [OF c(2), unfolded c(3), OF assms(4,5), folded W'_def]
  have "mbox_list p W' xs" by (rule mbox_list_cong [OF assms(1)]) (simp_all add: W'_def world_simps)
  moreover have "mbox_sema (threads W' p) = Some s" using s by (simp add: W'_def world_simps)
  moreover have "mbox_count p W' (k + 1)"
    using post(2) c calculation(2) by (simp add: mbox_count_def W'_def world_simps)
  ultimately show thesis using that post(1) by blast
qed

lemma mbox_push_rep:
  assumes r: "mbox_rep p W xs" and cap: "length xs < 2 ^ 31 - 1"
  shows "\<exists>W'. mbox_push n p x W = Done W' \<and> mbox_rep p W' (xs @ [x])"
proof -
  obtain as where as: "chain (cells W) (mbox_first (threads W p)) as" "distinct as"
    "mbox_last (threads W p) = last_ptr None as" "\<forall>a\<in>set as. a < fresh W"
    "xs = map (\<lambda>a. fst (cells W a)) as"
    using r by (auto simp: mbox_rep_def mbox_list_def)
  let ?b = "fresh W"
  define C where "C = (\<lambda>a. if a = ?b then (x, None)
    else if as \<noteq> [] \<and> a = last as then (fst (cells W a), Some ?b) else cells W a)"
  define W2 where "W2 = upd_thread p
      (\<lambda>t. t\<lparr>mbox_first := (if as = [] then Some ?b else mbox_first t), mbox_last := Some ?b\<rparr>)
      (W\<lparr>cells := C, fresh := ?b + 1\<rparr>)"
  have first: "mbox_first (threads W p) = None \<longleftrightarrow> as = []" using as(1) by (cases as) auto
  have nb: "?b \<notin> set as" using as(4) by auto
  have W2: "mbox_push n p x W = post_mbox n p (make_mbox_sema p W2)"
  proof (cases "as = []")
    case True
    have "C = (cells W)(?b := (x, None))" by (rule ext) (simp add: C_def True)
    then show ?thesis
      using True first by (simp add: mbox_push_def make_raw_pair_def W2_def upd_thread_def Let_def)
  next
    case False
    then have "last as < ?b" using as(4) by simp
    then have "C = (cells W)(?b := (x, None), last as := (fst (cells W (last as)), Some ?b))"
      using False by (auto simp: C_def)
    then show ?thesis
      using False first as(3) \<open>last as < ?b\<close>
      by (cases W) (simp add: mbox_push_def make_raw_pair_def W2_def upd_thread_def Let_def last_ptr_def)
  qed
  have "chain C (if as = [] then Some ?b else mbox_first (threads W p)) (as @ [?b])"
    by (rule chain_snoc [OF as(1,2) nb]) (use nb in \<open>auto simp: C_def\<close>)
  moreover have "map (\<lambda>a. fst (C a)) (as @ [?b]) = xs @ [x]" using as(5) nb by (auto simp: C_def)
  ultimately have list2: "mbox_list p W2 (xs @ [x])"
    unfolding mbox_list_def using as(2,4) nb
    by (intro exI [of _ "as @ [?b]"]) (auto simp: W2_def world_simps)
  have "mbox_count p W2 (int (length xs))"
    using r by (auto simp: mbox_rep_def mbox_count_def W2_def world_simps split: option.splits)
  note m = make_mbox_sema_ok [OF list2 this]
  obtain s where s: "mbox_sema (threads (make_mbox_sema p W2) p) = Some s" using m(3) by auto
  obtain W' where "scheme_post_sema n s (make_mbox_sema p W2) = Done W'" "mbox_list p W' (xs @ [x])"
    "mbox_count p W' (int (length xs) + 1)"
    using post_count [OF m(1,2) s, of n] cap by auto
  then show ?thesis using s W2 by (simp add: post_mbox_def mbox_rep_def add.commute)
qed

lemma mbox_pop_rep:
  assumes r: "mbox_rep p W (x # xs)"
  shows "\<exists>W'. mbox_pop p True W = Some (x, W') \<and> mbox_rep p W' xs"
proof -
  obtain a as where as: "mbox_first (threads W p) = Some a" "chain (cells W) (snd (cells W a)) as"
    "distinct (a # as)" "mbox_last (threads W p) = last_ptr (Some a) as" "\<forall>a\<in>set as. a < fresh W"
    "x = fst (cells W a)" "xs = map (\<lambda>a. fst (cells W a)) as"
    using r by (auto simp: mbox_rep_def mbox_list_def Cons_eq_map_conv)
  obtain s where s: "mbox_sema (threads W p) = Some s" "s < fresh W" "s_first (semas W s) = None"
    "vals W s = int (length xs) + 1"
    using r by (auto simp: mbox_rep_def mbox_count_def split: option.splits)
  define W2 where "W2 = upd_thread p (\<lambda>t. t\<lparr>mbox_first := snd (cells W a),
      mbox_last := (if as = [] then None else mbox_last t)\<rparr>) W"
  have nil: "snd (cells W a) = None \<longleftrightarrow> as = []" using as(2) by (cases as) auto
  define W' where "W' = upd_sema s (\<lambda>t. t\<lparr>s_value := s_value t - 1\<rparr>) W2"
  have "snd (scheme_try_plain_sema s W2) = W'"
    using s(4) by (auto simp: scheme_try_plain_sema_def W2_def W'_def world_simps word_sless_alt)
  then have "mbox_pop p True W = Some (x, W')"
    using as(1,6) nil s(1)
    by (auto simp: mbox_pop_def Let_def W2_def upd_thread_def)
  moreover have "mbox_list p W' xs"
    unfolding mbox_list_def using as(2-5,7)
    by (intro exI [of _ as]) (auto simp: W'_def W2_def world_simps last_ptr_def)
  moreover have "vals W' s = int (length xs)"
    using s(4) sint_minus_1 [of "s_value (semas W s)"] by (simp add: W'_def W2_def world_simps)
  then have "mbox_count p W' (int (length xs))"
    using s by (simp add: mbox_count_def W'_def W2_def world_simps)
  ultimately show ?thesis by (simp add: mbox_rep_def)
qed

text \<open>
  Putting messages back: \<open>cnt + 1\<close> of the messages in the list are not yet in the value.
\<close>

lemma push_front_cell:
  fixes x :: nat
  assumes "mbox_list p W zs" and "mbox_count p W k" and "mbox_sema (threads W p) = Some s"
  defines "W3 \<equiv> upd_thread p (\<lambda>t. t\<lparr>
      mbox_last := (if mbox_first t = None then Some (fresh W) else mbox_last t),
      mbox_first := Some (fresh W)\<rparr>)
      (W\<lparr>cells := (cells W)(fresh W := (x, mbox_first (threads W p))), fresh := fresh W + 1\<rparr>)"
  shows "mbox_list p W3 (x # zs)" "mbox_count p W3 k" "mbox_sema (threads W3 p) = Some s"
proof -
  obtain as where as: "chain (cells W) (mbox_first (threads W p)) as" "distinct as"
    "mbox_last (threads W p) = last_ptr None as" "\<forall>a\<in>set as. a < fresh W"
    "zs = map (\<lambda>a. fst (cells W a)) as"
    using assms(1) by (auto simp: mbox_list_def)
  have nb: "fresh W \<notin> set as" using as(4) by auto
  have first: "mbox_first (threads W p) = None \<longleftrightarrow> as = []" using as(1) by (cases as) auto
  have "chain (cells W3) (mbox_first (threads W p)) as"
    using as(1) chain_cong [of as "cells W3" "cells W"] nb by (force simp: W3_def world_simps)
  then show "mbox_list p W3 (x # zs)"
    unfolding mbox_list_def using as(2-5) nb first
    by (intro exI [of _ "fresh W # as"]) (auto simp: W3_def world_simps last_ptr_def)
  show "mbox_sema (threads W3 p) = Some s" using assms(3) by (simp add: W3_def world_simps)
  then show "mbox_count p W3 k" using assms(2,3) by (simp add: mbox_count_def W3_def world_simps)
qed

lemma add_value_count:
  assumes "mbox_list p W zs" and "mbox_count p W k" and s: "mbox_sema (threads W p) = Some s"
    and "0 \<le> k" "0 \<le> c" "k + c < 2 ^ 31"
  shows "mbox_list p (add_value c s W) zs" "mbox_count p (add_value c s W) (k + c)"
    "mbox_sema (threads (add_value c s W) p) = Some s"
proof -
  show "mbox_list p (add_value c s W) zs"
    by (rule mbox_list_cong [OF assms(1)]) (simp_all add: add_value_def world_simps)
  show sema: "mbox_sema (threads (add_value c s W) p) = Some s"
    using s by (simp add: add_value_def world_simps)
  have v: "vals W s = k" using assms(2) s by (simp add: mbox_count_def)
  have "sint (word_of_int c :: 64 word) = c"
    using assms(4-6) by (simp add: sint_sbintrunc' signed_take_bit_int_eq_self)
  then have "sint (s_value (semas W s) + word_of_int c) = k + c"
    using assms(4-6) v by (simp add: sint_word_ariths signed_take_bit_int_eq_self)
  then show "mbox_count p (add_value c s W) (k + c)"
    using assms(2) s sema by (simp add: mbox_count_def add_value_def world_simps)
qed

lemma push_front_loop_rep:
  assumes "mbox_list p W zs" and "mbox_count p W (int (length zs) - (cnt + 1))"
    and "mbox_sema (threads W p) = Some s" and "- 1 \<le> cnt" "cnt < int (length zs)"
    and "length zs + length lst < 2 ^ 31" and "lst = [] \<Longrightarrow> cnt = - 1"
  shows "\<exists>W'. push_front_loop n p cnt lst W = Done W' \<and> mbox_rep p W' (rev lst @ zs)"
  using assms
proof (induction lst arbitrary: W zs cnt)
  case Nil
  then show ?case by (simp add: mbox_rep_def)
next
  case (Cons x lst)
  define W3 where "W3 = upd_thread p (\<lambda>t. t\<lparr>
      mbox_last := (if mbox_first t = None then Some (fresh W) else mbox_last t),
      mbox_first := Some (fresh W)\<rparr>)
      (W\<lparr>cells := (cells W)(fresh W := (x, mbox_first (threads W p))), fresh := fresh W + 1\<rparr>)"
  note c = push_front_cell [OF Cons.prems(1-3), of x, folded W3_def]
  have eq: "push_front_loop n p cnt (x # lst) W =
      (if lst = [] \<or> cnt + 1 = 256
       then bind_run (scheme_post_sema n s (add_value (cnt + 1) s W3)) (push_front_loop n p (- 1) lst)
       else push_front_loop n p (cnt + 1) lst W3)"
    using c(3) by (cases "mbox_first (threads W p)")
      (simp_all add: make_raw_pair_def W3_def upd_thread_def Let_def)
  show ?case
  proof (cases "lst = [] \<or> cnt + 1 = 256")
    case True
    note a = add_value_count [OF c, of "cnt + 1"]
    have k: "int (length zs) - (cnt + 1) + (cnt + 1) = int (length zs)" by simp
    obtain W' where W': "scheme_post_sema n s (add_value (cnt + 1) s W3) = Done W'"
      "mbox_list p W' (x # zs)" "mbox_count p W' (int (length zs) + 1)"
      "mbox_sema (threads W' p) = Some s"
      using post_count [OF a(1) a(2) [unfolded k] a(3), of n] Cons.prems(4-6) by auto
    have "\<exists>W''. push_front_loop n p (- 1) lst W' = Done W'' \<and> mbox_rep p W'' (rev lst @ x # zs)"
      by (rule Cons.IH [OF W'(2) _ W'(4)]) (use W'(3) Cons.prems in \<open>auto simp: add.commute\<close>)
    then show ?thesis using W'(1) eq True by simp
  next
    case False
    have "\<exists>W''. push_front_loop n p (cnt + 1) lst W3 = Done W'' \<and> mbox_rep p W'' (rev lst @ x # zs)"
      by (rule Cons.IH [OF c(1) _ c(3)]) (use c(2) Cons.prems False in \<open>auto simp: algebra_simps\<close>)
    then show ?thesis using eq False by simp
  qed
qed

lemma mbox_push_front_rep:
  assumes "mbox_rep p W xs" and "length xs + length lst < 2 ^ 31"
  shows "\<exists>W'. mbox_push_front n p lst W = Done W' \<and> mbox_rep p W' (rev lst @ xs)"
proof -
  have "mbox_list p W xs" "mbox_count p W (int (length xs))" using assms(1) by (auto simp: mbox_rep_def)
  note m = make_mbox_sema_ok [OF this]
  obtain s where "mbox_sema (threads (make_mbox_sema p W) p) = Some s" using m(3) by auto
  then show ?thesis
    using push_front_loop_rep [OF m(1), of "- 1" s lst n] m(2) assms(2) by (simp add: mbox_push_front_def)
qed

interpretation mbox: fifo "mbox_rep p" "mbox_push n p" "mbox_pop p True" "2 ^ 31 - 1" for p n
proof
  show "mbox_pop p True W = None" if "mbox_rep p W []" for W
    using that by (auto simp: mbox_rep_def mbox_list_def mbox_pop_def)
qed (use mbox_push_rep mbox_pop_rep in blast)+

end
