(* ===== verification/SyncLaws.thy ===== *)
theory SyncLaws
  imports SyncSystem ChannelProps Mailbox
begin

text \<open>
  The properties of semaphores, channels and mailboxes, with a small store for their witnesses.
\<close>

section \<open>Auxiliary facts\<close>

lemma post_all_loop_result:
  "post_all_loop pa k j t W = Done W' \<Longrightarrow> s_first (semas W' t) = None \<and> s_value (semas W' t) = - 1"
proof (induction j arbitrary: W)
  case (Suc j)
  then show ?case
    by (cases "post_sema pa k t W") (auto simp: world_simps split: if_splits)
qed simp



text \<open>
  A store for examples: semaphore 0 and channel 0 are idle, every thread is suspended; objects 1 and 2
  wait for the semaphore, 3 and 4 can wait on the channel as sender and as receiver, as parts of
  the synchronizations 3 and 4.
\<close>

definition sample_syncer :: "addr \<Rightarrow> Scheme_Channel_Syncer" where
  "sample_syncer w =
     \<lparr>w_p = w, in_line = False, picked = False, w_prev = None, w_next = None,
      w_syncing = (if w < 3 then None else Some w),
      w_obj = (if w < 3 then Sema 0 else if w = 3 then Channel_Put 0 else Channel 0), syncing_i = 0\<rparr>"

definition sample_world :: world where
  "sample_world =
     \<lparr>semas = \<lambda>_. \<lparr>s_first = None, s_last = None, s_value = 0\<rparr>,
      channels = \<lambda>_. \<lparr>put_first = None, put_last = None, get_first = None, get_last = None\<rparr>,
      channel_puts = \<lambda>_. \<lparr>chp_ch = 0, chp_val = 42\<rparr>,
      syncers = sample_syncer,
      syncings = \<lambda>y. init_syncing\<lparr>y_set := (if y \<in> {3, 4} then Some [Syncer y] else None)\<rparr>,
      replaces = [],
      threads = \<lambda>_. \<lparr>running = 3, suspend_break = 0, external_break = 0, can_break_at_swap = False,
                 break_enabled = True, ran_some = False, sync_box = None, mbox_first = None,
                 mbox_last = None, mbox_sema = None\<rparr>,
      run_queue = [0], current_thread = 0, all_breaks_disabled = False, no_stack_overflow = False,
      cells = \<lambda>_. (0, None), fresh = 10\<rparr>"

lemma sample_ends: "line_first sample_world ln = None" "line_last sample_world ln = None"
  by (cases ln; simp add: sample_world_def)+

lemma sample_lines: "lines sample_world (\<lambda>_. []) {}"
  by (simp add: lines_def linked_def sample_ends) (simp add: sample_world_def sample_syncer_def)

lemma sample_enter:
  assumes "w \<in> {1, 2, 3, 4}"
  shows "good (get_into_line (w_obj (sample_syncer w)) w sample_world)
           ((\<lambda>_. [])(the (line_of sample_world (w_obj (sample_syncer w))) := [w])) {} 2"
proof -
  define W where "W = get_into_line (w_obj (sample_syncer w)) w sample_world"
  define ln where "ln = the (line_of sample_world (w_obj (sample_syncer w)))"
  have w: "syncers sample_world w = sample_syncer w" by (simp add: sample_world_def)
  have "line_of sample_world (w_obj (sample_syncer w)) = Some ln"
    using assms by (auto simp: ln_def sample_world_def sample_syncer_def)
  from lines_get_into_line [OF sample_lines, of w ln, unfolded w, OF this]
  have lines: "lines W ((\<lambda>_. [])(ln := [w])) {}" by (simp add: W_def sample_syncer_def)
  note keep = get_into_line_keeps [where W = sample_world and ev = "w_obj (sample_syncer w)" and w = w, folded W_def]
  have inl: "in_line (syncers W x) \<Longrightarrow> x = w" for x
    using keep(3) [of x] by (cases "x = w") (simp_all add: sample_world_def sample_syncer_def)
  then have "waiting W {} \<subseteq> {w}" by (auto simp: waiting_def)
  then have "finite (waiting W {})" "card (waiting W {}) < 2"
    using card_mono [of "{w}" "waiting W {}"] by (auto intro: finite_subset)
  moreover have "syncings W = syncings sample_world" "s_value (semas W s) = 0" for s
    using keep(5,7) by (simp_all add: sample_world_def)
  moreover have "w_obj (syncers W x) = w_obj (sample_syncer x)" for x
    using keep(1) [of x] by (simp add: same_role_def sample_world_def)
  ultimately show ?thesis
    unfolding W_def [symmetric] ln_def [symmetric] using lines
    by (auto simp: good_def sets_ok_def closed_empty_def sample_world_def sample_syncer_def init_syncing_def
        split: if_splits)
qed

text \<open>The object 1 in line for the semaphore 0, and the syncers 3 and 4 in line for the channel 0.\<close>

definition sample_waits :: world where "sample_waits = get_into_line (Sema 0) 1 sample_world"

definition sample_sends :: world where "sample_sends = get_into_line (Channel_Put 0) 3 sample_world"

definition sample_receives :: world where "sample_receives = get_into_line (Channel 0) 4 sample_world"

lemmas sample_defs =
  sample_world_def sample_syncer_def get_into_line_def set_next_def upd_defs Let_def init_syncing_def

lemma sample_waits_good: "good sample_waits ((\<lambda>_. [])(Sema_Line 0 := [1])) {} 2"
  using sample_enter [of 1] by (simp add: sample_waits_def sample_syncer_def)



lemma sample_roomy: "roomy sample_waits {}"
proof -
  have "card (waiting sample_waits {}) < 2" using sample_waits_good by (simp add: good_def)
  then show ?thesis by (simp add: roomy_def sample_waits_def sample_defs)
qed

lemma sample_can_pick:
  "can_pick 1 sample_waits" "can_pick 3 sample_sends" "can_pick 4 sample_receives"
  by (simp_all add: can_pick_def pending_break_def sample_waits_def sample_sends_def
      sample_receives_def sample_defs)

section \<open>Properties\<close>

text \<open>
  C34. The lines are queues with removal. Whatever the objects look like otherwise, entering a line
  through the pointers of its last object puts the waiter at the end of the abstract line, and leaving
  it through the waiter's own pointers removes exactly this waiter, from any position; all other lines,
  which share the store, are unchanged.
\<close>

theorem line_operations:
  assumes "lines W L {}" and "line_of W (w_obj (syncers W w)) = Some ln"
  shows "(\<not> in_line (syncers W w) \<longrightarrow>
            lines (scheme_get_back_into_line w W) (L(ln := L ln @ [w])) {}) \<and>
         lines (scheme_get_outof_line w W) (L(ln := remove1 w (L ln))) {}"
  using lines_get_into_line [OF assms] lines_get_outof_line [OF assms(1,2,2)]
  by (simp add: scheme_get_back_into_line_def scheme_get_outof_line_def)

theorem line_operations_witness:
  "lines (scheme_get_back_into_line 2 sample_waits) ((\<lambda>_. [])(Sema_Line 0 := [1, 2])) {} \<and>
   lines (scheme_get_outof_line 1 sample_waits) (\<lambda>_. []) {}"
proof -
  have ok: "lines sample_waits ((\<lambda>_. [])(Sema_Line 0 := [1])) {}"
    using sample_waits_good by (simp add: good_def)
  have "line_of sample_waits (w_obj (syncers sample_waits w)) = Some (Sema_Line 0)" if "w \<in> {1, 2}" for w
    using that by (auto simp: sample_waits_def sample_defs)
  moreover have "\<not> in_line (syncers sample_waits 2)" by (simp add: sample_waits_def sample_defs)
  ultimately show ?thesis
    using line_operations [OF ok, of 2 "Sema_Line 0"] line_operations [OF ok, of 1 "Sema_Line 0"]
    by (simp add: fun_upd_def if_distrib cong: if_cong)
qed

text \<open>
  C35. Posting for good ends. Posting every waiter of a semaphore posts, through the negative
  acknowledgements of each of them, other semaphores for good, and so on. With more fuel than there
  are waiters the recursion returns, the line of the semaphore is empty and its value is -1, all lines
  are well linked, and the remaining waiters keep their order.
\<close>

theorem post_sema_all_terminates:
  assumes "good W L {} n" and "roomy W {}"
  shows "\<exists>W' L'. scheme_post_sema_all n t W = Done W' \<and> good W' L' {} n \<and>
           L' (Sema_Line t) = [] \<and> s_value (semas W' t) = - 1 \<and> (\<forall>ln. subseq (L' ln) (L ln))"
proof -
  have ok: "post_ok (roomy W {}) (vals W) n {} W L (scheme_post_sema_all n t W)"
    by (rule posts.pa_ok [OF assms(1)])
  then obtain W' L' where W': "scheme_post_sema_all n t W = Done W'" "good W' L' {} n"
    "\<forall>ln. subseq (L' ln) (L ln)"
    using assms(2) by (auto simp: post_ok_def split: run.splits)
  have "s_first (semas W' t) = None \<and> s_value (semas W' t) = - 1"
    using W'(1) by (cases n) (auto dest: post_all_loop_result simp del: post_all_loop.simps)
  moreover have "lines W' L' {}" using W'(2) by (simp add: good_def)
  ultimately have "L' (Sema_Line t) = [] \<and> s_value (semas W' t) = - 1"
    using lines_sema_first [of W' L' "{}" t] by (metis hd_ptr_None_iff)
  then show ?thesis using W' by blast
qed

theorem post_sema_all_terminates_witness:
  "\<exists>W' L'. scheme_post_sema_all 2 0 sample_waits = Done W' \<and> good W' L' {} 2 \<and>
     L' (Sema_Line 0) = [] \<and> s_value (semas W' 0) = - 1"
  using post_sema_all_terminates [OF sample_waits_good sample_roomy, of 0] by blast

text \<open>
  C36. A post wakes a waiter. If somebody in the line of the semaphore can be picked, then
  \<open>semaphore-post\<close> returns and the first such waiter has been picked: its synchronization, if it has
  one, has the result for its event, and its thread is not suspended any more. The lines stay well
  linked and got shorter.
\<close>

theorem post_wakes_first_waiter:
  assumes "good W L {} (Suc n)" and "roomy W {}" and "L (Sema_Line t) = as @ w # bs"
    and "\<forall>a\<in>set as. \<not> can_pick a W" and "can_pick w W"
  shows "\<exists>W' L'. scheme_post_sema n t W = Done W' \<and> woken W' w \<and>
           good W' L' {} (card (waiting W {})) \<and> (\<forall>ln. subseq (L' ln) (L ln))"
proof -
  have "post_ok (roomy W {}) (vals W) (card (waiting W {})) {} W L (scheme_post_sema n t W)"
    unfolding scheme_post_sema_def by (rule posts.post_sema_ok [OF assms(1)]) (simp add: assms(3))
  then obtain W' L' where "scheme_post_sema n t W = Done W'" "good W' L' {} (card (waiting W {}))"
    "\<forall>ln. subseq (L' ln) (L ln)"
    using assms(2) by (auto simp: post_ok_def split: run.splits)
  then show ?thesis using scheme_post_sema_wakes [OF assms(1,3-5)] by blast
qed

theorem post_wakes_first_waiter_witness:
  "\<exists>W'. scheme_post_sema 1 0 sample_waits = Done W' \<and> woken W' 1"
  using post_wakes_first_waiter [of sample_waits "(\<lambda>_. [])(Sema_Line 0 := [1])" 1 0 "[]" 1 "[]"]
    sample_waits_good sample_roomy sample_can_pick(1)
  by (auto simp: numeral_2_eq_2)

text \<open>
  C37. No wake-up is lost. Threads wait for semaphores, post them and try them in any interleaving,
  while threads are killed, broken, suspended and scheduled in any way. In every reachable state,
  as long as somebody is in line for a semaphore, its value is at most the number of threads that
  have been woken by a post of it and still have to take it: a post that is available is on its way to
  a thread that has already left the line, also when another thread stole the post or a woken thread
  was killed.
\<close>

theorem no_lost_wakeup:
  assumes "no_waiters W0" and "reachable W0 (W, pt)" and "s_first (semas W s) \<noteq> None"
  shows "0 \<le> vals W s \<and> vals W s \<le> int (card (pending s (W, pt))) \<and>
         (0 < vals W s \<longrightarrow>
            (\<exists>T fr. pt T = Some (In_Line fr) \<and> f_sema fr = s \<and> picked (syncers W (f_w fr))))"
proof -
  have inv: "sync_inv (W, pt)" by (rule reachable_inv [OF assms(2,1)])
  note le = sync_invD(6) [OF inv assms(3)]
  have "\<exists>T fr. pt T = Some (In_Line fr) \<and> f_sema fr = s \<and> picked (syncers W (f_w fr))" if "0 < vals W s"
  proof -
    have "pending s (W, pt) \<noteq> {}" using le that by auto
    then show ?thesis by (auto simp: pending_def)
  qed
  then show ?thesis using le sync_invD(4) [OF inv] by blast
qed

text \<open>Two threads wait for the semaphore 0, which is posted once.\<close>

definition sample_idle :: world where
  "sample_idle = sample_world\<lparr>syncings := \<lambda>_. init_syncing, run_queue := [1, 2, 0]\<rparr>"

definition sample_run :: sys where
  "sample_run =
     (let (q1, W1) = wait_start 0 (sample_idle\<lparr>current_thread := 1\<rparr>);
          (q2, W2) = wait_start 0 (W1\<lparr>current_thread := 2\<rparr>)
      in case scheme_post_sema 1 0 W2 of Done W3 \<Rightarrow> (W3, [1 \<mapsto> q1, 2 \<mapsto> q2]) | _ \<Rightarrow> (W2, [1 \<mapsto> q1, 2 \<mapsto> q2]))"

lemma sample_run_reachable: "reachable sample_idle sample_run"
proof -
  obtain q1 W1 where 1: "wait_start 0 (sample_idle\<lparr>current_thread := 1\<rparr>) = (q1, W1)" by force
  obtain q2 W2 where 2: "wait_start 0 (W1\<lparr>current_thread := 2\<rparr>) = (q2, W2)" by force
  have "reachable sample_idle (W1, [1 \<mapsto> q1])"
    by (rule reachable.step [OF reachable.init]) (rule step.start [OF _ 1], simp)
  then have r: "reachable sample_idle (W2, [1 \<mapsto> q1, 2 \<mapsto> q2])"
    by (rule reachable.step) (rule step.start [OF _ 2], simp)
  then have "reachable sample_idle (W3, [1 \<mapsto> q1, 2 \<mapsto> q2])" if "scheme_post_sema 1 0 W2 = Done W3" for W3
    by (rule reachable.step) (rule step.post [OF that])
  then show ?thesis using r unfolding sample_run_def 1 prod.case 2 Let_def by (auto split: run.split)
qed

theorem no_lost_wakeup_witness:
  "s_first (semas (fst sample_run) 0) = Some 11 \<and> vals (fst sample_run) 0 = 1 \<and>
   1 \<le> int (card (pending 0 sample_run)) \<and>
   (\<exists>T fr. snd sample_run T = Some (In_Line fr) \<and> f_sema fr = 0 \<and> picked (syncers (fst sample_run) (f_w fr)))"
proof -
  have "line_first sample_idle ln = None \<and> line_last sample_idle ln = None" for ln
    by (cases ln) (simp_all add: sample_idle_def sample_world_def)
  then have "no_waiters sample_idle"
    by (simp add: no_waiters_def plain_def sample_idle_def sample_world_def sample_syncer_def init_syncing_def)
  have v: "s_first (semas (fst sample_run) 0) = Some 11" "vals (fst sample_run) 0 = 1"
    by (simp_all add: sample_run_def sample_idle_def wait_start_def wait_suspend_def init_syncer_def
        sample_defs scheme_weak_suspend_thread_def scheme_post_sema_def post_sema_def next_value_def
        can_pick_def pending_break_def pop_line_def detach_def resume_if_picked_def
        scheme_weak_resume_thread_def word_sless_alt)
  show ?thesis
    using no_lost_wakeup [OF \<open>no_waiters sample_idle\<close>, of "fst sample_run" "snd sample_run" 0]
      sample_run_reachable v by simp
qed

text \<open>
  C38. The limit of a semaphore. A post of a semaphore that was posted for good does nothing. The new
  value is computed in an \<open>int\<close>, so although the value is an \<open>intptr_t\<close>, and any nonnegative
  \<open>intptr_t\<close> is accepted as the initial value, every post is refused from \<open>2 ^ 31 - 1\<close> on, with the store unchanged;
  below this limit a post without waiters adds one.
\<close>

theorem semaphore_post_limit:
  "(vals W t < 0 \<longrightarrow> scheme_post_sema n t W = Done W) \<and>
   (2 ^ 31 - 1 \<le> vals W t \<longrightarrow> scheme_post_sema n t W = Raised W) \<and>
   (0 \<le> vals W t \<and> vals W t < 2 ^ 31 - 1 \<and> s_first (semas W t) = None \<longrightarrow>
      (\<exists>v. scheme_post_sema n t W = Done (upd_sema t (\<lambda>s. s\<lparr>s_value := v\<rparr>) W) \<and> sint v = vals W t + 1))"
proof (intro conjI impI)
  assume "vals W t < 0"
  then show "scheme_post_sema n t W = Done W"
    by (simp add: scheme_post_sema_def post_sema_def word_sless_alt)
next
  assume big: "2 ^ 31 - 1 \<le> vals W t"
  then have "\<not> s_value (semas W t) <s next_value (s_value (semas W t))"
    using next_value_less [of "s_value (semas W t)"] by simp
  then show "scheme_post_sema n t W = Raised W"
    using big by (simp add: scheme_post_sema_def post_sema_def Let_def word_sless_alt)
next
  assume "0 \<le> vals W t \<and> vals W t < 2 ^ 31 - 1 \<and> s_first (semas W t) = None"
  then show "\<exists>v. scheme_post_sema n t W = Done (upd_sema t (\<lambda>s. s\<lparr>s_value := v\<rparr>) W) \<and>
      sint v = vals W t + 1"
    using post_idle [of W t] by (intro exI [of _ "next_value (s_value (semas W t))"])
      (simp add: world_simps)
qed

definition sample_full :: "nat \<Rightarrow> world" where
  "sample_full v = upd_sema 0 (\<lambda>s. s\<lparr>s_value := of_nat v\<rparr>) sample_world"

theorem semaphore_post_limit_witness:
  "scheme_post_sema 0 0 (sample_full (2 ^ 31 - 1)) = Raised (sample_full (2 ^ 31 - 1)) \<and>
   scheme_post_sema 0 0 (sample_full (2 ^ 40)) = Raised (sample_full (2 ^ 40)) \<and>
   (\<exists>v. scheme_post_sema 0 0 (sample_full 7) =
          Done (upd_sema 0 (\<lambda>s. s\<lparr>s_value := v\<rparr>) (sample_full 7)) \<and> sint v = 8)"
proof -
  have v: "vals (sample_full (2 ^ 31 - 1)) 0 = 2 ^ 31 - 1" "vals (sample_full (2 ^ 40)) 0 = 2 ^ 40"
    "vals (sample_full 7) 0 = 7" "s_first (semas (sample_full 7) 0) = None"
    by (simp_all add: sample_full_def sample_world_def upd_sema_def)
  show ?thesis
    using semaphore_post_limit [of "sample_full (2 ^ 31 - 1)" 0 0]
      semaphore_post_limit [of "sample_full (2 ^ 40)" 0 0] semaphore_post_limit [of "sample_full 7" 0 0]
    unfolding v by simp
qed





end
