(* ===== verification/Spec2Isabelle.thy ===== *)
theory Spec2Isabelle
  imports HashTreeLaws HashTableLaws Utf16Laws ExactIntegers SyncLaws
begin

text \<open>
  \<^bold>\<open>Verification of the C core of Racket 7\<close>

  The program is the runtime system of Racket: a C core (\<open>src/racket/src/racket/src\<close>) that
  implements the values, the primitives, the bytecode compiler, threads and I/O, over a memory
  manager (\<open>src/racket/src/racket/gc2\<close>). This development models subsystems of the core whose
  behaviour is determined by their C code: the two kinds of hash table behind \<open>make-hash\<close> and
  \<open>hash\<close>, the conversion between bytes and characters behind every string primitive and port, the
  arithmetic of exact integers, and the semaphores, channels and mailboxes with which threads
  synchronize.

  \<^bold>\<open>Conventions\<close>

  \<^item> A C array is a list and a read or write outside of it has no result: operations that access
    arrays by a computed index return an option, and \<open>None\<close> means undefined behaviour of the C
    code. A theorem that the result is \<open>Some\<close> is a theorem of memory safety.
  \<^item> Machine integers are words of their width, \<open>64 word\<close> for \<open>intptr_t\<close>, \<open>uintptr_t\<close> and GMP limbs,
    \<open>32 word\<close> for \<open>unsigned int\<close> and characters, \<open>8 word\<close> for bytes; \<open>sint\<close> and \<open>unat\<close> are the signed
    and the unsigned reading. The model is that of a 64-bit machine.
  \<^item> Loops are structural recursion where the C loop is bounded by an array, and otherwise recursion
    with fuel or \<open>partial_function (option)\<close>. Fuel: growing a mutable hash table inserts into a table
    that does not grow again, so \<open>do_hash\<close> is given depth 2; a probe sequence is given as many steps
    as the table has slots, and \<open>hash_search_terminates\<close> shows that these suffice. The UTF-8 decoder
    is a \<open>partial_function\<close>, and its theorems show that it returns. A post of a semaphore takes at least
    one waiter out of line before it posts further ones, so the recursion of
    \<open>scheme_post_sema_all\<close> is given more fuel than there are waiters; \<open>post_sema_all_terminates\<close> shows
    that this suffices.
  \<^item> Objects that are linked by pointers and changed in place (semaphores, channels, waiters,
    synchronizations, threads, mailbox pairs) live in an explicit store, the record \<open>world\<close>; a pointer
    is an address, or \<open>None\<close> for a null pointer. Raising an exception, running out of fuel and a null
    dereference are the results \<open>Raised\<close>, \<open>Diverged\<close> and \<open>Undefined\<close>.
  \<^item> Code outside of the modelled files that a component calls is a parameter: hash codes and equality
    of arbitrary Scheme values (\<open>key_env\<close>), and GMP's multiplication of long limb vectors
    (\<open>mpn_mul\<close>). What is relied on is a hypothesis of the theorem.

  \<^bold>\<open>Theories\<close>

  \<^item> \<open>Prelude\<close>: arrays with bounds, Scheme values as objects with identity.
  \<^item> \<open>HamtBits\<close>, \<open>Hamt\<close>, \<open>HamtProps\<close>: \<open>hash.c\<close>, the hash array mapped trie: reordering of hash codes,
    population count, bitmap-indexed nodes with optional value and code arrays, \<open>hamt_assoc\<close>,
    \<open>hamt_set\<close>, \<open>hamt_remove\<close>, \<open>hamt_contract\<close>, \<open>hamt_at_index\<close>; the invariant of nodes and what lookup
    returns after each update.
  \<^item> \<open>HashTree\<close>, \<open>HashTreeProps\<close>, \<open>HashTreeTable\<close>, \<open>HashTreeUpdate\<close>, \<open>HashTreeLaws\<close>: immutable tables
    (\<open>Scheme_Hash_Tree\<close>): key comparison by \<open>eq?\<close>, \<open>eqv?\<close> and \<open>equal?\<close>, collision nodes, placeholders,
    positional iteration. The laws: an update changes exactly one entry, counts are exact, iteration
    visits every entry once, every reachable table is well formed; and a defect of updates through
    key wrappers.
  \<^item> \<open>Probe\<close>, \<open>HashTable\<close>, \<open>HashTableProps\<close>, \<open>HashTableLaws\<close>: mutable tables (\<open>Scheme_Hash_Table\<close>) with double
    hashing. \<open>Probe\<close> holds the locale \<open>open_table\<close> of open addressing, interpreted for tables compared
    by identity and by string contents. The laws: any sequence of operations refines the same
    sequence on a finite map, probing terminates, iteration is complete.
  \<^item> \<open>Utf8\<close>, \<open>Utf8Props\<close>, \<open>Utf8Laws\<close>, \<open>Utf8Codecs\<close>, \<open>Utf16Laws\<close>: \<open>string.c\<close>, the resumable UTF-8 decoder
    with its strict, permissive and counting modes, the encoder, the entry points that allocate
    buffers, and UTF-16. The laws: strict decoding accepts exactly the well-formed prefix, encoding
    and decoding are inverse, buffers are never exceeded, decoding can be resumed; and defects of the
    permissive mode and of the reported positions.
  \<^item> \<open>Mpn\<close>, \<open>MpnLaws\<close>: the limb-vector routines of the bundled GMP (\<open>gmp/gmp.c\<close>, \<open>gmp/gmp.h\<close>,
    \<open>gmp/gmplonglong.h\<close>) up to schoolbook multiplication, with the value of each result and carry.
  \<^item> \<open>Bignum\<close>, \<open>BignumProps\<close>, \<open>BignumBits\<close>: \<open>bignum.c\<close>: normalization, comparison, addition and
    subtraction by sign cases, multiplication, bitwise operations in two's complement, shifts. The
    locale \<open>mpn_multiplier\<close> is the interface to GMP's multiplication, interpreted on
    \<open>mpn_mul_basecase\<close>.
  \<^item> \<open>Integers\<close>, \<open>IntegerLaws\<close>, \<open>ExactIntegers\<close>: the fixnum paths of \<open>numarith.c\<close>, \<open>numcomp.c\<close> and
    \<open>number.c\<close> with their overflow tests, and the dispatch on fixnums and bignums. The laws: each
    operation returns the unique normal representation of the exact integer result.
  \<^item> \<open>Sync\<close>, \<open>SyncLines\<close>, \<open>SyncPosts\<close>: \<open>sema.c\<close> and the parts of \<open>thread.c\<close> that a post calls. The lines
    of waiters as doubly linked lists over the store; posting, with the negative acknowledgements of
    the events that were not chosen, which post other semaphores, through chains of \<open>replace-evt\<close>. The locale \<open>nested_post\<close> is the
    contract of such a nested post, interpreted on \<open>scheme_post_sema_all\<close> by induction on the fuel.
  \<^item> \<open>Wait\<close>, \<open>SyncSystem\<close>: \<open>scheme_wait_semas_chs\<close> for one semaphore, cut at the points where other
    threads run; the step relation of all threads together with an environment that kills, breaks,
    suspends and schedules them, and its invariant by rule induction.
  \<^item> \<open>Channel\<close>, \<open>ChannelProps\<close>: \<open>try_channel\<close>, the search for a partner in both directions.
  \<^item> \<open>Mailbox\<close>: \<open>thread-send\<close>, \<open>thread-try-receive\<close> and \<open>thread-rewind-receive\<close>. The locale \<open>fifo\<close> is
    the contract of a bounded queue, interpreted on the mailbox.
  \<^item> \<open>SyncLaws\<close>: the lines refine queues with removal, posting for good terminates, a post wakes the
    first waiter that can be picked, no wake-up is lost in any interleaving, the limit of the value of
    a semaphore, rendezvous on channels, mailboxes are queues.

  \<^bold>\<open>Not modelled\<close>

  The compiler passes, the evaluator and the JIT work on the whole syntax of compiled forms; ports,
  file-system and network access are I/O; continuations and the switch between threads copy the C
  stack; the memory manager works on raw pages. Of the modelled files: the unsafe iteration stack and
  the equality of tables in \<open>hash.c\<close>; locale-dependent conversion, string ports and the argument checks
  of the primitives in \<open>string.c\<close>; division, gcd, radix conversion and floating point in \<open>bignum.c\<close>, which
  rest on GMP routines and on floating-point arithmetic that are not modelled; rationals, flonums
  and complex numbers in \<open>number.c\<close>. Of \<open>sema.c\<close>: waiting for several objects at once and with a
  synchronization of the caller, the readiness functions of events, alarms, chaperones, the wait for
  the end of atomic mode, and the blocking branch of \<open>thread-receive\<close>. Of \<open>thread.c\<close>: the scheduler,
  which the environment of \<open>SyncSystem\<close> replaces by arbitrary changes of thread states, thread groups,
  custodians, and the release of place messages in \<open>post_syncing_nacks\<close>.
\<close>

end
